(* ===== verification/Boot_Prelude.thy ===== *)
theory Boot_Prelude
  imports Main "HOL-Library.Word" "HOL-Library.Signed_Division"
begin

text \<open>
  Shared vocabulary of the development: the C integers of the 32-bit ARM target, the
  byte-addressed memory, counted loops, and the lemma collections the component theories use.

  A C \<open>int\<close>, \<open>s32_t\<close> or \<open>long\<close> is an \<^typ>\<open>int\<close> together with the wrap-around function
  \<open>s32\<close>; an \<open>unsigned int\<close>, \<open>u32_t\<close>, \<open>unsigned long\<close> or pointer is an \<^typ>\<open>int\<close> with \<open>u32\<close>.
  Every arithmetic operation of the source whose value can leave its type is wrapped where the
  source computes it.  Values on which the source works bit by bit (pixels, colour channels,
  checksums, register contents) are words of their width.
\<close>

named_theorems wrap_simps \<open>wrap-around disappears inside the range of the type\<close>
named_theorems rect_simps \<open>unfolding of the rectangle operations\<close>

unbundle bit_operations_syntax

section \<open>C integers\<close>

type_synonym u8 = "8 word"
type_synonym u16 = "16 word"
type_synonym u32w = "32 word"

text \<open>Reduction to the range of a signed, respectively unsigned, 32-bit integer.\<close>

definition s32 :: "int \<Rightarrow> int" where
  "s32 v = (v + 2147483648) mod 4294967296 - 2147483648"

definition u32 :: "int \<Rightarrow> int" where
  "u32 v = v mod 4294967296"

definition in_s32 :: "int \<Rightarrow> bool" where
  "in_s32 v \<longleftrightarrow> - 2147483648 \<le> v \<and> v \<le> 2147483647"

definition in_u32 :: "int \<Rightarrow> bool" where
  "in_u32 v \<longleftrightarrow> 0 \<le> v \<and> v \<le> 4294967295"

lemma s32_id [wrap_simps]: "in_s32 v \<Longrightarrow> s32 v = v"
  by (simp add: s32_def in_s32_def)

lemma u32_id [wrap_simps]: "in_u32 v \<Longrightarrow> u32 v = v"
  by (simp add: u32_def in_u32_def)

lemma s32_range [simp]: "in_s32 (s32 v)"
  by (simp add: s32_def in_s32_def)

lemma u32_range [simp]: "in_u32 (u32 v)"
  by (simp add: u32_def in_u32_def)

lemma s32_idem [simp]: "s32 (s32 v) = s32 v"
  by (rule s32_id) simp

lemma u32_idem [simp]: "u32 (u32 v) = u32 v"
  by (rule u32_id) simp

lemma u32_nonneg [simp]: "0 \<le> u32 v"
  by (simp add: u32_def)

lemma u32_bound [simp]: "u32 v < 4294967296"
  by (simp add: u32_def)

lemma u32_add_left [simp]: "u32 (u32 a + b) = u32 (a + b)"
  by (simp add: u32_def mod_simps)

lemma u32_add_right [simp]: "u32 (a + u32 b) = u32 (a + b)"
  by (simp add: u32_def mod_simps)

lemma u32_add_s32 [simp]: "u32 (a + s32 b) = u32 (a + b)"
proof -
  have "(a + s32 b) mod 4294967296 = ((a - 2147483648) + (b + 2147483648) mod 4294967296) mod 4294967296"
    by (simp add: s32_def algebra_simps)
  also have "\<dots> = (a + b) mod 4294967296"
    by (simp add: mod_simps)
  finally show ?thesis by (simp add: u32_def)
qed

lemma u32_s32 [simp]: "u32 (s32 v) = u32 v"
  using u32_add_s32 [of 0 v] by simp

section \<open>Counted loops\<close>

text \<open>
  \<open>for_loop f n s\<close> is \<^verbatim>\<open>for (i = 0; i < n; i++) body(i)\<close> on the state \<open>s\<close>: the body sees the
  counter.
\<close>

primrec for_loop :: "(nat \<Rightarrow> 's \<Rightarrow> 's) \<Rightarrow> nat \<Rightarrow> 's \<Rightarrow> 's" where
  "for_loop f 0 s = s"
| "for_loop f (Suc n) s = f n (for_loop f n s)"

lemma for_loop_invariant:
  assumes "P 0 s" and "\<And>i t. i < n \<Longrightarrow> P i t \<Longrightarrow> P (Suc i) (f i t)"
  shows "P n (for_loop f n s)"
  using assms by (induction n) auto

lemma for_loop_cong:
  assumes "\<And>i t. i < n \<Longrightarrow> f i t = g i t"
  shows "for_loop f n s = for_loop g n s"
  using assms by (induction n) auto

lemma for_loop_fold: "for_loop f n s = fold f [0..<n] s"
  by (induction n) auto

lemma for_loop_Suc_shift: "for_loop f (Suc n) s = for_loop (\<lambda>i. f (Suc i)) n (f 0 s)"
  by (induction n) auto

text \<open>A loop that also advances a pointer by a fixed step.\<close>

lemma for_loop_step:
  fixes p :: "'a::comm_ring_1"
  shows "for_loop (\<lambda>i (s, p). (g s p, p + d)) n (s, p) =
    (for_loop (\<lambda>i s. g s (p + of_nat i * d)) n s, p + of_nat n * d)"
  by (induction n) (auto simp: algebra_simps)

text \<open>Two nested loops visit the pairs of counters row by row.\<close>

lemma for_loop_nest:
  "for_loop (\<lambda>j. for_loop (\<lambda>i. f i j) w) h s =
   fold (\<lambda>(i, j). f i j) [(i, j). j \<leftarrow> [0..<h], i \<leftarrow> [0..<w]] s"
proof (induction h)
  case (Suc h)
  have "fold (\<lambda>(i, j). f i j) (map (\<lambda>i. (i, h)) [0..<w]) t = for_loop (\<lambda>i. f i h) w t" for t
    by (simp add: for_loop_fold fold_map comp_def)
  then show ?case using Suc by simp
qed simp

section \<open>Alignment\<close>

lemma uint_and_not_mask: "uint (x AND NOT (mask k) :: u32w) = uint x div 2 ^ k * 2 ^ k"
proof -
  have "uint (x AND NOT (mask k)) = uint x AND NOT (mask k)"
    by (rule bit_eqI) (auto simp: bit_simps bit_uint_iff dest: bit_imp_le_length)
  also have "\<dots> = push_bit k (drop_bit k (uint x))"
    by (rule bit_eqI) (auto simp: bit_simps not_less)
  finally show ?thesis by (simp add: push_bit_eq_mult drop_bit_eq_div)
qed

end
