(* ===== verification/Rect.thy ===== *)
theory Rect
  imports Boot_Prelude
begin

text \<open>
  The rectangle library of the boot screen, \<^verbatim>\<open>board/samsung/x4412/rect.c\<close>: emptiness, equality,
  intersection, union, bounding boxes of point sets, Cohen-Sutherland line clipping and
  alignment.  The definitions follow the C functions statement by statement on wrapped 32-bit
  arithmetic; the lemmas relate them to sets of grid points.
\<close>

section \<open>Data\<close>

text \<open>\<^verbatim>\<open>struct point_t\<close>, \<^verbatim>\<open>struct rect_t\<close> and \<^verbatim>\<open>enum align_t\<close> of \<^verbatim>\<open>rect.h\<close>.\<close>

record point_t =
  pt_x :: int
  pt_y :: int

record rect_t =
  rx :: int
  ry :: int
  rw :: int
  rh :: int

datatype align_t =
    ALIGN_LEFT | ALIGN_TOP | ALIGN_RIGHT | ALIGN_BOTTOM
  | ALIGN_LEFT_TOP | ALIGN_RIGHT_TOP | ALIGN_LEFT_BOTTOM | ALIGN_RIGHT_BOTTOM
  | ALIGN_LEFT_CENTER | ALIGN_TOP_CENTER | ALIGN_RIGHT_CENTER | ALIGN_BOTTOM_CENTER
  | ALIGN_CENTER_HORIZONTAL | ALIGN_CENTER_VERTICAL | ALIGN_CENTER

section \<open>Operations\<close>

definition rect_is_empty :: "rect_t \<Rightarrow> bool" where
  "rect_is_empty r = (rw r \<le> 0 \<or> rh r \<le> 0)"

definition rect_is_equal :: "rect_t \<Rightarrow> rect_t \<Rightarrow> bool" where
  "rect_is_equal a b = (rx a = rx b \<and> ry a = ry b \<and> rw a = rw b \<and> rh a = rh b)"

definition rect_has_intersection :: "rect_t \<Rightarrow> rect_t \<Rightarrow> bool" where
  "rect_has_intersection a b =
     (let a_min = rx a;
          a_max = s32 (a_min + rw a);
          b_min = rx b;
          b_max = s32 (b_min + rw b);
          a_min = (if b_min > a_min then b_min else a_min);
          a_max = (if b_max < a_max then b_max else a_max)
      in if a_max \<le> a_min then False
         else
           (let a_min = ry a;
                a_max = s32 (a_min + rh a);
                b_min = ry b;
                b_max = s32 (b_min + rh b);
                a_min = (if b_min > a_min then b_min else a_min);
                a_max = (if b_max < a_max then b_max else a_max)
            in if a_max \<le> a_min then False else True))"

text \<open>
  \<^verbatim>\<open>rect_intersect(a, b, r)\<close> writes its result through \<open>r\<close>, and its callers pass the same
  rectangle as \<open>b\<close> and \<open>r\<close> (\<^verbatim>\<open>map_software_scale\<close>, \<^verbatim>\<open>map_software_rotate\<close>).  The first
  definition is the C function on a store of rectangles indexed by pointers, each assignment in
  its place; the second is the value it computes.
\<close>

definition rect_intersect_at ::
  "('p \<Rightarrow> rect_t) \<Rightarrow> 'p \<Rightarrow> 'p \<Rightarrow> 'p \<Rightarrow> bool \<times> ('p \<Rightarrow> rect_t)" where
  "rect_intersect_at m a b r =
     (let a_min = rx (m a);
          a_max = s32 (a_min + rw (m a));
          b_min = rx (m b);
          b_max = s32 (b_min + rw (m b));
          a_min = (if b_min > a_min then b_min else a_min);
          m = m(r := (m r)\<lparr>rx := a_min\<rparr>);
          a_max = (if b_max < a_max then b_max else a_max);
          m = m(r := (m r)\<lparr>rw := s32 (a_max - a_min)\<rparr>);
          a_min = ry (m a);
          a_max = s32 (a_min + rh (m a));
          b_min = ry (m b);
          b_max = s32 (b_min + rh (m b));
          a_min = (if b_min > a_min then b_min else a_min);
          m = m(r := (m r)\<lparr>ry := a_min\<rparr>);
          a_max = (if b_max < a_max then b_max else a_max);
          m = m(r := (m r)\<lparr>rh := s32 (a_max - a_min)\<rparr>)
      in (\<not> rect_is_empty (m r), m))"

definition rect_intersect :: "rect_t \<Rightarrow> rect_t \<Rightarrow> bool \<times> rect_t" where
  "rect_intersect a b =
     (let xmin = (if rx b > rx a then rx b else rx a);
          xmax = (if s32 (rx b + rw b) < s32 (rx a + rw a)
                  then s32 (rx b + rw b) else s32 (rx a + rw a));
          ymin = (if ry b > ry a then ry b else ry a);
          ymax = (if s32 (ry b + rh b) < s32 (ry a + rh a)
                  then s32 (ry b + rh b) else s32 (ry a + rh a));
          r = \<lparr>rx = xmin, ry = ymin, rw = s32 (xmax - xmin), rh = s32 (ymax - ymin)\<rparr>
      in (\<not> rect_is_empty r, r))"

definition rect_union :: "rect_t \<Rightarrow> rect_t \<Rightarrow> rect_t" where
  "rect_union a b =
     (let xmin = (if rx b < rx a then rx b else rx a);
          xmax = (if s32 (rx b + rw b) > s32 (rx a + rw a)
                  then s32 (rx b + rw b) else s32 (rx a + rw a));
          ymin = (if ry b < ry a then ry b else ry a);
          ymax = (if s32 (ry b + rh b) > s32 (ry a + rh a)
                  then s32 (ry b + rh b) else s32 (ry a + rh a))
      in \<lparr>rx = xmin, ry = ymin, rw = s32 (xmax - xmin), rh = s32 (ymax - ymin)\<rparr>)"

text \<open>
  \<^verbatim>\<open>rect_enclose_points\<close>.  The local variables \<open>minx, miny, maxx, maxy\<close> are a record; the two
  loops (with and without a clipping rectangle) share the update of the extremes.
\<close>

record extent =
  minx :: int
  miny :: int
  maxx :: int
  maxy :: int

definition extend_box :: "extent \<Rightarrow> point_t \<Rightarrow> extent" where
  "extend_box e p =
     (let e = (if pt_x p < minx e then e\<lparr>minx := pt_x p\<rparr>
               else if pt_x p > maxx e then e\<lparr>maxx := pt_x p\<rparr> else e)
      in if pt_y p < miny e then e\<lparr>miny := pt_y p\<rparr>
         else if pt_y p > maxy e then e\<lparr>maxy := pt_y p\<rparr> else e)"

definition point_box :: "point_t \<Rightarrow> extent" where
  "point_box p = \<lparr>minx = pt_x p, miny = pt_y p, maxx = pt_x p, maxy = pt_y p\<rparr>"

definition outside_clip :: "rect_t \<Rightarrow> point_t \<Rightarrow> bool" where
  "outside_clip c p =
     (let clip_minx = rx c; clip_miny = ry c;
          clip_maxx = s32 (s32 (rx c + rw c) - 1);
          clip_maxy = s32 (s32 (ry c + rh c) - 1)
      in pt_x p < clip_minx \<or> pt_x p > clip_maxx \<or> pt_y p < clip_miny \<or> pt_y p > clip_maxy)"

fun enclose_clipped :: "rect_t \<Rightarrow> extent option \<Rightarrow> point_t list \<Rightarrow> extent option" where
  "enclose_clipped c added [] = added"
| "enclose_clipped c added (p # ps) =
     (if outside_clip c p then enclose_clipped c added ps
      else (case added of
              None \<Rightarrow> enclose_clipped c (Some (point_box p)) ps
            | Some e \<Rightarrow> enclose_clipped c (Some (extend_box e p)) ps))"

fun enclose_rest :: "extent \<Rightarrow> point_t list \<Rightarrow> extent" where
  "enclose_rest e [] = e"
| "enclose_rest e (p # ps) = enclose_rest (extend_box e p) ps"

definition box_rect :: "extent \<Rightarrow> rect_t" where
  "box_rect e = \<lparr>rx = minx e, ry = miny e,
                 rw = s32 (s32 (maxx e - minx e) + 1), rh = s32 (s32 (maxy e - miny e) + 1)\<rparr>"

text \<open>
  The array \<open>p\<close> of \<open>cnt\<close> points is the list \<open>p\<close>; \<^term>\<open>None\<close> is the result \<open>FALSE\<close>, which leaves
  the output rectangle unwritten, and \<^term>\<open>Some r\<close> is \<open>TRUE\<close> with the rectangle written.
\<close>

definition rect_enclose_points :: "point_t list \<Rightarrow> rect_t option \<Rightarrow> rect_t option" where
  "rect_enclose_points p clip =
     (if int (length p) < 1 then None
      else (case clip of
              Some c \<Rightarrow> map_option box_rect (enclose_clipped c None p)
            | None \<Rightarrow> Some (box_rect (enclose_rest (point_box (hd p)) (tl p)))))"

section \<open>Line clipping\<close>

text \<open>
  The outcode bits of the anonymous enum and \<^verbatim>\<open>compute_outcode\<close>.  The code compares with 0, not
  with the rectangle's origin.
\<close>

record outcode =
  CODE_BOTTOM :: bool
  CODE_TOP :: bool
  CODE_LEFT :: bool
  CODE_RIGHT :: bool

definition no_code :: outcode where
  "no_code = \<lparr>CODE_BOTTOM = False, CODE_TOP = False, CODE_LEFT = False, CODE_RIGHT = False\<rparr>"

definition compute_outcode :: "rect_t \<Rightarrow> int \<Rightarrow> int \<Rightarrow> outcode" where
  "compute_outcode r x y =
     (let code = no_code;
          code = (if y < 0 then code\<lparr>CODE_TOP := True\<rparr>
                  else if y \<ge> s32 (ry r + rh r) then code\<lparr>CODE_BOTTOM := True\<rparr> else code)
      in if x < 0 then code\<lparr>CODE_LEFT := True\<rparr>
         else if x \<ge> s32 (rx r + rw r) then code\<lparr>CODE_RIGHT := True\<rparr> else code)"

definition code_and :: "outcode \<Rightarrow> outcode \<Rightarrow> bool" where
  "code_and c d = (CODE_BOTTOM c \<and> CODE_BOTTOM d \<or> CODE_TOP c \<and> CODE_TOP d \<or>
                   CODE_LEFT c \<and> CODE_LEFT d \<or> CODE_RIGHT c \<and> CODE_RIGHT d)"

text \<open>
  The point on the segment that replaces an endpoint with outcode \<open>c\<close>; \<open>(x0, y0)\<close> are the values
  \<open>x\<close> and \<open>y\<close> have when no bit is set.  A C division by zero traps, so it has no value.
\<close>

definition interpolate :: "int \<Rightarrow> int \<Rightarrow> int \<Rightarrow> int \<Rightarrow> int \<Rightarrow> int option" where
  "interpolate u1 v1 u2 v2 v =
     (if s32 (v2 - v1) = 0 then None
      else Some (s32 (u1 + s32 (s32 (s32 (u2 - u1) * s32 (v - v1)) sdiv s32 (v2 - v1)))))"

definition clip_point ::
  "rect_t \<Rightarrow> outcode \<Rightarrow> int \<Rightarrow> int \<Rightarrow> int \<Rightarrow> int \<Rightarrow> int \<times> int \<Rightarrow> (int \<times> int) option" where
  "clip_point r c x1 y1 x2 y2 xy =
     (let rectx1 = rx r; recty1 = ry r;
          rectx2 = s32 (s32 (rx r + rw r) - 1); recty2 = s32 (s32 (ry r + rh r) - 1)
      in if CODE_TOP c then map_option (\<lambda>x. (x, recty1)) (interpolate x1 y1 x2 y2 recty1)
         else if CODE_BOTTOM c then map_option (\<lambda>x. (x, recty2)) (interpolate x1 y1 x2 y2 recty2)
         else if CODE_LEFT c then map_option (\<lambda>y. (rectx1, y)) (interpolate y1 x1 y2 x2 rectx1)
         else if CODE_RIGHT c then map_option (\<lambda>y. (rectx2, y)) (interpolate y1 x1 y2 x2 rectx2)
         else Some xy)"

datatype clip_result =
    Rejected
  | Clipped int int int int
  | Trapped

text \<open>
  The \<^verbatim>\<open>while (outcode1 || outcode2)\<close> loop; its iterations are bounded by a fuel argument, and
  \<^term>\<open>None\<close> is a run that has not finished within it.
\<close>

fun clip_loop ::
  "nat \<Rightarrow> rect_t \<Rightarrow> int \<Rightarrow> int \<Rightarrow> int \<Rightarrow> int \<Rightarrow> int \<times> int \<Rightarrow> outcode \<Rightarrow> outcode \<Rightarrow> clip_result option"
where
  "clip_loop 0 r x1 y1 x2 y2 xy c1 c2 = None"
| "clip_loop (Suc fuel) r x1 y1 x2 y2 xy c1 c2 =
     (if c1 = no_code \<and> c2 = no_code then Some (Clipped x1 y1 x2 y2)
      else if code_and c1 c2 then Some Rejected
      else if c1 \<noteq> no_code then
        (case clip_point r c1 x1 y1 x2 y2 xy of
           None \<Rightarrow> Some Trapped
         | Some (x, y) \<Rightarrow> clip_loop fuel r x y x2 y2 (x, y) (compute_outcode r x y) c2)
      else
        (case clip_point r c2 x1 y1 x2 y2 xy of
           None \<Rightarrow> Some Trapped
         | Some (x, y) \<Rightarrow> clip_loop fuel r x1 y1 x y (x, y) c1 (compute_outcode r x y)))"

definition clamp_to :: "int \<Rightarrow> int \<Rightarrow> int \<Rightarrow> int" where
  "clamp_to lo hi v = (if v < lo then lo else if v > hi then hi else v)"

definition rect_intersect_with_line ::
  "nat \<Rightarrow> rect_t \<Rightarrow> int \<Rightarrow> int \<Rightarrow> int \<Rightarrow> int \<Rightarrow> clip_result option" where
  "rect_intersect_with_line fuel r x1 y1 x2 y2 =
     (let rectx1 = rx r; recty1 = ry r;
          rectx2 = s32 (s32 (rx r + rw r) - 1); recty2 = s32 (s32 (ry r + rh r) - 1)
      in if x1 \<ge> rectx1 \<and> x1 \<le> rectx2 \<and> x2 \<ge> rectx1 \<and> x2 \<le> rectx2 \<and>
            y1 \<ge> recty1 \<and> y1 \<le> recty2 \<and> y2 \<ge> recty1 \<and> y2 \<le> recty2
         then Some (Clipped x1 y1 x2 y2)
         else if (x1 < rectx1 \<and> x2 < rectx1) \<or> (x1 > rectx2 \<and> x2 > rectx2) \<or>
                 (y1 < recty1 \<and> y2 < recty1) \<or> (y1 > recty2 \<and> y2 > recty2)
         then Some Rejected
         else if y1 = y2
         then Some (Clipped (clamp_to rectx1 rectx2 x1) y1 (clamp_to rectx1 rectx2 x2) y2)
         else if x1 = x2
         then Some (Clipped x1 (clamp_to recty1 recty2 y1) x2 (clamp_to recty1 recty2 y2))
         else clip_loop fuel r x1 y1 x2 y2 (0, 0) (compute_outcode r x1 y1) (compute_outcode r x2 y2))"

section \<open>Alignment\<close>

text \<open>
  \<^verbatim>\<open>rect_align\<close>; the \<open>default\<close> branch of its switch and the null-pointer test have no counterpart
  because \<^typ>\<open>align_t\<close> has no further values and the rectangles are values.  \<open>v >> 1\<close> on a signed
  integer is the arithmetic shift.
\<close>

definition rect_align :: "rect_t \<Rightarrow> rect_t \<Rightarrow> align_t \<Rightarrow> rect_t" where
  "rect_align a b align =
     (let dx1 = s32 (rx a - rx b);
          dy1 = s32 (ry a - ry b);
          dx2 = s32 (s32 (rx a + rw a) - s32 (rx b + rw b));
          dy2 = s32 (s32 (ry a + rh a) - s32 (ry b + rh b));
          dw = s32 (rw a - rw b);
          dh = s32 (rh a - rh b);
          left = s32 (rx b + dx1);
          top = s32 (ry b + dy1);
          right = s32 (rx b + dx2);
          bottom = s32 (ry b + dy2);
          xcenter = s32 (left + drop_bit 1 dw);
          ycenter = s32 (top + drop_bit 1 dh)
      in (case align of
            ALIGN_LEFT \<Rightarrow> b\<lparr>rx := left\<rparr>
          | ALIGN_TOP \<Rightarrow> b\<lparr>ry := top\<rparr>
          | ALIGN_RIGHT \<Rightarrow> b\<lparr>rx := right\<rparr>
          | ALIGN_BOTTOM \<Rightarrow> b\<lparr>ry := bottom\<rparr>
          | ALIGN_LEFT_TOP \<Rightarrow> b\<lparr>rx := left, ry := top\<rparr>
          | ALIGN_RIGHT_TOP \<Rightarrow> b\<lparr>rx := right, ry := top\<rparr>
          | ALIGN_LEFT_BOTTOM \<Rightarrow> b\<lparr>rx := left, ry := bottom\<rparr>
          | ALIGN_RIGHT_BOTTOM \<Rightarrow> b\<lparr>rx := right, ry := bottom\<rparr>
          | ALIGN_LEFT_CENTER \<Rightarrow> b\<lparr>rx := left, ry := ycenter\<rparr>
          | ALIGN_TOP_CENTER \<Rightarrow> b\<lparr>rx := xcenter, ry := top\<rparr>
          | ALIGN_RIGHT_CENTER \<Rightarrow> b\<lparr>rx := right, ry := ycenter\<rparr>
          | ALIGN_BOTTOM_CENTER \<Rightarrow> b\<lparr>rx := xcenter, ry := bottom\<rparr>
          | ALIGN_CENTER_HORIZONTAL \<Rightarrow> b\<lparr>rx := xcenter\<rparr>
          | ALIGN_CENTER_VERTICAL \<Rightarrow> b\<lparr>ry := ycenter\<rparr>
          | ALIGN_CENTER \<Rightarrow> b\<lparr>rx := xcenter, ry := ycenter\<rparr>))"

section \<open>Rectangles as sets of grid points\<close>

definition rect_points :: "rect_t \<Rightarrow> (int \<times> int) set" where
  "rect_points r = {(px, py). rx r \<le> px \<and> px < rx r + rw r \<and> ry r \<le> py \<and> py < ry r + rh r}"

text \<open>
  The rectangles on which no 32-bit operation of this file overflows: all four edges within
  a quarter of the integer range.  A screen has a few thousand pixels per side.
\<close>

definition edge_ok :: "int \<Rightarrow> bool" where
  "edge_ok v \<longleftrightarrow> - 1073741823 \<le> v \<and> v \<le> 1073741823"

definition rect_ok :: "rect_t \<Rightarrow> bool" where
  "rect_ok r \<longleftrightarrow> edge_ok (rx r) \<and> edge_ok (rx r + rw r) \<and> edge_ok (ry r) \<and> edge_ok (ry r + rh r)"

lemma edge_s32 [wrap_simps]: "edge_ok v \<Longrightarrow> s32 v = v"
  by (rule s32_id) (simp add: edge_ok_def in_s32_def)

lemma edge_diff_s32 [wrap_simps]: "edge_ok u \<Longrightarrow> edge_ok v \<Longrightarrow> s32 (u - v) = u - v"
  by (rule s32_id) (simp add: edge_ok_def in_s32_def)

lemma edge_pred_s32 [wrap_simps]: "edge_ok v \<Longrightarrow> s32 (v - 1) = v - 1"
  by (rule s32_id) (simp add: edge_ok_def in_s32_def)

lemma edge_ok_if [simp]: "edge_ok u \<Longrightarrow> edge_ok v \<Longrightarrow> edge_ok (if c then u else v)"
  by simp

lemma rect_okD [simp]:
  assumes "rect_ok r"
  shows "edge_ok (rx r)" "edge_ok (rx r + rw r)" "edge_ok (ry r)" "edge_ok (ry r + rh r)"
  using assms by (simp_all add: rect_ok_def)

lemma rect_intersect_value:
  assumes "rect_ok a" and "rect_ok b"
  shows "rect_intersect a b =
    (let r = \<lparr>rx = max (rx a) (rx b), ry = max (ry a) (ry b),
              rw = min (rx a + rw a) (rx b + rw b) - max (rx a) (rx b),
              rh = min (ry a + rh a) (ry b + rh b) - max (ry a) (ry b)\<rparr>
     in (\<not> rect_is_empty r, r))"
  using assms by (simp add: rect_intersect_def Let_def wrap_simps max_def min_def)

lemma rect_points_intersect:
  assumes "rect_ok a" and "rect_ok b"
  shows "rect_points (snd (rect_intersect a b)) = rect_points a \<inter> rect_points b"
  using assms by (auto simp: rect_intersect_value rect_points_def Let_def)

lemma rect_points_empty: "rect_points r = {} \<longleftrightarrow> rect_is_empty r"
proof
  assume e: "rect_points r = {}"
  show "rect_is_empty r"
  proof (rule ccontr)
    assume "\<not> rect_is_empty r"
    then have "(rx r, ry r) \<in> rect_points r" by (simp add: rect_points_def rect_is_empty_def)
    with e show False by simp
  qed
qed (auto simp: rect_points_def rect_is_empty_def)

lemma rect_intersect_flag: "fst (rect_intersect a b) \<longleftrightarrow> \<not> rect_is_empty (snd (rect_intersect a b))"
  by (simp add: rect_intersect_def Let_def)

lemma rect_intersect_ok:
  assumes "rect_ok a" and "rect_ok b"
  shows "rect_ok (snd (rect_intersect a b))"
  using assms by (auto simp: rect_intersect_value Let_def rect_ok_def edge_ok_def)

lemma rect_has_intersection_value:
  assumes "rect_ok a" and "rect_ok b"
  shows "rect_has_intersection a b \<longleftrightarrow>
    max (rx a) (rx b) < min (rx a + rw a) (rx b + rw b) \<and>
    max (ry a) (ry b) < min (ry a + rh a) (ry b + rh b)"
  using assms by (auto simp: rect_has_intersection_def Let_def wrap_simps)

text \<open>C21: on screen-sized rectangles \<open>rect_intersect\<close> computes exactly the common grid points,
  its flag says whether there are any, and \<open>rect_has_intersection\<close> gives the same flag.\<close>

theorem rect_intersect_exact:
  assumes "rect_ok a" and "rect_ok b"
  shows "rect_points (snd (rect_intersect a b)) = rect_points a \<inter> rect_points b \<and>
         (fst (rect_intersect a b) \<longleftrightarrow> rect_points a \<inter> rect_points b \<noteq> {}) \<and>
         rect_has_intersection a b = fst (rect_intersect a b)"
proof (intro conjI)
  show p: "rect_points (snd (rect_intersect a b)) = rect_points a \<inter> rect_points b"
    using assms by (rule rect_points_intersect)
  show "fst (rect_intersect a b) \<longleftrightarrow> rect_points a \<inter> rect_points b \<noteq> {}"
    by (simp add: rect_intersect_flag flip: p rect_points_empty)
  show "rect_has_intersection a b = fst (rect_intersect a b)"
    using assms
    by (auto simp: rect_has_intersection_value rect_intersect_value rect_is_empty_def Let_def)
qed

text \<open>The result of the store version of \<open>rect_intersect\<close> does not depend on whether the
  output rectangle is one of the inputs: it is the value computed from the rectangles before the
  call, and no other rectangle changes.\<close>

theorem rect_intersect_alias:
  "rect_intersect_at m a b r =
     (fst (rect_intersect (m a) (m b)), m(r := snd (rect_intersect (m a) (m b))))"
  by (simp add: rect_intersect_at_def rect_intersect_def rect_is_empty_def Let_def fun_eq_iff)

lemma rect_intersect_exact_witness:
  "rect_points (snd (rect_intersect \<lparr>rx = 0, ry = 0, rw = 4, rh = 4\<rparr> \<lparr>rx = 2, ry = 1, rw = 9, rh = 2\<rparr>)) =
     rect_points \<lparr>rx = 0, ry = 0, rw = 4, rh = 4\<rparr> \<inter> rect_points \<lparr>rx = 2, ry = 1, rw = 9, rh = 2\<rparr> \<and>
   snd (rect_intersect \<lparr>rx = 0, ry = 0, rw = 4, rh = 4\<rparr> \<lparr>rx = 2, ry = 1, rw = 9, rh = 2\<rparr>) =
     \<lparr>rx = 2, ry = 1, rw = 2, rh = 2\<rparr>"
proof -
  have "rect_ok \<lparr>rx = 0, ry = 0, rw = 4, rh = 4\<rparr>" "rect_ok \<lparr>rx = 2, ry = 1, rw = 9, rh = 2\<rparr>"
    by (simp_all add: rect_ok_def edge_ok_def)
  from rect_intersect_exact [OF this] show ?thesis
    by (simp add: rect_intersect_def Let_def s32_def)
qed

lemma rect_union_value:
  assumes "rect_ok a" and "rect_ok b"
  shows "rect_union a b =
    \<lparr>rx = min (rx a) (rx b), ry = min (ry a) (ry b),
     rw = max (rx a + rw a) (rx b + rw b) - min (rx a) (rx b),
     rh = max (ry a + rh a) (ry b + rh b) - min (ry a) (ry b)\<rparr>"
  using assms by (simp add: rect_union_def Let_def wrap_simps max_def min_def)

lemma rect_points_subset:
  assumes "\<not> rect_is_empty a" and "rect_points a \<subseteq> rect_points c"
  shows "rx c \<le> rx a \<and> rx a + rw a \<le> rx c + rw c \<and> ry c \<le> ry a \<and> ry a + rh a \<le> ry c + rh c"
proof -
  have "(rx a, ry a) \<in> rect_points a" "(rx a + rw a - 1, ry a + rh a - 1) \<in> rect_points a"
    using assms(1) by (simp_all add: rect_points_def rect_is_empty_def)
  with assms(2) have "(rx a, ry a) \<in> rect_points c" "(rx a + rw a - 1, ry a + rh a - 1) \<in> rect_points c"
    by blast+
  then show ?thesis by (simp add: rect_points_def)
qed

text \<open>The union of two non-empty rectangles is the least rectangle that holds both.\<close>

theorem rect_union_least:
  assumes "rect_ok a" and "rect_ok b" and "\<not> rect_is_empty a" and "\<not> rect_is_empty b"
  shows "rect_points a \<union> rect_points b \<subseteq> rect_points (rect_union a b) \<and>
         (\<forall>c. rect_points a \<union> rect_points b \<subseteq> rect_points c \<longrightarrow>
              rect_points (rect_union a b) \<subseteq> rect_points c)"
proof (intro conjI allI impI)
  show "rect_points a \<union> rect_points b \<subseteq> rect_points (rect_union a b)"
    using assms by (auto simp: rect_union_value rect_points_def)
next
  fix c assume c: "rect_points a \<union> rect_points b \<subseteq> rect_points c"
  with rect_points_subset [OF assms(3), of c] rect_points_subset [OF assms(4), of c]
  show "rect_points (rect_union a b) \<subseteq> rect_points c"
    using assms(1,2) by (auto simp: rect_union_value rect_points_def)
qed

lemma rect_union_least_witness:
  "rect_points (rect_union \<lparr>rx = 0, ry = 0, rw = 1, rh = 1\<rparr> \<lparr>rx = 3, ry = 4, rw = 2, rh = 2\<rparr>) \<subseteq>
     rect_points \<lparr>rx = -1, ry = -1, rw = 9, rh = 9\<rparr>"
proof -
  let ?a = "\<lparr>rx = 0, ry = 0, rw = 1, rh = 1\<rparr>" and ?b = "\<lparr>rx = 3, ry = 4, rw = 2, rh = 2\<rparr>"
  have h: "rect_ok ?a" "rect_ok ?b" "\<not> rect_is_empty ?a" "\<not> rect_is_empty ?b"
    by (simp_all add: rect_ok_def edge_ok_def rect_is_empty_def)
  have "rect_points ?a \<union> rect_points ?b \<subseteq> rect_points \<lparr>rx = -1, ry = -1, rw = 9, rh = 9\<rparr>"
    by (auto simp: rect_points_def)
  with rect_union_least [OF h] show ?thesis by blast
qed

section \<open>Bounding boxes\<close>

definition box_of :: "extent \<Rightarrow> point_t list \<Rightarrow> bool" where
  "box_of e ps \<longleftrightarrow> ps \<noteq> [] \<and> minx e = Min (pt_x ` set ps) \<and> maxx e = Max (pt_x ` set ps) \<and>
                  miny e = Min (pt_y ` set ps) \<and> maxy e = Max (pt_y ` set ps)"

lemma box_of_point: "box_of (point_box p) [p]"
  by (simp add: box_of_def point_box_def)

lemma Min_le_Max: "finite A \<Longrightarrow> A \<noteq> {} \<Longrightarrow> Min A \<le> Max A"
  by (meson Max_in Min_le)

lemma extend_box_x:
  "minx e \<le> maxx e \<Longrightarrow> minx (extend_box e p) = min (minx e) (pt_x p) \<and>
                     maxx (extend_box e p) = max (maxx e) (pt_x p)"
  by (simp add: extend_box_def Let_def)

lemma extend_box_y:
  "miny e \<le> maxy e \<Longrightarrow> miny (extend_box e p) = min (miny e) (pt_y p) \<and>
                     maxy (extend_box e p) = max (maxy e) (pt_y p)"
  by (simp add: extend_box_def Let_def)

lemma extend_box_of:
  assumes "box_of e ps"
  shows "box_of (extend_box e p) (ps @ [p])"
proof -
  have "minx e \<le> maxx e" "miny e \<le> maxy e"
    using assms by (simp_all add: box_of_def Min_le_Max)
  with assms show ?thesis
    by (simp add: box_of_def extend_box_x extend_box_y min.commute max.commute)
qed

lemma enclose_rest_box: "box_of e qs \<Longrightarrow> box_of (enclose_rest e ps) (qs @ ps)"
proof (induction ps arbitrary: e qs)
  case (Cons p ps)
  from Cons.IH [OF extend_box_of [OF Cons.prems, of p]] show ?case by simp
qed simp

definition box_opt :: "extent option \<Rightarrow> point_t list \<Rightarrow> bool" where
  "box_opt eo ps \<longleftrightarrow> (case eo of None \<Rightarrow> ps = [] | Some e \<Rightarrow> box_of e ps)"

lemma enclose_clipped_box:
  "box_opt eo qs \<Longrightarrow> box_opt (enclose_clipped c eo ps) (qs @ filter (\<lambda>p. \<not> outside_clip c p) ps)"
proof (induction ps arbitrary: eo qs)
  case (Cons p ps)
  show ?case
  proof (cases "outside_clip c p")
    case True
    then show ?thesis using Cons by simp
  next
    case False
    show ?thesis
    proof (cases eo)
      case None
      then have "qs = []" using Cons.prems by (simp add: box_opt_def)
      then show ?thesis
        using False None Cons.IH [of "Some (point_box p)" "[p]"] by (simp add: box_opt_def box_of_point)
    next
      case (Some e)
      then have "box_opt (Some (extend_box e p)) (qs @ [p])"
        using Cons.prems by (simp add: box_opt_def extend_box_of)
      from Cons.IH [OF this] show ?thesis using False Some by simp
    qed
  qed
qed simp

lemma outside_clip_points:
  "rect_ok c \<Longrightarrow> outside_clip c p \<longleftrightarrow> (pt_x p, pt_y p) \<notin> rect_points c"
  by (auto simp: outside_clip_def rect_points_def Let_def wrap_simps)

definition points_seen :: "rect_t option \<Rightarrow> point_t list \<Rightarrow> point_t list" where
  "points_seen clip ps =
     (case clip of None \<Rightarrow> ps | Some c \<Rightarrow> filter (\<lambda>p. (pt_x p, pt_y p) \<in> rect_points c) ps)"

lemma rect_enclose_points_box:
  assumes "\<forall>c. clip = Some c \<longrightarrow> rect_ok c"
  shows "\<exists>eo. rect_enclose_points ps clip = map_option box_rect eo \<and> box_opt eo (points_seen clip ps)"
proof (cases clip)
  case None
  show ?thesis
  proof (cases ps)
    case Nil
    with None show ?thesis
      by (intro exI [of _ None]) (simp add: rect_enclose_points_def box_opt_def points_seen_def)
  next
    case (Cons p qs)
    with None show ?thesis
      using enclose_rest_box [OF box_of_point, of p qs]
      by (intro exI [of _ "Some (enclose_rest (point_box p) qs)"])
        (simp add: rect_enclose_points_def box_opt_def points_seen_def)
  qed
next
  case (Some c)
  then have "filter (\<lambda>p. \<not> outside_clip c p) ps = points_seen clip ps"
    using assms by (simp add: points_seen_def outside_clip_points)
  with Some show ?thesis
    using enclose_clipped_box [of None "[]" c ps]
    by (intro exI [of _ "enclose_clipped c None ps"])
      (auto simp: rect_enclose_points_def box_opt_def)
qed

lemma box_rect_edges:
  assumes "box_of e ps" and "\<forall>p \<in> set ps. edge_ok (pt_x p) \<and> edge_ok (pt_y p)"
  shows "box_rect e = \<lparr>rx = Min (pt_x ` set ps), ry = Min (pt_y ` set ps),
           rw = Max (pt_x ` set ps) - Min (pt_x ` set ps) + 1,
           rh = Max (pt_y ` set ps) - Min (pt_y ` set ps) + 1\<rparr>"
proof -
  have ne: "pt_x ` set ps \<noteq> {}" "pt_y ` set ps \<noteq> {}"
    using assms(1) by (auto simp: box_of_def)
  have ok: "\<And>v. v \<in> pt_x ` set ps \<Longrightarrow> edge_ok v" "\<And>v. v \<in> pt_y ` set ps \<Longrightarrow> edge_ok v"
    using assms(2) by auto
  have "edge_ok (Min (pt_x ` set ps))" "edge_ok (Max (pt_x ` set ps))"
    "edge_ok (Min (pt_y ` set ps))" "edge_ok (Max (pt_y ` set ps))"
    using ne by (simp_all add: ok Min_in Max_in del: image_is_empty)
  then have "edge_ok (minx e)" "edge_ok (maxx e)" "edge_ok (miny e)" "edge_ok (maxy e)"
    using assms(1) by (simp_all add: box_of_def)
  moreover have "\<And>u v. edge_ok u \<Longrightarrow> edge_ok v \<Longrightarrow> s32 (s32 (u - v) + 1) = u - v + 1"
    by (simp add: edge_diff_s32) (rule s32_id, simp add: edge_ok_def in_s32_def)
  ultimately show ?thesis using assms(1) by (simp add: box_rect_def box_of_def)
qed

text \<open>\<open>rect_enclose_points\<close> fails exactly when no point is inside the clipping rectangle, and
  otherwise its left, right, top and bottom edges are the extreme coordinates of the points
  inside it.\<close>

theorem rect_enclose_points_exact:
  assumes "\<forall>c. clip = Some c \<longrightarrow> rect_ok c"
    and "\<forall>p \<in> set ps. edge_ok (pt_x p) \<and> edge_ok (pt_y p)"
    and "qs = points_seen clip ps"
  shows "rect_enclose_points ps clip =
    (if qs = [] then None
     else Some \<lparr>rx = Min (pt_x ` set qs), ry = Min (pt_y ` set qs),
                rw = Max (pt_x ` set qs) - Min (pt_x ` set qs) + 1,
                rh = Max (pt_y ` set qs) - Min (pt_y ` set qs) + 1\<rparr>)"
proof -
  obtain eo where eo: "rect_enclose_points ps clip = map_option box_rect eo" "box_opt eo qs"
    using rect_enclose_points_box [OF assms(1), of ps] assms(3) by blast
  have "set qs \<subseteq> set ps"
    using assms(3) by (auto simp: points_seen_def split: option.splits)
  with assms(2) have "\<forall>p \<in> set qs. edge_ok (pt_x p) \<and> edge_ok (pt_y p)" by blast
  with eo show ?thesis
    by (cases eo) (auto simp: box_opt_def box_rect_edges, simp add: box_of_def)
qed

lemma rect_enclose_points_exact_witness:
  "rect_enclose_points [\<lparr>pt_x = 5, pt_y = 1\<rparr>, \<lparr>pt_x = 99, pt_y = 3\<rparr>, \<lparr>pt_x = 2, pt_y = 7\<rparr>]
     (Some \<lparr>rx = 0, ry = 0, rw = 10, rh = 10\<rparr>) = Some \<lparr>rx = 2, ry = 1, rw = 4, rh = 7\<rparr>"
  using rect_enclose_points_exact
    [of "Some \<lparr>rx = 0, ry = 0, rw = 10, rh = 10\<rparr>"
        "[\<lparr>pt_x = 5, pt_y = 1\<rparr>, \<lparr>pt_x = 99, pt_y = 3\<rparr>, \<lparr>pt_x = 2, pt_y = 7\<rparr>]"
        "[\<lparr>pt_x = 5, pt_y = 1\<rparr>, \<lparr>pt_x = 2, pt_y = 7\<rparr>]"]
  by (simp add: rect_ok_def edge_ok_def points_seen_def rect_points_def)

section \<open>Termination and correctness of line clipping\<close>

definition between :: "int \<Rightarrow> int \<Rightarrow> int \<Rightarrow> bool" where
  "between u v w \<longleftrightarrow> (u \<le> w \<and> w \<le> v) \<or> (v \<le> w \<and> w \<le> u)"

lemma between_nearer:
  assumes "between u v w"
  shows "\<bar>w - v\<bar> \<le> \<bar>u - v\<bar>" "\<bar>w - u\<bar> \<le> \<bar>v - u\<bar>"
  using assms unfolding between_def by linarith+

lemma sdiv_fraction:
  fixes k n d :: int
  assumes "d \<noteq> 0" and "between 0 d n"
  shows "between 0 k ((k * n) sdiv d)"
proof -
  have "\<bar>n\<bar> \<le> \<bar>d\<bar>" using between_nearer(2) [OF assms(2)] by simp
  then have "\<bar>k * n\<bar> div \<bar>d\<bar> \<le> \<bar>k\<bar> * \<bar>d\<bar> div \<bar>d\<bar>"
    using assms(1) by (intro zdiv_mono1) (auto simp: abs_mult mult_left_mono)
  then have le: "\<bar>k * n\<bar> div \<bar>d\<bar> \<le> \<bar>k\<bar>" using assms(1) by simp
  have ge: "0 \<le> \<bar>k * n\<bar> div \<bar>d\<bar>" using assms(1) by (simp add: pos_imp_zdiv_nonneg_iff)
  have "sgn n * sgn d = (if n = 0 then 0 else 1)"
    using assms unfolding between_def by (cases "0 < n"; cases "n < 0") (simp_all add: sgn_if)
  then have "sgn (k * n) * sgn d = (if n = 0 then 0 else sgn k)"
    by (simp add: sgn_mult mult.assoc split: if_splits)
  then have eq: "(k * n) sdiv d = (if n = 0 then 0 else sgn k) * (\<bar>k * n\<bar> div \<bar>d\<bar>)"
    by (simp add: signed_divide_int_def)
  show ?thesis
  proof (cases "n = 0 \<or> k = 0")
    case True
    then have "(k * n) sdiv d = 0" using eq by auto
    then show ?thesis unfolding between_def by linarith
  next
    case False
    then have "(k * n) sdiv d = sgn k * (\<bar>k * n\<bar> div \<bar>d\<bar>)" using eq by simp
    then show ?thesis
      using le ge False unfolding between_def by (cases "0 < k") (simp_all add: sgn_if)
  qed
qed

definition small :: "int \<Rightarrow> bool" where
  "small v \<longleftrightarrow> - 16384 \<le> v \<and> v \<le> 16384"

lemma between_small: "small u \<Longrightarrow> small v \<Longrightarrow> between u v w \<Longrightarrow> small w"
  unfolding small_def between_def by linarith

lemma between_shift: "between 0 (v - u) w \<Longrightarrow> between u v (u + w)"
  unfolding between_def by linarith

lemma small_diff: "small u \<Longrightarrow> small v \<Longrightarrow> in_s32 (u - v) \<and> \<bar>u - v\<bar> \<le> 32768"
  unfolding small_def in_s32_def by linarith

lemma small_s32: "small v \<Longrightarrow> s32 v = v"
  by (rule s32_id) (simp add: small_def in_s32_def)

lemma interpolate_between:
  assumes "small u1" "small v1" "small u2" "small v2" "small v"
    and "v1 \<noteq> v2" and "between v1 v2 v"
  shows "\<exists>u. interpolate u1 v1 u2 v2 v = Some u \<and> between u1 u2 u"
proof -
  let ?k = "u2 - u1" and ?n = "v - v1" and ?d = "v2 - v1"
  let ?q = "(?k * ?n) sdiv ?d"
  have k: "s32 ?k = ?k" and n: "s32 ?n = ?n" and d: "s32 ?d = ?d"
    using assms by (simp_all add: small_diff s32_id)
  have "\<bar>?k\<bar> * \<bar>?n\<bar> \<le> 32768 * 32768"
    using assms by (intro mult_mono) (simp_all add: small_diff)
  then have "\<bar>?k * ?n\<bar> \<le> 32768 * 32768" by (simp add: abs_mult)
  then have kn: "s32 (?k * ?n) = ?k * ?n"
    by (intro s32_id, unfold in_s32_def) linarith
  have "between 0 ?d ?n" using assms(7) unfolding between_def by linarith
  then have q: "between 0 ?k ?q" using assms(6) by (intro sdiv_fraction) simp_all
  have "\<bar>?q\<bar> \<le> \<bar>?k\<bar>" using between_nearer(2) [OF q] by simp
  then have qs: "s32 ?q = ?q"
    using small_diff [OF assms(3,1)] by (intro s32_id, unfold in_s32_def) linarith
  have r: "between u1 u2 (u1 + ?q)" using q by (rule between_shift)
  then have "s32 (u1 + ?q) = u1 + ?q" using between_small assms(1,3) small_s32 by blast
  with r show ?thesis using assms(6) by (simp add: interpolate_def k n d kn qs)
qed

lemma compute_outcode_origin:
  assumes "rx r = 0" "ry r = 0" "small (rw r)" "small (rh r)" "0 < rw r" "0 < rh r"
  shows "compute_outcode r x y =
    \<lparr>CODE_BOTTOM = (rh r \<le> y), CODE_TOP = (y < 0), CODE_LEFT = (x < 0), CODE_RIGHT = (rw r \<le> x)\<rparr>"
  using assms by (auto simp: compute_outcode_def no_code_def Let_def small_def s32_def)

lemma outcode_origin_iff:
  assumes "rx r = 0" "ry r = 0" "small (rw r)" "small (rh r)" "0 < rw r" "0 < rh r"
  shows "compute_outcode r u v \<noteq> no_code \<longleftrightarrow> v < 0 \<or> rh r \<le> v \<or> u < 0 \<or> rw r \<le> u"
    and "code_and (compute_outcode r u v) (compute_outcode r u' v') \<longleftrightarrow>
      (rh r \<le> v \<and> rh r \<le> v') \<or> (v < 0 \<and> v' < 0) \<or> (u < 0 \<and> u' < 0) \<or> (rw r \<le> u \<and> rw r \<le> u')"
  unfolding compute_outcode_origin [OF assms] by (simp_all add: no_code_def code_and_def) blast

definition seg_small :: "int \<Rightarrow> int \<Rightarrow> int \<Rightarrow> int \<Rightarrow> bool" where
  "seg_small x1 y1 x2 y2 \<longleftrightarrow> small x1 \<and> small y1 \<and> small x2 \<and> small y2"

text \<open>
  One clipping step on a rectangle at the origin replaces the endpoint outside by a point of the
  segment's bounding box that is strictly nearer to the other endpoint.
\<close>

lemma clip_point_nearer:
  assumes r: "rx r = 0" "ry r = 0" "small (rw r)" "small (rh r)" "0 < rw r" "0 < rh r"
    and seg: "seg_small x1 y1 x2 y2"
    and c: "c = compute_outcode r u v" "c \<noteq> no_code"
    and d: "d = compute_outcode r u' v'" "\<not> code_and c d"
    and ends: "((u, v) = (x1, y1) \<and> (u', v') = (x2, y2)) \<or> ((u, v) = (x2, y2) \<and> (u', v') = (x1, y1))"
  shows "\<exists>x y. clip_point r c x1 y1 x2 y2 xy = Some (x, y) \<and> between x1 x2 x \<and> between y1 y2 y \<and>
               \<bar>x - u'\<bar> + \<bar>y - v'\<bar> < \<bar>u - u'\<bar> + \<bar>v - v'\<bar>"
proof -
  have e: "s32 (s32 (rx r + rw r) - 1) = rw r - 1" "s32 (s32 (ry r + rh r) - 1) = rh r - 1"
    using r by (simp_all add: s32_def small_def)
  have s: "small 0" "small (rw r - 1)" "small (rh r - 1)"
    using r by (simp_all add: small_def)
  have i1: "\<And>w. small w \<Longrightarrow> y1 \<noteq> y2 \<Longrightarrow> between y1 y2 w \<Longrightarrow>
      \<exists>p. interpolate x1 y1 x2 y2 w = Some p \<and> between x1 x2 p"
    using seg interpolate_between by (simp add: seg_small_def)
  have i2: "\<And>w. small w \<Longrightarrow> x1 \<noteq> x2 \<Longrightarrow> between x1 x2 w \<Longrightarrow>
      \<exists>p. interpolate y1 x1 y2 x2 w = Some p \<and> between y1 y2 p"
    using seg interpolate_between by (simp add: seg_small_def)
  have nx: "\<And>p. between x1 x2 p \<Longrightarrow> \<bar>p - u'\<bar> \<le> \<bar>u - u'\<bar>"
    and ny: "\<And>p. between y1 y2 p \<Longrightarrow> \<bar>p - v'\<bar> \<le> \<bar>v - v'\<bar>"
    using ends between_nearer by auto
  have "v < 0 \<or> rh r \<le> v \<or> u < 0 \<or> rw r \<le> u" "v < 0 \<Longrightarrow> 0 \<le> v'" "rh r \<le> v \<Longrightarrow> v' < rh r"
    "u < 0 \<Longrightarrow> 0 \<le> u'" "rw r \<le> u \<Longrightarrow> u' < rw r"
    using c d unfolding c(1) d(1) outcode_origin_iff [OF r] by linarith+
  then consider (top) "v < 0" "v' \<ge> 0" | (bottom) "\<not> v < 0" "rh r \<le> v" "v' < rh r"
    | (left) "\<not> v < 0" "\<not> rh r \<le> v" "u < 0" "u' \<ge> 0"
    | (right) "\<not> v < 0" "\<not> rh r \<le> v" "\<not> u < 0" "rw r \<le> u" "u' < rw r"
    by blast
  then show ?thesis
  proof cases
    case top
    then have "y1 \<noteq> y2" "between y1 y2 0" using ends by (auto simp: between_def)
    then obtain p where p: "interpolate x1 y1 x2 y2 0 = Some p" "between x1 x2 p"
      using i1 s by blast
    then have "clip_point r c x1 y1 x2 y2 xy = Some (p, 0)"
      using top c r by (simp add: clip_point_def compute_outcode_origin Let_def)
    moreover have "\<bar>p - u'\<bar> + \<bar>0 - v'\<bar> < \<bar>u - u'\<bar> + \<bar>v - v'\<bar>"
      using top by (intro add_le_less_mono nx p) simp
    ultimately show ?thesis using p \<open>between y1 y2 0\<close> by blast
  next
    case bottom
    then have "y1 \<noteq> y2" "between y1 y2 (rh r - 1)" using ends by (auto simp: between_def)
    then obtain p where p: "interpolate x1 y1 x2 y2 (rh r - 1) = Some p" "between x1 x2 p"
      using i1 s by blast
    then have "clip_point r c x1 y1 x2 y2 xy = Some (p, rh r - 1)"
      using bottom c r e by (simp add: clip_point_def compute_outcode_origin Let_def)
    moreover have "\<bar>p - u'\<bar> + \<bar>(rh r - 1) - v'\<bar> < \<bar>u - u'\<bar> + \<bar>v - v'\<bar>"
      using bottom by (intro add_le_less_mono nx p) simp
    ultimately show ?thesis using p \<open>between y1 y2 (rh r - 1)\<close> by blast
  next
    case left
    then have "x1 \<noteq> x2" "between x1 x2 0" using ends by (auto simp: between_def)
    then obtain p where p: "interpolate y1 x1 y2 x2 0 = Some p" "between y1 y2 p"
      using i2 s by blast
    then have "clip_point r c x1 y1 x2 y2 xy = Some (0, p)"
      using left c r by (simp add: clip_point_def compute_outcode_origin Let_def)
    moreover have "\<bar>0 - u'\<bar> + \<bar>p - v'\<bar> < \<bar>u - u'\<bar> + \<bar>v - v'\<bar>"
      using left by (intro add_less_le_mono ny p) simp
    ultimately show ?thesis using p \<open>between x1 x2 0\<close> by blast
  next
    case right
    then have "x1 \<noteq> x2" "between x1 x2 (rw r - 1)" using ends by (auto simp: between_def)
    then obtain p where p: "interpolate y1 x1 y2 x2 (rw r - 1) = Some p" "between y1 y2 p"
      using i2 s by blast
    then have "clip_point r c x1 y1 x2 y2 xy = Some (rw r - 1, p)"
      using right c r e by (simp add: clip_point_def compute_outcode_origin Let_def)
    moreover have "\<bar>(rw r - 1) - u'\<bar> + \<bar>p - v'\<bar> < \<bar>u - u'\<bar> + \<bar>v - v'\<bar>"
      using right by (intro add_less_le_mono ny p) simp
    ultimately show ?thesis using p \<open>between x1 x2 (rw r - 1)\<close> by blast
  qed
qed


definition clip_inside :: "rect_t \<Rightarrow> clip_result \<Rightarrow> bool" where
  "clip_inside r res \<longleftrightarrow>
     (case res of Trapped \<Rightarrow> False | Rejected \<Rightarrow> True
      | Clipped a b c d \<Rightarrow> (a, b) \<in> rect_points r \<and> (c, d) \<in> rect_points r)"

lemma nat_step: "0 \<le> a \<Longrightarrow> a < b \<Longrightarrow> nat b < Suc f \<Longrightarrow> nat a < f"
  by linarith

lemma clip_loop_origin:
  assumes r: "rx r = 0" "ry r = 0" "small (rw r)" "small (rh r)" "0 < rw r" "0 < rh r"
  shows "seg_small x1 y1 x2 y2 \<Longrightarrow> c1 = compute_outcode r x1 y1 \<Longrightarrow> c2 = compute_outcode r x2 y2 \<Longrightarrow>
    nat (\<bar>x1 - x2\<bar> + \<bar>y1 - y2\<bar>) < fuel \<Longrightarrow>
    \<exists>res. clip_loop fuel r x1 y1 x2 y2 xy c1 c2 = Some res \<and> clip_inside r res"
proof (induction fuel arbitrary: x1 y1 x2 y2 xy c1 c2)
  case (Suc fuel)
  show ?case
  proof (cases "c1 = no_code \<and> c2 = no_code")
    case True
    then have "(x1, y1) \<in> rect_points r" "(x2, y2) \<in> rect_points r"
      using Suc.prems(2,3) r by (auto simp: compute_outcode_origin no_code_def rect_points_def)
    with True show ?thesis by (simp add: clip_inside_def)
  next
    case not_done: False
    show ?thesis
    proof (cases "code_and c1 c2")
      case True
      with not_done show ?thesis by (auto simp: clip_inside_def)
    next
      case False
      show ?thesis
      proof (cases "c1 = no_code")
        case True
        with not_done have c2: "c2 \<noteq> no_code" by simp
        have nand: "\<not> code_and c2 c1" using False by (auto simp: code_and_def)
        obtain x y where xy: "clip_point r c2 x1 y1 x2 y2 xy = Some (x, y)"
          "between x1 x2 x" "between y1 y2 y" "\<bar>x - x1\<bar> + \<bar>y - y1\<bar> < \<bar>x2 - x1\<bar> + \<bar>y2 - y1\<bar>"
          using clip_point_nearer [OF r Suc.prems(1,3) c2 Suc.prems(2) nand, where xy = xy] by auto
        have "seg_small x1 y1 x y"
          using Suc.prems(1) xy(2,3) by (auto simp: seg_small_def dest: between_small)
        moreover have "nat (\<bar>x1 - x\<bar> + \<bar>y1 - y\<bar>) < fuel"
          by (rule nat_step [OF _ _ Suc.prems(4)])
            (use xy(4) in \<open>simp_all add: abs_minus_commute del: abs_le_iff\<close>)
        ultimately have "\<exists>res. clip_loop fuel r x1 y1 x y (x, y) c1 (compute_outcode r x y) = Some res \<and>
            clip_inside r res"
          using Suc.IH Suc.prems(2) by blast
        with xy(1) True c2 False show ?thesis by auto
      next
        case c1: False
        obtain x y where xy: "clip_point r c1 x1 y1 x2 y2 xy = Some (x, y)"
          "between x1 x2 x" "between y1 y2 y" "\<bar>x - x2\<bar> + \<bar>y - y2\<bar> < \<bar>x1 - x2\<bar> + \<bar>y1 - y2\<bar>"
          using clip_point_nearer [OF r Suc.prems(1,2) c1 Suc.prems(3) False, where xy = xy] by auto
        have "seg_small x y x2 y2"
          using Suc.prems(1) xy(2,3) by (auto simp: seg_small_def dest: between_small)
        moreover have "nat (\<bar>x - x2\<bar> + \<bar>y - y2\<bar>) < fuel"
          by (rule nat_step [OF _ xy(4) Suc.prems(4)]) simp
        ultimately have "\<exists>res. clip_loop fuel r x y x2 y2 (x, y) (compute_outcode r x y) c2 = Some res \<and>
            clip_inside r res"
          using Suc.IH Suc.prems(3) by blast
        with xy(1) c1 False show ?thesis by auto
      qed
    qed
  qed
qed simp

text \<open>C38: for a rectangle whose origin is (0, 0), \<open>rect_intersect_with_line\<close> terminates on
  every segment of screen-sized coordinates, never divides by zero, and the clipped segment it
  returns has both endpoints inside the rectangle.\<close>

theorem line_clip_origin:
  assumes "rx r = 0" "ry r = 0" "small (rw r)" "small (rh r)" "0 < rw r" "0 < rh r"
    and "seg_small x1 y1 x2 y2" and "nat (\<bar>x1 - x2\<bar> + \<bar>y1 - y2\<bar>) < fuel"
  shows "\<exists>res. rect_intersect_with_line fuel r x1 y1 x2 y2 = Some res \<and> clip_inside r res"
proof -
  have e: "s32 (s32 (rx r + rw r) - 1) = rw r - 1" "s32 (s32 (ry r + rh r) - 1) = rh r - 1"
    using assms by (simp_all add: s32_def small_def)
  show ?thesis
    unfolding rect_intersect_with_line_def Let_def e
    using clip_loop_origin [OF assms(1-7) refl refl assms(8)] assms(1-6)
    by (auto simp: clip_inside_def rect_points_def clamp_to_def)
qed

lemma line_clip_origin_witness:
  "rect_intersect_with_line 100 \<lparr>rx = 0, ry = 0, rw = 10, rh = 10\<rparr> (-5) 2 15 8 = Some (Clipped 0 3 9 6) \<and>
   (\<exists>res. rect_intersect_with_line 100 \<lparr>rx = 0, ry = 0, rw = 10, rh = 10\<rparr> (-5) 2 15 8 = Some res \<and>
     clip_inside \<lparr>rx = 0, ry = 0, rw = 10, rh = 10\<rparr> res)"
  by (rule conjI, code_simp, rule line_clip_origin) (simp_all add: small_def seg_small_def)


abbreviation wide_rect :: rect_t where
  "wide_rect \<equiv> \<lparr>rx = -10, ry = -10, rw = 20, rh = 20\<rparr>"

lemma clip_stuck_step:
  "compute_outcode wide_rect (-10) 0 \<noteq> no_code"
  "\<not> code_and (compute_outcode wide_rect (-10) 0) (compute_outcode wide_rect 5 3)"
  "clip_point wide_rect (compute_outcode wide_rect (-10) 0) (-10) 0 5 3 (-10, 0) = Some (-10, 0)"
  by code_simp+

lemma clip_loop_stuck:
  "clip_loop fuel wide_rect (-10) 0 5 3 (-10, 0)
     (compute_outcode wide_rect (-10) 0) (compute_outcode wide_rect 5 3) = None"
  by (induction fuel) (simp_all add: clip_stuck_step)

text \<open>C39: for a rectangle away from the origin the outcodes are computed against 0 instead of the
  rectangle's corner.  A segment that enters \<open>(-10, -10, 20, 20)\<close> from the left makes the loop
  repeat the same state for ever, and one that enters \<open>(10, 10, 5, 5)\<close> from the left is returned
  with an endpoint outside the rectangle.\<close>

theorem line_clip_outcode_defect:
  "(\<forall>fuel. rect_intersect_with_line fuel wide_rect (-15) 0 5 3 = None) \<and>
   rect_intersect_with_line 9 \<lparr>rx = 10, ry = 10, rw = 5, rh = 5\<rparr> 5 12 20 13 = Some (Clipped 5 12 14 12) \<and>
   (5, 12) \<notin> rect_points \<lparr>rx = 10, ry = 10, rw = 5, rh = 5\<rparr>"
proof (intro conjI allI)
  fix fuel
  have enter: "clip_point wide_rect (compute_outcode wide_rect (-15) 0) (-15) 0 5 3 (0, 0) = Some (-10, 0)"
    "compute_outcode wide_rect (-15) 0 \<noteq> no_code"
    "\<not> code_and (compute_outcode wide_rect (-15) 0) (compute_outcode wide_rect 5 3)"
    by code_simp+
  have "rect_intersect_with_line fuel wide_rect (-15) 0 5 3 =
      clip_loop fuel wide_rect (-15) 0 5 3 (0, 0)
        (compute_outcode wide_rect (-15) 0) (compute_outcode wide_rect 5 3)"
    by (simp add: rect_intersect_with_line_def Let_def s32_def)
  then show "rect_intersect_with_line fuel wide_rect (-15) 0 5 3 = None"
    by (cases fuel) (simp_all add: enter clip_loop_stuck)
next
  show "rect_intersect_with_line 9 \<lparr>rx = 10, ry = 10, rw = 5, rh = 5\<rparr> 5 12 20 13 =
      Some (Clipped 5 12 14 12)"
    by code_simp
qed (simp add: rect_points_def)

section \<open>Alignment\<close>

text \<open>Where an alignment puts the aligned rectangle along one axis.\<close>

datatype placement = Keep | Low | High | Middle

fun place :: "placement \<Rightarrow> int \<Rightarrow> int \<Rightarrow> int \<Rightarrow> int \<Rightarrow> int" where
  "place Keep a_pos a_len b_pos b_len = b_pos"
| "place Low a_pos a_len b_pos b_len = a_pos"
| "place High a_pos a_len b_pos b_len = a_pos + a_len - b_len"
| "place Middle a_pos a_len b_pos b_len = a_pos + (a_len - b_len) div 2"

fun align_x :: "align_t \<Rightarrow> placement" where
  "align_x al = (if al \<in> {ALIGN_LEFT, ALIGN_LEFT_TOP, ALIGN_LEFT_BOTTOM, ALIGN_LEFT_CENTER} then Low
     else if al \<in> {ALIGN_RIGHT, ALIGN_RIGHT_TOP, ALIGN_RIGHT_BOTTOM, ALIGN_RIGHT_CENTER} then High
     else if al \<in> {ALIGN_TOP_CENTER, ALIGN_BOTTOM_CENTER, ALIGN_CENTER_HORIZONTAL, ALIGN_CENTER} then Middle
     else Keep)"

fun align_y :: "align_t \<Rightarrow> placement" where
  "align_y al = (if al \<in> {ALIGN_TOP, ALIGN_LEFT_TOP, ALIGN_RIGHT_TOP, ALIGN_TOP_CENTER} then Low
     else if al \<in> {ALIGN_BOTTOM, ALIGN_LEFT_BOTTOM, ALIGN_RIGHT_BOTTOM, ALIGN_BOTTOM_CENTER} then High
     else if al \<in> {ALIGN_LEFT_CENTER, ALIGN_RIGHT_CENTER, ALIGN_CENTER_VERTICAL, ALIGN_CENTER} then Middle
     else Keep)"

lemma align_axis:
  assumes "edge_ok a_pos" "edge_ok (a_pos + a_len)" "edge_ok b_pos" "edge_ok (b_pos + b_len)"
    and "0 \<le> b_len" "b_len \<le> a_len"
  shows "s32 (b_pos + s32 (a_pos - b_pos)) = a_pos"
    and "s32 (b_pos + s32 (s32 (a_pos + a_len) - s32 (b_pos + b_len))) = a_pos + a_len - b_len"
    and "s32 (a_pos + drop_bit (Suc 0) (s32 (a_len - b_len))) = a_pos + (a_len - b_len) div 2"
proof -
  show "s32 (b_pos + s32 (a_pos - b_pos)) = a_pos"
    using assms by (simp add: wrap_simps)
  show "s32 (b_pos + s32 (s32 (a_pos + a_len) - s32 (b_pos + b_len))) = a_pos + a_len - b_len"
  proof -
    have "in_s32 (a_pos + a_len - b_len)" using assms unfolding edge_ok_def in_s32_def by linarith
    then have "s32 (a_pos + (a_len - b_len)) = a_pos + a_len - b_len" by (simp add: s32_id add_diff_eq)
    then show ?thesis using assms by (simp add: wrap_simps)
  qed
  have "s32 (a_len - b_len) = a_len - b_len"
    using assms by (intro s32_id) (unfold edge_ok_def in_s32_def, linarith)
  then show "s32 (a_pos + drop_bit (Suc 0) (s32 (a_len - b_len))) = a_pos + (a_len - b_len) div 2"
    by (simp add: drop_bit_eq_div) (rule s32_id, use assms in \<open>unfold edge_ok_def in_s32_def, linarith\<close>)
qed

lemma place_inside:
  "p \<noteq> Keep \<Longrightarrow> 0 \<le> b_len \<Longrightarrow> b_len \<le> a_len \<Longrightarrow>
     a_pos \<le> place p a_pos a_len b_pos b_len \<and> place p a_pos a_len b_pos b_len + b_len \<le> a_pos + a_len"
  by (cases p) auto

lemma rect_align_value:
  assumes "rect_ok a" "rect_ok b" "0 \<le> rw b" "rw b \<le> rw a" "0 \<le> rh b" "rh b \<le> rh a"
  shows "rect_align a b al = b\<lparr>rx := place (align_x al) (rx a) (rw a) (rx b) (rw b),
                              ry := place (align_y al) (ry a) (rh a) (ry b) (rh b)\<rparr>"
proof -
  note x = align_axis [of "rx a" "rw a" "rx b" "rw b"] and y = align_axis [of "ry a" "rh a" "ry b" "rh b"]
  show ?thesis
    by (cases al) (simp_all add: rect_align_def Let_def x y assms)
qed

text \<open>Aligning a rectangle that fits keeps its size, puts each axis at the low edge, the high
  edge, the middle (rounded down) or leaves it, as the alignment's name says, and an alignment
  that fixes both axes leaves the rectangle inside the reference rectangle.\<close>

theorem rect_align_placed:
  assumes "rect_ok a" "rect_ok b" "0 \<le> rw b" "rw b \<le> rw a" "0 \<le> rh b" "rh b \<le> rh a"
  shows "rect_align a b al = \<lparr>rx = place (align_x al) (rx a) (rw a) (rx b) (rw b),
                             ry = place (align_y al) (ry a) (rh a) (ry b) (rh b),
                             rw = rw b, rh = rh b\<rparr> \<and>
         (align_x al \<noteq> Keep \<and> align_y al \<noteq> Keep \<longrightarrow> rect_points (rect_align a b al) \<subseteq> rect_points a)"
proof -
  have v: "rect_align a b al = \<lparr>rx = place (align_x al) (rx a) (rw a) (rx b) (rw b),
      ry = place (align_y al) (ry a) (rh a) (ry b) (rh b), rw = rw b, rh = rh b\<rparr>"
    using assms by (simp add: rect_align_value del: align_x.simps align_y.simps)
  moreover have "align_x al \<noteq> Keep \<and> align_y al \<noteq> Keep \<longrightarrow> rect_points (rect_align a b al) \<subseteq> rect_points a"
    using place_inside [of "align_x al" "rw b" "rw a" "rx a" "rx b"]
      place_inside [of "align_y al" "rh b" "rh a" "ry a" "ry b"] assms
    by (auto simp: v rect_points_def simp del: align_x.simps align_y.simps)
  ultimately show ?thesis by blast
qed

lemma rect_align_placed_witness:
  "rect_align \<lparr>rx = 0, ry = 0, rw = 1024, rh = 600\<rparr> \<lparr>rx = 0, ry = 0, rw = 301, rh = 100\<rparr> ALIGN_CENTER =
     \<lparr>rx = 361, ry = 250, rw = 301, rh = 100\<rparr>"
  using rect_align_placed [of "\<lparr>rx = 0, ry = 0, rw = 1024, rh = 600\<rparr>"
      "\<lparr>rx = 0, ry = 0, rw = 301, rh = 100\<rparr>" ALIGN_CENTER]
  by (simp add: rect_ok_def edge_ok_def)

end
