(* ===== verification/Pixel.thy ===== *)
theory Pixel
  imports Boot_Prelude "HOL-Library.Char_ord" "HOL-Library.List_Lexorder"
begin

text \<open>
  Colours and pixel formats of the boot screen: \<^verbatim>\<open>board/samsung/x4412/color.c\<close> (the table of
  named colours) and \<^verbatim>\<open>board/samsung/x4412/pixel.c\<close> (the ten packed formats and the two
  conversions between a colour and a pixel value).
\<close>

section \<open>Named colours\<close>

record color_t =
  cr :: u8
  cg :: u8
  cb :: u8
  ca :: u8

definition RGB_COLOR :: "u8 \<Rightarrow> u8 \<Rightarrow> u8 \<Rightarrow> color_t" where
  "RGB_COLOR red green blue = \<lparr>cr = red, cg = green, cb = blue, ca = 255\<rparr>"

text \<open>The entries of \<^verbatim>\<open>__color_table\<close> before its terminating entry.\<close>

definition color_table :: "(string \<times> color_t) list" where
  "color_table =
    [(''aliceblue'', RGB_COLOR 240 248 255),
     (''antiquewhite'', RGB_COLOR 250 235 215),
     (''aqua'', RGB_COLOR 0 255 255),
     (''aquamarine'', RGB_COLOR 127 255 212),
     (''azure'', RGB_COLOR 240 255 255),
     (''beige'', RGB_COLOR 245 245 220),
     (''bisque'', RGB_COLOR 255 228 196),
     (''black'', RGB_COLOR 0 0 0),
     (''blanchedalmond'', RGB_COLOR 255 235 205),
     (''blue'', RGB_COLOR 0 0 255),
     (''blueviolet'', RGB_COLOR 138 43 226),
     (''brown'', RGB_COLOR 165 42 42),
     (''burlywood'', RGB_COLOR 222 184 135),
     (''cadetblue'', RGB_COLOR 95 158 160),
     (''chartreuse'', RGB_COLOR 127 255 0),
     (''chocolate'', RGB_COLOR 210 105 30),
     (''coral'', RGB_COLOR 255 127 80),
     (''cornflowerblue'', RGB_COLOR 100 149 237),
     (''cornsilk'', RGB_COLOR 255 248 220),
     (''crimson'', RGB_COLOR 220 20 60),
     (''cyan'', RGB_COLOR 0 255 255),
     (''darkblue'', RGB_COLOR 0 0 139),
     (''darkcyan'', RGB_COLOR 0 139 139),
     (''darkgoldenrod'', RGB_COLOR 184 134 11),
     (''darkgray'', RGB_COLOR 169 169 169),
     (''darkgreen'', RGB_COLOR 0 100 0),
     (''darkgrey'', RGB_COLOR 169 169 169),
     (''darkkhaki'', RGB_COLOR 189 183 107),
     (''darkmagenta'', RGB_COLOR 139 0 139),
     (''darkolivegreen'', RGB_COLOR 85 107 47),
     (''darkorange'', RGB_COLOR 255 140 0),
     (''darkorchid'', RGB_COLOR 153 50 204),
     (''darkred'', RGB_COLOR 139 0 0),
     (''darksalmon'', RGB_COLOR 233 150 122),
     (''darkseagreen'', RGB_COLOR 143 188 143),
     (''darkslateblue'', RGB_COLOR 72 61 139),
     (''darkslategray'', RGB_COLOR 47 79 79),
     (''darkslategrey'', RGB_COLOR 47 79 79),
     (''darkturquoise'', RGB_COLOR 0 206 209),
     (''darkviolet'', RGB_COLOR 148 0 211),
     (''deeppink'', RGB_COLOR 255 20 147),
     (''deepskyblue'', RGB_COLOR 0 191 255),
     (''dimgray'', RGB_COLOR 105 105 105),
     (''dimgrey'', RGB_COLOR 105 105 105),
     (''dodgerblue'', RGB_COLOR 30 144 255),
     (''firebrick'', RGB_COLOR 178 34 34),
     (''floralwhite'', RGB_COLOR 255 250 240),
     (''forestgreen'', RGB_COLOR 34 139 34),
     (''fuchsia'', RGB_COLOR 255 0 255),
     (''gainsboro'', RGB_COLOR 220 220 220),
     (''ghostwhite'', RGB_COLOR 248 248 255),
     (''gold'', RGB_COLOR 255 215 0),
     (''goldenrod'', RGB_COLOR 218 165 32),
     (''gray'', RGB_COLOR 128 128 128),
     (''green'', RGB_COLOR 0 128 0),
     (''greenyellow'', RGB_COLOR 173 255 47),
     (''grey'', RGB_COLOR 128 128 128),
     (''honeydew'', RGB_COLOR 240 255 240),
     (''hotpink'', RGB_COLOR 255 105 180),
     (''indianred'', RGB_COLOR 205 92 92),
     (''indigo'', RGB_COLOR 75 0 130),
     (''ivory'', RGB_COLOR 255 255 240),
     (''khaki'', RGB_COLOR 240 230 140),
     (''lavender'', RGB_COLOR 230 230 250),
     (''lavenderblush'', RGB_COLOR 255 240 245),
     (''lawngreen'', RGB_COLOR 124 252 0),
     (''lemonchiffon'', RGB_COLOR 255 250 205),
     (''lightblue'', RGB_COLOR 173 216 230),
     (''lightcoral'', RGB_COLOR 240 128 128),
     (''lightcyan'', RGB_COLOR 224 255 255),
     (''lightgoldenrodyellow'', RGB_COLOR 250 250 210),
     (''lightgray'', RGB_COLOR 211 211 211),
     (''lightgreen'', RGB_COLOR 144 238 144),
     (''lightgrey'', RGB_COLOR 211 211 211),
     (''lightpink'', RGB_COLOR 255 182 193),
     (''lightsalmon'', RGB_COLOR 255 160 122),
     (''lightseagreen'', RGB_COLOR 32 178 170),
     (''lightskyblue'', RGB_COLOR 135 206 250),
     (''lightslategray'', RGB_COLOR 119 136 153),
     (''lightslategrey'', RGB_COLOR 119 136 153),
     (''lightsteelblue'', RGB_COLOR 176 196 222),
     (''lightyellow'', RGB_COLOR 255 255 224),
     (''lime'', RGB_COLOR 0 255 0),
     (''limegreen'', RGB_COLOR 50 205 50),
     (''linen'', RGB_COLOR 250 240 230),
     (''magenta'', RGB_COLOR 255 0 255),
     (''maroon'', RGB_COLOR 128 0 0),
     (''mediumaquamarine'', RGB_COLOR 102 205 170),
     (''mediumblue'', RGB_COLOR 0 0 205),
     (''mediumorchid'', RGB_COLOR 186 85 211),
     (''mediumpurple'', RGB_COLOR 147 112 219),
     (''mediumseagreen'', RGB_COLOR 60 179 113),
     (''mediumslateblue'', RGB_COLOR 123 104 238),
     (''mediumspringgreen'', RGB_COLOR 0 250 154),
     (''mediumturquoise'', RGB_COLOR 72 209 204),
     (''mediumvioletred'', RGB_COLOR 199 21 133),
     (''midnightblue'', RGB_COLOR 25 25 112),
     (''mintcream'', RGB_COLOR 245 255 250),
     (''mistyrose'', RGB_COLOR 255 228 225),
     (''moccasin'', RGB_COLOR 255 228 181),
     (''navajowhite'', RGB_COLOR 255 222 173),
     (''navy'', RGB_COLOR 0 0 128),
     (''oldlace'', RGB_COLOR 253 245 230),
     (''olive'', RGB_COLOR 128 128 0),
     (''olivedrab'', RGB_COLOR 107 142 35),
     (''orange'', RGB_COLOR 255 165 0),
     (''orangered'', RGB_COLOR 255 69 0),
     (''orchid'', RGB_COLOR 218 112 214),
     (''palegoldenrod'', RGB_COLOR 238 232 170),
     (''palegreen'', RGB_COLOR 152 251 152),
     (''paleturquoise'', RGB_COLOR 175 238 238),
     (''palevioletred'', RGB_COLOR 219 112 147),
     (''papayawhip'', RGB_COLOR 255 239 213),
     (''peachpuff'', RGB_COLOR 255 218 185),
     (''peru'', RGB_COLOR 205 133 63),
     (''pink'', RGB_COLOR 255 192 203),
     (''plum'', RGB_COLOR 221 160 221),
     (''powderblue'', RGB_COLOR 176 224 230),
     (''purple'', RGB_COLOR 128 0 128),
     (''red'', RGB_COLOR 255 0 0),
     (''rosybrown'', RGB_COLOR 188 143 143),
     (''royalblue'', RGB_COLOR 65 105 225),
     (''saddlebrown'', RGB_COLOR 139 69 19),
     (''salmon'', RGB_COLOR 250 128 114),
     (''sandybrown'', RGB_COLOR 244 164 96),
     (''seagreen'', RGB_COLOR 46 139 87),
     (''seashell'', RGB_COLOR 255 245 238),
     (''sienna'', RGB_COLOR 160 82 45),
     (''silver'', RGB_COLOR 192 192 192),
     (''skyblue'', RGB_COLOR 135 206 235),
     (''slateblue'', RGB_COLOR 106 90 205),
     (''slategray'', RGB_COLOR 112 128 144),
     (''slategrey'', RGB_COLOR 112 128 144),
     (''snow'', RGB_COLOR 255 250 250),
     (''springgreen'', RGB_COLOR 0 255 127),
     (''steelblue'', RGB_COLOR 70 130 180),
     (''tan'', RGB_COLOR 210 180 140),
     (''teal'', RGB_COLOR 0 128 128),
     (''thistle'', RGB_COLOR 216 191 216),
     (''tomato'', RGB_COLOR 255 99 71),
     (''turquoise'', RGB_COLOR 64 224 208),
     (''violet'', RGB_COLOR 238 130 238),
     (''wheat'', RGB_COLOR 245 222 179),
     (''white'', RGB_COLOR 255 255 255),
     (''whitesmoke'', RGB_COLOR 245 245 245),
     (''yellow'', RGB_COLOR 255 255 0),
     (''yellowgreen'', RGB_COLOR 154 205 50)]"

definition color_table_end :: color_t where
  "color_table_end = RGB_COLOR 0 0 0"

text \<open>
  \<^verbatim>\<open>get_named_color\<close> walks the table until the name matches or the terminating entry is reached,
  and returns the colour of the entry where it stopped.
\<close>

fun find_color :: "(string \<times> color_t) list \<Rightarrow> string \<Rightarrow> color_t" where
  "find_color [] name = color_table_end"
| "find_color ((n, c) # t) name = (if n = name then c else find_color t name)"

definition get_named_color :: "string \<Rightarrow> color_t" where
  "get_named_color name = find_color color_table name"

definition color_init_rgb :: "u8 \<Rightarrow> u8 \<Rightarrow> u8 \<Rightarrow> color_t" where
  "color_init_rgb r g b = \<lparr>cr = r, cg = g, cb = b, ca = 255\<rparr>"

definition color_init_rgba :: "u8 \<Rightarrow> u8 \<Rightarrow> u8 \<Rightarrow> u8 \<Rightarrow> color_t" where
  "color_init_rgba r g b a = \<lparr>cr = r, cg = g, cb = b, ca = a\<rparr>"

section \<open>Pixel formats\<close>

datatype pixel_format =
    PIXEL_FORMAT_GENERIC
  | PIXEL_FORMAT_ABGR_8888 | PIXEL_FORMAT_ARGB_8888 | PIXEL_FORMAT_BGRA_8888 | PIXEL_FORMAT_RGBA_8888
  | PIXEL_FORMAT_BGR_888 | PIXEL_FORMAT_RGB_888
  | PIXEL_FORMAT_BGR_565 | PIXEL_FORMAT_RGB_565
  | PIXEL_FORMAT_BGR_332 | PIXEL_FORMAT_RGB_332

record pixel_info =
  bits_per_pixel :: nat
  bytes_per_pixel :: nat
  red_mask_size :: nat
  red_field_pos :: nat
  green_mask_size :: nat
  green_field_pos :: nat
  blue_mask_size :: nat
  blue_field_pos :: nat
  alpha_mask_size :: nat
  alpha_field_pos :: nat
  fmt :: pixel_format

text \<open>The eight size and position tests every branch of \<^verbatim>\<open>get_pixel_format\<close> makes, in its order.\<close>

definition layout_is ::
  "pixel_info \<Rightarrow> nat \<Rightarrow> nat \<Rightarrow> nat \<Rightarrow> nat \<Rightarrow> nat \<Rightarrow> nat \<Rightarrow> nat \<Rightarrow> nat \<Rightarrow> bool" where
  "layout_is info rs gs bs as rp gp bp ap =
     (red_mask_size info = rs \<and> green_mask_size info = gs \<and> blue_mask_size info = bs \<and>
      alpha_mask_size info = as \<and> red_field_pos info = rp \<and> green_field_pos info = gp \<and>
      blue_field_pos info = bp \<and> alpha_field_pos info = ap)"

definition get_pixel_format :: "pixel_info \<Rightarrow> pixel_format" where
  "get_pixel_format info =
     (if bits_per_pixel info = 32 then
        (if layout_is info 8 8 8 8 0 8 16 24 then PIXEL_FORMAT_ABGR_8888
         else if layout_is info 16 8 8 8 0 8 0 24 then PIXEL_FORMAT_ARGB_8888
         else if layout_is info 16 8 8 8 8 16 24 0 then PIXEL_FORMAT_BGRA_8888
         else if layout_is info 16 8 8 8 24 16 8 0 then PIXEL_FORMAT_RGBA_8888
         else PIXEL_FORMAT_GENERIC)
      else if bits_per_pixel info = 24 then
        (if layout_is info 8 8 8 0 0 8 16 0 then PIXEL_FORMAT_BGR_888
         else if layout_is info 16 8 8 0 0 8 0 0 then PIXEL_FORMAT_RGB_888
         else PIXEL_FORMAT_GENERIC)
      else if bits_per_pixel info = 16 then
        (if layout_is info 5 6 5 0 0 5 11 0 then PIXEL_FORMAT_BGR_565
         else if layout_is info 5 6 5 0 11 5 0 0 then PIXEL_FORMAT_RGB_565
         else PIXEL_FORMAT_GENERIC)
      else if bits_per_pixel info = 8 then
        (if layout_is info 2 3 3 0 0 2 5 0 then PIXEL_FORMAT_BGR_332
         else if layout_is info 3 3 2 0 5 2 0 0 then PIXEL_FORMAT_RGB_332
         else PIXEL_FORMAT_GENERIC)
      else PIXEL_FORMAT_GENERIC)"

text \<open>One case of the switch in \<^verbatim>\<open>set_pixel_info\<close>: ten assignments.\<close>

definition put_layout ::
  "pixel_info \<Rightarrow> nat \<Rightarrow> nat \<Rightarrow> nat \<Rightarrow> nat \<Rightarrow> nat \<Rightarrow> nat \<Rightarrow> nat \<Rightarrow> nat \<Rightarrow> nat \<Rightarrow> nat \<Rightarrow> pixel_info" where
  "put_layout info bits bytes rs gs bs as rp gp bp ap =
     info\<lparr>bits_per_pixel := bits, bytes_per_pixel := bytes,
          red_mask_size := rs, green_mask_size := gs, blue_mask_size := bs, alpha_mask_size := as,
          red_field_pos := rp, green_field_pos := gp, blue_field_pos := bp, alpha_field_pos := ap\<rparr>"

definition set_pixel_info :: "pixel_info \<Rightarrow> pixel_format \<Rightarrow> pixel_info" where
  "set_pixel_info info f =
     (case f of
        PIXEL_FORMAT_GENERIC \<Rightarrow> info
      | PIXEL_FORMAT_ABGR_8888 \<Rightarrow> put_layout info 32 4 8 8 8 8 0 8 16 24
      | PIXEL_FORMAT_ARGB_8888 \<Rightarrow> put_layout info 32 4 8 8 8 8 16 8 0 24
      | PIXEL_FORMAT_BGRA_8888 \<Rightarrow> put_layout info 32 4 8 8 8 8 8 16 24 0
      | PIXEL_FORMAT_RGBA_8888 \<Rightarrow> put_layout info 32 4 8 8 8 8 24 16 8 0
      | PIXEL_FORMAT_BGR_888 \<Rightarrow> put_layout info 24 3 8 8 8 0 0 8 16 0
      | PIXEL_FORMAT_RGB_888 \<Rightarrow> put_layout info 24 3 8 8 8 0 16 8 0 0
      | PIXEL_FORMAT_BGR_565 \<Rightarrow> put_layout info 16 2 5 6 5 0 0 5 11 0
      | PIXEL_FORMAT_RGB_565 \<Rightarrow> put_layout info 16 2 5 6 5 0 11 5 0 0
      | PIXEL_FORMAT_BGR_332 \<Rightarrow> put_layout info 8 1 2 3 3 0 0 2 5 0
      | PIXEL_FORMAT_RGB_332 \<Rightarrow> put_layout info 8 1 3 3 2 0 5 2 0 0)\<lparr>fmt := f\<rparr>"

section \<open>Conversions\<close>

text \<open>
  A channel is an 8-bit value; C promotes it to \<open>int\<close> before the shift and the result is stored
  in an unsigned 32-bit variable.
\<close>

definition map_pixel_color :: "pixel_info \<Rightarrow> color_t \<Rightarrow> u32w" where
  "map_pixel_color info col =
     (let r = drop_bit (8 - red_mask_size info) (cr col);
          g = drop_bit (8 - green_mask_size info) (cg col);
          b = drop_bit (8 - blue_mask_size info) (cb col);
          a = drop_bit (8 - alpha_mask_size info) (ca col);
          c = push_bit (red_field_pos info) (ucast r :: u32w);
          c = c OR push_bit (green_field_pos info) (ucast g);
          c = c OR push_bit (blue_field_pos info) (ucast b);
          c = c OR push_bit (alpha_field_pos info) (ucast a)
      in c)"

text \<open>The four statements \<^verbatim>\<open>unmap_pixel_color\<close> applies to each channel.\<close>

definition unmap_channel :: "nat \<Rightarrow> nat \<Rightarrow> u32w \<Rightarrow> u32w" where
  "unmap_channel pos sz c =
     (let t = drop_bit pos c;
          t = t AND (push_bit sz 1 - 1);
          t = push_bit (8 - sz) t;
          t = t OR (push_bit (8 - sz) 1 - 1)
      in t)"

definition unmap_pixel_color :: "pixel_info \<Rightarrow> u32w \<Rightarrow> color_t" where
  "unmap_pixel_color info c =
     \<lparr>cr = ucast (unmap_channel (red_field_pos info) (red_mask_size info) c AND 255),
      cg = ucast (unmap_channel (green_field_pos info) (green_mask_size info) c AND 255),
      cb = ucast (unmap_channel (blue_field_pos info) (blue_mask_size info) c AND 255),
      ca = (let t = (if alpha_mask_size info > 0
                     then unmap_channel (alpha_field_pos info) (alpha_mask_size info) c else 255)
            in ucast (t AND 255))\<rparr>"

section \<open>Vocabulary of the specifications\<close>

text \<open>A strictly increasing list, checked on neighbours.\<close>

fun increasing :: "'a::linorder list \<Rightarrow> bool" where
  "increasing (x # y # zs) = (x < y \<and> increasing (y # zs))"
| "increasing _ = True"

text \<open>
  A layout without overlapping fields: every channel has at most eight bits and lies inside the
  pixel value, and no two channels share a bit.
\<close>

definition apart :: "nat \<Rightarrow> nat \<Rightarrow> nat \<Rightarrow> nat \<Rightarrow> bool" where
  "apart p s q t \<longleftrightarrow> p + s \<le> q \<or> q + t \<le> p"

definition layout_ok :: "pixel_info \<Rightarrow> bool" where
  "layout_ok i \<longleftrightarrow>
     red_mask_size i \<le> 8 \<and> green_mask_size i \<le> 8 \<and> blue_mask_size i \<le> 8 \<and> alpha_mask_size i \<le> 8 \<and>
     red_field_pos i + red_mask_size i \<le> 32 \<and> green_field_pos i + green_mask_size i \<le> 32 \<and>
     blue_field_pos i + blue_mask_size i \<le> 32 \<and> alpha_field_pos i + alpha_mask_size i \<le> 32 \<and>
     apart (red_field_pos i) (red_mask_size i) (green_field_pos i) (green_mask_size i) \<and>
     apart (red_field_pos i) (red_mask_size i) (blue_field_pos i) (blue_mask_size i) \<and>
     apart (red_field_pos i) (red_mask_size i) (alpha_field_pos i) (alpha_mask_size i) \<and>
     apart (green_field_pos i) (green_mask_size i) (blue_field_pos i) (blue_mask_size i) \<and>
     apart (green_field_pos i) (green_mask_size i) (alpha_field_pos i) (alpha_mask_size i) \<and>
     apart (blue_field_pos i) (blue_mask_size i) (alpha_field_pos i) (alpha_mask_size i)"

text \<open>Bit \<open>n\<close> of a pixel value lies in the field at \<open>pos\<close> and carries a bit of the channel \<open>r\<close>.\<close>

definition in_field :: "nat \<Rightarrow> nat \<Rightarrow> u8 \<Rightarrow> nat \<Rightarrow> bool" where
  "in_field pos s r n \<longleftrightarrow> pos \<le> n \<and> n < pos + s \<and> bit r (n - pos + (8 - s))"

text \<open>
  What is left of an 8-bit channel after it went through a field of \<open>s\<close> bits: the bits below the
  field's resolution read back as ones.
\<close>

definition quantised :: "nat \<Rightarrow> u8 \<Rightarrow> u8" where
  "quantised s r = r OR mask (8 - s)"

text \<open>The bits of a pixel value that some channel occupies.\<close>

definition field_mask :: "pixel_info \<Rightarrow> u32w" where
  "field_mask i =
     push_bit (red_field_pos i) (mask (red_mask_size i)) OR push_bit (green_field_pos i) (mask (green_mask_size i)) OR
     push_bit (blue_field_pos i) (mask (blue_mask_size i)) OR push_bit (alpha_field_pos i) (mask (alpha_mask_size i))"

text \<open>A cleared pixel layout, as the instances below start from.\<close>

definition some_info :: pixel_info where
  "some_info = \<lparr>bits_per_pixel = 0, bytes_per_pixel = 0, red_mask_size = 0, red_field_pos = 0,
     green_mask_size = 0, green_field_pos = 0, blue_mask_size = 0, blue_field_pos = 0,
     alpha_mask_size = 0, alpha_field_pos = 0, fmt = PIXEL_FORMAT_GENERIC\<rparr>"

section \<open>Looking a colour up\<close>

lemma increasing_distinct: "increasing xs \<Longrightarrow> distinct xs \<and> (\<forall>y \<in> set (tl xs). hd xs < y)"
  by (induction xs rule: increasing.induct) force+

lemma color_table_increasing: "increasing (map fst color_table)"
  by code_simp

lemma find_color_map_of: "find_color t name = (case map_of t name of Some c \<Rightarrow> c | None \<Rightarrow> color_table_end)"
  by (induction t name rule: find_color.induct) auto

section \<open>The channel codec\<close>

lemma bit_field_in:
  fixes r :: u8
  assumes "s \<le> 8" "pos + s \<le> 32"
  shows "bit (push_bit pos (ucast (drop_bit (8 - s) r) :: u32w)) n \<longleftrightarrow>
         pos \<le> n \<and> n < pos + s \<and> bit r (n - pos + (8 - s))"
proof -
  have "bit r (n - pos + (8 - s)) \<Longrightarrow> n - pos + (8 - s) < 8"
    using bit_imp_le_length by force
  then show ?thesis using assms by (auto simp: bit_simps add.commute)
qed

lemma low_mask: "push_bit n 1 - 1 = (mask n :: u32w)" "(255::u32w) = mask 8"
  by (simp_all add: mask_eq_exp_minus_1 push_bit_eq_mult)

lemma bit_unmap_channel:
  assumes "s \<le> 8" "pos + s \<le> 32" 
  shows "bit (ucast (unmap_channel pos s c AND 255) :: u8) k \<longleftrightarrow>
         k < 8 \<and> (k < 8 - s \<or> bit c (pos + (k - (8 - s))))"
proof -
  have e: "8 - s \<le> k \<Longrightarrow> k < 8 \<Longrightarrow> k - (8 - s) < s" using assms by linarith
  show ?thesis
    unfolding unmap_channel_def Let_def low_mask
    using assms e by (auto simp: bit_simps)
qed

lemma bit_map_pixel_color:
  assumes "layout_ok i"
  shows "bit (map_pixel_color i col) n \<longleftrightarrow>
    in_field (red_field_pos i) (red_mask_size i) (cr col) n \<or>
    in_field (green_field_pos i) (green_mask_size i) (cg col) n \<or>
    in_field (blue_field_pos i) (blue_mask_size i) (cb col) n \<or>
    in_field (alpha_field_pos i) (alpha_mask_size i) (ca col) n"
proof -
  have s: "red_mask_size i \<le> 8" "green_mask_size i \<le> 8" "blue_mask_size i \<le> 8" "alpha_mask_size i \<le> 8"
    "red_field_pos i + red_mask_size i \<le> 32" "green_field_pos i + green_mask_size i \<le> 32"
    "blue_field_pos i + blue_mask_size i \<le> 32" "alpha_field_pos i + alpha_mask_size i \<le> 32"
    using assms by (simp_all add: layout_ok_def)
  show ?thesis
    unfolding map_pixel_color_def Let_def bit_or_iff in_field_def
    using bit_field_in s by (simp add: disj_assoc)
qed

lemma in_field_same: "s \<le> 8 \<Longrightarrow> k < 8 \<Longrightarrow> 8 - s \<le> k \<Longrightarrow> in_field pos s r (pos + (k - (8 - s))) \<longleftrightarrow> bit r k"
  by (auto simp: in_field_def)

lemma in_field_apart: "apart p s q t \<or> apart q t p s \<Longrightarrow> p \<le> n \<Longrightarrow> n < p + s \<Longrightarrow> \<not> in_field q t r n"
  by (auto simp: in_field_def apart_def)

lemma channel_roundtrip:
  assumes "s \<le> 8" "pos + s \<le> 32"
    and other: "\<And>n. pos \<le> n \<Longrightarrow> n < pos + s \<Longrightarrow> bit c n \<longleftrightarrow> in_field pos s r n"
  shows "(ucast (unmap_channel pos s c AND 255) :: u8) = r OR mask (8 - s)"
proof (rule bit_eqI)
  fix k assume "possible_bit TYPE(u8) k"
  then have k: "k < 8" by simp
  show "bit (ucast (unmap_channel pos s c AND 255) :: u8) k \<longleftrightarrow> bit (r OR mask (8 - s)) k"
  proof (cases "k < 8 - s")
    case True
    then show ?thesis unfolding bit_unmap_channel [OF assms(1,2)] using k by (simp add: bit_simps)
  next
    case False
    then have "pos + (k - (8 - s)) < pos + s" using k assms by linarith
    then have "bit c (pos + (k - (8 - s))) = bit r k"
      using other [of "pos + (k - (8 - s))"] in_field_same [of s k pos r] assms False k by simp
    then show ?thesis unfolding bit_unmap_channel [OF assms(1,2)] using False k by (simp add: bit_simps)
  qed
qed

lemma unmap_map_color:
  assumes "layout_ok i"
  shows "unmap_pixel_color i (map_pixel_color i col) =
    \<lparr>cr = quantised (red_mask_size i) (cr col), cg = quantised (green_mask_size i) (cg col),
     cb = quantised (blue_mask_size i) (cb col),
     ca = (if alpha_mask_size i = 0 then 255 else quantised (alpha_mask_size i) (ca col))\<rparr>"
proof -
  note L = assms [unfolded layout_ok_def]
  note other = bit_map_pixel_color [OF assms, of col] in_field_apart
  have r: "(ucast (unmap_channel (red_field_pos i) (red_mask_size i) (map_pixel_color i col) AND 255) :: u8)
      = quantised (red_mask_size i) (cr col)"
    unfolding quantised_def by (rule channel_roundtrip) (use L other in blast)+
  have g: "(ucast (unmap_channel (green_field_pos i) (green_mask_size i) (map_pixel_color i col) AND 255) :: u8)
      = quantised (green_mask_size i) (cg col)"
    unfolding quantised_def by (rule channel_roundtrip) (use L other in blast)+
  have b: "(ucast (unmap_channel (blue_field_pos i) (blue_mask_size i) (map_pixel_color i col) AND 255) :: u8)
      = quantised (blue_mask_size i) (cb col)"
    unfolding quantised_def by (rule channel_roundtrip) (use L other in blast)+
  have a: "(ucast (unmap_channel (alpha_field_pos i) (alpha_mask_size i) (map_pixel_color i col) AND 255) :: u8)
      = quantised (alpha_mask_size i) (ca col)"
    unfolding quantised_def by (rule channel_roundtrip) (use L other in blast)+
  show ?thesis by (simp add: unmap_pixel_color_def Let_def r g b a)
qed

lemma bit_unmapped_channel:
  assumes "s \<le> 8" "pos + s \<le> 32"
  shows "in_field pos s (ucast (unmap_channel pos s c AND 255)) n \<longleftrightarrow> pos \<le> n \<and> n < pos + s \<and> bit c n"
proof -
  have "pos \<le> n \<Longrightarrow> n < pos + s \<Longrightarrow> n - pos + (8 - s) < 8" using assms by linarith
  then show ?thesis unfolding in_field_def bit_unmap_channel [OF assms] by auto
qed

lemma bit_field_mask:
  "pos + s \<le> 32 \<Longrightarrow> bit (push_bit pos (mask s) :: u32w) n \<longleftrightarrow> pos \<le> n \<and> n < pos + s"
  by (auto simp: bit_simps)

lemma map_unmap_color:
  assumes "layout_ok i"
  shows "map_pixel_color i (unmap_pixel_color i c) = c AND field_mask i"
proof (rule bit_eqI)
  fix n
  have L: "red_mask_size i \<le> 8" "green_mask_size i \<le> 8" "blue_mask_size i \<le> 8" "alpha_mask_size i \<le> 8"
    "red_field_pos i + red_mask_size i \<le> 32" "green_field_pos i + green_mask_size i \<le> 32"
    "blue_field_pos i + blue_mask_size i \<le> 32" "alpha_field_pos i + alpha_mask_size i \<le> 32"
    using assms by (simp_all add: layout_ok_def)
  have a: "in_field (alpha_field_pos i) (alpha_mask_size i) (ca (unmap_pixel_color i c)) n \<longleftrightarrow>
      alpha_field_pos i \<le> n \<and> n < alpha_field_pos i + alpha_mask_size i \<and> bit c n"
  proof (cases "alpha_mask_size i = 0")
    case True
    then show ?thesis by (auto simp: in_field_def)
  next
    case False
    then show ?thesis using L bit_unmapped_channel by (simp add: unmap_pixel_color_def)
  qed
  show "bit (map_pixel_color i (unmap_pixel_color i c)) n \<longleftrightarrow> bit (c AND field_mask i) n"
    unfolding bit_map_pixel_color [OF assms] a
    using L bit_unmapped_channel bit_field_mask
    by (auto simp: unmap_pixel_color_def field_mask_def bit_or_iff bit_and_iff)
qed

lemma layout_ok_set_pixel_info:
  "f \<noteq> PIXEL_FORMAT_GENERIC \<Longrightarrow> layout_ok (set_pixel_info i f)"
  by (cases f) (simp_all add: set_pixel_info_def put_layout_def layout_ok_def apart_def)

lemma field_mask_set_pixel_info:
  "f \<noteq> PIXEL_FORMAT_GENERIC \<Longrightarrow>
   field_mask (set_pixel_info i f) = mask (bits_per_pixel (set_pixel_info i f))"
  by (cases f) (simp_all add: set_pixel_info_def put_layout_def field_mask_def mask_eq_exp_minus_1 push_bit_eq_mult)

section \<open>The codec contract\<close>

text \<open>
  What the drawing code relies on when it converts pixels of a layout \<open>i\<close>: a stored pixel value
  survives decoding and encoding, and every encoded colour is such a value.
\<close>

locale pixel_codec =
  fixes enc :: "'i \<Rightarrow> 'c \<Rightarrow> 'p" and dec :: "'i \<Rightarrow> 'p \<Rightarrow> 'c"
    and supported :: "'i \<Rightarrow> bool" and stored :: "'i \<Rightarrow> 'p \<Rightarrow> bool"
  assumes stored_enc: "supported i \<Longrightarrow> stored i (enc i c)"
    and enc_dec: "supported i \<Longrightarrow> stored i p \<Longrightarrow> enc i (dec i p) = p"
begin

lemma quantise_idem: "supported i \<Longrightarrow> dec i (enc i (dec i (enc i c))) = dec i (enc i c)"
  using enc_dec stored_enc by simp

lemma enc_eq_iff: "supported i \<Longrightarrow> enc i c = enc i d \<longleftrightarrow> dec i (enc i c) = dec i (enc i d)"
  by (metis enc_dec stored_enc)

text \<open>Converting to a layout and back, both ways through a second layout that keeps the colour.\<close>

lemma via_other:
  assumes "supported i" "stored i p" and "dec j (enc j (dec i p)) = dec i p"
  shows "enc i (dec j (enc j (dec i p))) = p"
  using assms enc_dec by simp

end

definition in_fields :: "pixel_info \<Rightarrow> u32w \<Rightarrow> bool" where
  "in_fields i p \<longleftrightarrow> p AND field_mask i = p"

lemma bit_in_field_mask:
  assumes "layout_ok i" "bit (map_pixel_color i c) n"
  shows "bit (field_mask i) n"
proof -
  have "red_field_pos i + red_mask_size i \<le> 32" "green_field_pos i + green_mask_size i \<le> 32"
    "blue_field_pos i + blue_mask_size i \<le> 32" "alpha_field_pos i + alpha_mask_size i \<le> 32"
    using assms(1) by (simp_all add: layout_ok_def)
  moreover note assms(2) [unfolded bit_map_pixel_color [OF assms(1)] in_field_def]
  ultimately show ?thesis
    unfolding field_mask_def bit_or_iff using bit_field_mask by blast
qed

lemma in_fields_map: "layout_ok i \<Longrightarrow> in_fields i (map_pixel_color i c)"
  unfolding in_fields_def by (rule bit_eqI) (auto simp: bit_and_iff dest: bit_in_field_mask)

interpretation codec: pixel_codec map_pixel_color unmap_pixel_color layout_ok in_fields
  by unfold_locales (simp add: in_fields_map, simp add: map_unmap_color in_fields_def)

lemma in_fields_set_pixel_info:
  "f \<noteq> PIXEL_FORMAT_GENERIC \<Longrightarrow>
   in_fields (set_pixel_info i f) p \<longleftrightarrow> take_bit (bits_per_pixel (set_pixel_info i f)) p = p"
  by (simp add: in_fields_def field_mask_set_pixel_info take_bit_eq_mask)

lemma rgb_565_packed: "PIXEL_FORMAT_RGB_565 \<noteq> PIXEL_FORMAT_GENERIC" by simp
lemma bgr_332_packed: "PIXEL_FORMAT_BGR_332 \<noteq> PIXEL_FORMAT_GENERIC" by simp

section \<open>Properties\<close>

text \<open>The colour table lists each name once, so looking a name up gives the colour the table
  lists for it, and a name the table does not list gives the entry behind the end of the table,
  opaque black.\<close>

theorem get_named_color_table:
  "((name, c) \<in> set color_table \<longrightarrow> get_named_color name = c) \<and>
   (name \<notin> fst ` set color_table \<longrightarrow> get_named_color name = color_init_rgb 0 0 0)"
proof -
  have "distinct (map fst color_table)"
    using increasing_distinct [OF color_table_increasing] by simp
  then have "(name, c) \<in> set color_table \<Longrightarrow> map_of color_table name = Some c" by simp
  moreover have "name \<notin> fst ` set color_table \<Longrightarrow> map_of color_table name = None"
    by (simp add: map_of_eq_None_iff)
  ultimately show ?thesis
    by (auto simp: get_named_color_def find_color_map_of color_table_end_def RGB_COLOR_def color_init_rgb_def)
qed

lemma get_named_color_table_witness:
  "get_named_color ''teal'' = RGB_COLOR 0 128 128 \<and> get_named_color ''xboot'' = color_init_rgb 0 0 0"
proof -
  have "(''teal'', RGB_COLOR 0 128 128) \<in> set color_table" by code_simp
  moreover have "''xboot'' \<notin> fst ` set color_table" by code_simp
  ultimately show ?thesis using get_named_color_table by blast
qed

text \<open>C40: A colour that is encoded in one of the ten formats and decoded again keeps, in every
  channel, the bits the format has room for; the bits below read back as ones, and a format
  without an alpha field reads back opaque.\<close>

theorem unmap_map_pixel_color:
  assumes "f \<noteq> PIXEL_FORMAT_GENERIC"
    and "s = set_pixel_info i f"
  shows "unmap_pixel_color s (map_pixel_color s col) =
    \<lparr>cr = quantised (red_mask_size s) (cr col), cg = quantised (green_mask_size s) (cg col),
     cb = quantised (blue_mask_size s) (cb col),
     ca = (if alpha_mask_size s = 0 then 255 else quantised (alpha_mask_size s) (ca col))\<rparr>"
  using unmap_map_color layout_ok_set_pixel_info assms by blast

lemma unmap_map_pixel_color_witness:
  "unmap_pixel_color (set_pixel_info some_info PIXEL_FORMAT_RGB_565)
     (map_pixel_color (set_pixel_info some_info PIXEL_FORMAT_RGB_565) (color_init_rgba 0xa5 0xa5 0xa5 0)) =
   \<lparr>cr = 0xa7, cg = 0xa7, cb = 0xa7, ca = 255\<rparr>"
  unfolding unmap_map_pixel_color [OF rgb_565_packed refl]
  by (simp add: set_pixel_info_def put_layout_def quantised_def color_init_rgba_def mask_eq_exp_minus_1)

text \<open>A pixel value of one of the ten formats survives decoding and encoding: the result is the
  value's low \<open>bits_per_pixel\<close> bits, so no format wastes or shares a bit.\<close>

theorem map_unmap_pixel_color:
  assumes "f \<noteq> PIXEL_FORMAT_GENERIC"
  shows "map_pixel_color (set_pixel_info i f) (unmap_pixel_color (set_pixel_info i f) c) =
         take_bit (bits_per_pixel (set_pixel_info i f)) c"
  using assms
  by (simp add: map_unmap_color layout_ok_set_pixel_info field_mask_set_pixel_info take_bit_eq_mask)

lemma map_unmap_pixel_color_witness:
  "map_pixel_color (set_pixel_info some_info PIXEL_FORMAT_BGR_332)
     (unmap_pixel_color (set_pixel_info some_info PIXEL_FORMAT_BGR_332) 0x1d7) = 0xd7"
  unfolding map_unmap_pixel_color [OF bgr_332_packed]
  by (simp add: set_pixel_info_def put_layout_def take_bit_eq_mask mask_eq_exp_minus_1)

text \<open>\<^verbatim>\<open>get_pixel_format\<close> recognises six of the ten layouts \<^verbatim>\<open>set_pixel_info\<close> writes. The tests
  for the other four compare a red mask size with 16, so their layouts are reported as generic.\<close>

theorem get_pixel_format_set_pixel_info:
  assumes "f \<noteq> PIXEL_FORMAT_GENERIC"
  shows "get_pixel_format (set_pixel_info i f) =
    (if f \<in> {PIXEL_FORMAT_ARGB_8888, PIXEL_FORMAT_BGRA_8888, PIXEL_FORMAT_RGBA_8888, PIXEL_FORMAT_RGB_888}
     then PIXEL_FORMAT_GENERIC else f)"
  using assms
  by (cases f) (simp_all add: set_pixel_info_def put_layout_def get_pixel_format_def layout_is_def)

lemma get_pixel_format_set_pixel_info_witness:
  "get_pixel_format (set_pixel_info some_info PIXEL_FORMAT_RGB_565) = PIXEL_FORMAT_RGB_565 \<and>
   get_pixel_format (set_pixel_info some_info PIXEL_FORMAT_ARGB_8888) = PIXEL_FORMAT_GENERIC"
  using get_pixel_format_set_pixel_info [of PIXEL_FORMAT_RGB_565 some_info]
    get_pixel_format_set_pixel_info [of PIXEL_FORMAT_ARGB_8888 some_info] by simp

end
