(* ===== verification/Memory.thy ===== *)
theory Memory
  imports Boot_Prelude
begin

text \<open>
  Byte-addressed memory of the 32-bit processor, and the block operations of
  \<^verbatim>\<open>lib/string.c\<close> (\<^verbatim>\<open>memset\<close>, \<^verbatim>\<open>bcopy\<close>, \<^verbatim>\<open>memcpy\<close>, \<^verbatim>\<open>memmove\<close>, \<^verbatim>\<open>memcmp\<close>, \<^verbatim>\<open>memscan\<close>,
  \<^verbatim>\<open>memchr\<close>).  Addresses are 32-bit words, so pointer arithmetic wraps as the hardware's does.
  Multi-byte accesses are little-endian, as the board runs.
\<close>

section \<open>Memory\<close>

type_synonym addr = u32w
type_synonym mem = "addr \<Rightarrow> u8"

primrec read_bytes :: "mem \<Rightarrow> addr \<Rightarrow> nat \<Rightarrow> u8 list" where
  "read_bytes m a 0 = []"
| "read_bytes m a (Suc n) = m a # read_bytes m (a + 1) n"

primrec write_bytes :: "mem \<Rightarrow> addr \<Rightarrow> u8 list \<Rightarrow> mem" where
  "write_bytes m a [] = m"
| "write_bytes m a (b # bs) = write_bytes (m(a := b)) (a + 1) bs"

primrec le_bytes :: "nat \<Rightarrow> u32w \<Rightarrow> u8 list" where
  "le_bytes 0 c = []"
| "le_bytes (Suc n) c = ucast c # le_bytes n (drop_bit 8 c)"

primrec le_word :: "u8 list \<Rightarrow> u32w" where
  "le_word [] = 0"
| "le_word (b # bs) = ucast b OR push_bit 8 (le_word bs)"

text \<open>Reading and writing an unsigned value of \<open>n\<close> bytes through a pointer.\<close>

definition load_le :: "nat \<Rightarrow> mem \<Rightarrow> addr \<Rightarrow> u32w" where
  "load_le n m a = le_word (read_bytes m a n)"

definition store_le :: "nat \<Rightarrow> mem \<Rightarrow> addr \<Rightarrow> u32w \<Rightarrow> mem" where
  "store_le n m a c = write_bytes m a (le_bytes n c)"

section \<open>Block operations of the string library\<close>

text \<open>\<^verbatim>\<open>memset\<close>: whole words while the pointer is aligned, then bytes.\<close>

fun memset_words :: "mem \<Rightarrow> addr \<Rightarrow> u32w \<Rightarrow> nat \<Rightarrow> mem \<times> addr \<times> nat" where
  "memset_words m sl cl count =
     (if count \<ge> 4 then memset_words (store_le 4 m sl cl) (sl + 4) cl (count - 4) else (m, sl, count))"

declare memset_words.simps [simp del]

primrec memset_tail :: "mem \<Rightarrow> addr \<Rightarrow> u8 \<Rightarrow> nat \<Rightarrow> mem" where
  "memset_tail m s8 c 0 = m"
| "memset_tail m s8 c (Suc count) = memset_tail (m(s8 := c)) (s8 + 1) c count"

definition memset :: "mem \<Rightarrow> addr \<Rightarrow> u32w \<Rightarrow> nat \<Rightarrow> mem" where
  "memset m s c count =
     (let cl = for_loop (\<lambda>_ cl. push_bit 8 cl OR (c AND 255)) 4 0;
          (m, s8, count) = (if s AND 3 = 0 then memset_words m s cl count else (m, s, count))
      in memset_tail m s8 (ucast c) count)"

text \<open>\<^verbatim>\<open>bcopy\<close> and the byte loops of \<^verbatim>\<open>memcpy\<close> and \<^verbatim>\<open>memmove\<close>: forwards and backwards.\<close>

primrec copy_up :: "mem \<Rightarrow> addr \<Rightarrow> addr \<Rightarrow> nat \<Rightarrow> mem" where
  "copy_up m d s 0 = m"
| "copy_up m d s (Suc count) = copy_up (m(d := m s)) (d + 1) (s + 1) count"

primrec copy_down :: "mem \<Rightarrow> addr \<Rightarrow> addr \<Rightarrow> nat \<Rightarrow> mem" where
  "copy_down m d s 0 = m"
| "copy_down m d s (Suc count) = copy_down (m(d - 1 := m (s - 1))) (d - 1) (s - 1) count"

definition bcopy :: "mem \<Rightarrow> addr \<Rightarrow> addr \<Rightarrow> nat \<Rightarrow> mem" where
  "bcopy m src dest count = copy_up m dest src count"

fun memcpy_words :: "mem \<Rightarrow> addr \<Rightarrow> addr \<Rightarrow> nat \<Rightarrow> mem \<times> addr \<times> addr \<times> nat" where
  "memcpy_words m dl sl count =
     (if count \<ge> 4 then memcpy_words (store_le 4 m dl (load_le 4 m sl)) (dl + 4) (sl + 4) (count - 4)
      else (m, dl, sl, count))"

declare memcpy_words.simps [simp del]

definition memcpy :: "mem \<Rightarrow> addr \<Rightarrow> addr \<Rightarrow> nat \<Rightarrow> mem" where
  "memcpy m dest src count =
     (let (m, d8, s8, count) =
        (if (dest OR src) AND 3 = 0 then memcpy_words m dest src count else (m, dest, src, count))
      in copy_up m d8 s8 count)"

definition memmove :: "mem \<Rightarrow> addr \<Rightarrow> addr \<Rightarrow> nat \<Rightarrow> mem" where
  "memmove m dest src count =
     (if dest \<le> src then copy_up m dest src count
      else copy_down m (dest + of_nat count) (src + of_nat count) count)"

primrec memcmp :: "mem \<Rightarrow> addr \<Rightarrow> addr \<Rightarrow> nat \<Rightarrow> int" where
  "memcmp m su1 su2 0 = 0"
| "memcmp m su1 su2 (Suc count) =
     (let res = uint (m su1) - uint (m su2)
      in if res \<noteq> 0 then res else memcmp m (su1 + 1) (su2 + 1) count)"

primrec memscan :: "mem \<Rightarrow> addr \<Rightarrow> int \<Rightarrow> nat \<Rightarrow> addr" where
  "memscan m p c 0 = p"
| "memscan m p c (Suc size') = (if uint (m p) = c then p else memscan m (p + 1) c size')"

primrec memchr :: "mem \<Rightarrow> addr \<Rightarrow> u32w \<Rightarrow> nat \<Rightarrow> addr option" where
  "memchr m p c 0 = None"
| "memchr m p c (Suc n) = (if ucast c = m p then Some p else memchr m (p + 1) c n)"

section \<open>Regions\<close>

text \<open>The \<open>n\<close> addresses from \<open>a\<close> on; the offset of an address is its distance from \<open>a\<close>.\<close>

definition region :: "addr \<Rightarrow> nat \<Rightarrow> addr set" where
  "region a n = {b. unat (b - a) < n}"

lemma word_plus1_offset:
  fixes a b :: addr
  assumes "b \<noteq> a"
  shows "unat (b - a) = Suc (unat (b - (a + 1)))"
proof -
  have "b - a \<noteq> 0" using assms by simp
  then have "unat (b - a - 1) = unat (b - a) - 1" and "0 < unat (b - a)"
    by (simp_all add: unat_minus_one unat_gt_0)
  then show ?thesis by (simp add: algebra_simps)
qed

lemma unat_minus_1: "unat (- 1 :: addr) = 4294967295"
  by (simp add: unsigned_minus_1_eq_mask mask_eq_exp_minus_1)

lemma write_bytes_at:
  "length bs \<le> 4294967296 \<Longrightarrow>
   write_bytes m a bs b = (if unat (b - a) < length bs then bs ! unat (b - a) else m b)"
proof (induction bs arbitrary: m a)
  case (Cons x bs)
  show ?case
  proof (cases "b = a")
    case True
    then show ?thesis using Cons by (simp add: unat_minus_1)
  next
    case False
    then show ?thesis using Cons by (simp add: word_plus1_offset)
  qed
qed simp

lemma read_bytes_length [simp]: "length (read_bytes m a n) = n"
  by (induction n arbitrary: a) auto

lemma read_bytes_nth [simp]: "k < n \<Longrightarrow> read_bytes m a n ! k = m (a + of_nat k)"
proof (induction n arbitrary: a k)
  case (Suc n)
  then show ?case by (cases k) (auto simp: algebra_simps)
qed simp

lemma le_bytes_length [simp]: "length (le_bytes n c) = n"
  by (induction n arbitrary: c) auto

lemma unat_of_nat_addr: "k < 4294967296 \<Longrightarrow> unat (of_nat k :: addr) = k"
  by (simp add: unat_of_nat)

lemma read_write_bytes:
  assumes "length bs \<le> 4294967296"
  shows "read_bytes (write_bytes m a bs) a (length bs) = bs"
  by (rule nth_equalityI) (use assms in \<open>auto simp: write_bytes_at unat_of_nat_addr\<close>)

lemma region_offset: "b \<in> region a n \<longleftrightarrow> (\<exists>k < n. b = a + of_nat k)" if "n \<le> 4294967296"
proof
  assume "b \<in> region a n"
  then show "\<exists>k < n. b = a + of_nat k"
    by (intro exI [of _ "unat (b - a)"]) (simp add: region_def)
next
  assume "\<exists>k < n. b = a + of_nat k"
  then show "b \<in> region a n" using that by (auto simp: region_def unat_of_nat_addr)
qed

lemma write_bytes_outside:
  "length bs \<le> 4294967296 \<Longrightarrow> b \<notin> region a (length bs) \<Longrightarrow> write_bytes m a bs b = m b"
  by (simp add: write_bytes_at region_def)

lemma read_write_disjoint:
  assumes "length bs \<le> 4294967296" "n \<le> 4294967296" "region a (length bs) \<inter> region b n = {}"
  shows "read_bytes (write_bytes m a bs) b n = read_bytes m b n"
proof (rule nth_equalityI)
  fix k assume k: "k < length (read_bytes (write_bytes m a bs) b n)"
  then have "b + of_nat k \<in> region b n" using region_offset [OF assms(2)] by auto
  then have "b + of_nat k \<notin> region a (length bs)" using assms(3) by auto
  then show "read_bytes (write_bytes m a bs) b n ! k = read_bytes m b n ! k"
    using k assms(1) by (simp add: write_bytes_outside)
qed simp

section \<open>Little-endian values\<close>

lemma le_word_bytes: "le_word (le_bytes n c) = take_bit (8 * n) c"
proof (induction n arbitrary: c)
  case (Suc n)
  show ?case
    by (rule bit_eqI) (auto simp: Suc bit_simps)
qed simp

lemma bit_le_word: "bit (le_word bs) n \<Longrightarrow> n < 8 * length bs"
proof (induction bs arbitrary: n)
  case (Cons b bs)
  from Cons.prems consider "n < 8" | "8 \<le> n" "bit (le_word bs) (n - 8)"
    by (auto simp: bit_or_iff bit_push_bit_iff unsigned_ucast_eq bit_ucast_iff dest: bit_imp_le_length)
  then show ?case
  proof cases
    case 2
    then show ?thesis using Cons.IH [of "n - 8"] by simp
  qed simp
qed simp

lemma le_bytes_word: "length bs \<le> 4 \<Longrightarrow> le_bytes (length bs) (le_word bs) = bs"
proof (induction bs)
  case (Cons b bs)
  have b: "ucast (ucast b OR push_bit 8 (le_word bs) :: u32w) = b"
    by (rule bit_eqI) (auto simp: bit_simps)
  have "drop_bit 8 (ucast b OR push_bit 8 (le_word bs) :: u32w) = le_word bs"
  proof (rule bit_eqI)
    fix n
    have "bit (le_word bs) n \<Longrightarrow> n < 24" using bit_le_word [of bs n] Cons.prems by simp
    moreover have "\<not> bit b (n + 8)" using bit_imp_le_length [of b "n + 8"] by auto
    ultimately show "bit (drop_bit 8 (ucast b OR push_bit 8 (le_word bs) :: u32w)) n = bit (le_word bs) n"
      by (auto simp: bit_drop_bit_eq bit_or_iff bit_push_bit_iff bit_ucast_iff add.commute)
  qed
  then show ?case using Cons b by simp
qed simp

lemma load_store_le: "n \<le> 4294967296 \<Longrightarrow> load_le n (store_le n m a c) a = take_bit (8 * n) c"
  using read_write_bytes [of "le_bytes n c" m a] by (simp add: load_le_def store_le_def le_word_bytes)

lemma store_load_le: "n \<le> 4 \<Longrightarrow> store_le n m d (load_le n m s) = write_bytes m d (read_bytes m s n)"
  using le_bytes_word [of "read_bytes m s n"] by (simp add: load_le_def store_le_def)

section \<open>Correctness of the block operations\<close>

lemma write_bytes_append:
  "write_bytes m a (xs @ ys) = write_bytes (write_bytes m a xs) (a + of_nat (length xs)) ys"
  by (induction xs arbitrary: m a) (auto simp: algebra_simps)

lemma read_bytes_append:
  "read_bytes m a (n + k) = read_bytes m a n @ read_bytes m (a + of_nat n) k"
  by (induction n arbitrary: a) (auto simp: algebra_simps)

lemma memset_tail_bytes: "memset_tail m s c n = write_bytes m s (replicate n c)"
  by (induction n arbitrary: m s) auto

lemma memset_words_bytes:
  "le_bytes 4 cl = replicate 4 c \<Longrightarrow> memset_words m s cl n = (m', s', n') \<Longrightarrow>
   write_bytes m' s' (replicate n' c) = write_bytes m s (replicate n c)"
proof (induction m s cl n arbitrary: m' s' n' rule: memset_words.induct)
  case (1 m s cl n)
  show ?case
  proof (cases "4 \<le> n")
    case True
    then have "replicate n c = le_bytes 4 cl @ replicate (n - 4) c"
      unfolding 1(2) replicate_add [symmetric] by simp
    moreover have "memset_words (store_le 4 m s cl) (s + 4) cl (n - 4) = (m', s', n')"
      using 1(3) True by (subst (asm) memset_words.simps) simp
    note 1(1) [OF True 1(2) this]
    ultimately show ?thesis by (simp add: store_le_def write_bytes_append)
  next
    case False
    then show ?thesis using 1(3) by (subst (asm) memset_words.simps) simp
  qed
qed

lemma memset_pattern:
  "for_loop (\<lambda>_ cl. push_bit 8 cl OR (c AND 255)) n 0 = le_word (replicate n (ucast c))"
proof (induction n)
  case (Suc n)
  have "(c AND 255 :: u32w) = ucast (ucast c :: u8)"
    by (simp add: unsigned_ucast_eq take_bit_eq_mask mask_eq_exp_minus_1)
  then show ?case using Suc by (simp add: or.commute)
qed simp

lemma memset_pattern_bytes:
  "le_bytes 4 (for_loop (\<lambda>_ cl. push_bit 8 cl OR (c AND 255)) 4 0) = replicate 4 (ucast c)"
  unfolding memset_pattern using le_bytes_word [of "replicate 4 (ucast c)"] by simp

text \<open>\<^verbatim>\<open>memset\<close> fills exactly the region, whatever its alignment.\<close>

lemma memset_bytes: "memset m s c n = write_bytes m s (replicate n (ucast c))"
proof (cases "s AND 3 = 0")
  case True
  obtain m' s' n' where "memset_words m s (for_loop (\<lambda>_ cl. push_bit 8 cl OR (c AND 255)) 4 0) n = (m', s', n')"
    using prod_cases3 by blast
  then show ?thesis using True memset_words_bytes [OF memset_pattern_bytes]
    by (simp add: memset_def memset_tail_bytes)
next
  case False
  then show ?thesis by (simp add: memset_def memset_tail_bytes)
qed

text \<open>
  Copying from \<open>s\<close> to \<open>d\<close> upwards is safe unless \<open>d\<close> is a later address of the source region:
  a byte would be overwritten before it is read.
\<close>

definition upward_safe :: "addr \<Rightarrow> addr \<Rightarrow> nat \<Rightarrow> bool" where
  "upward_safe d s n \<longleftrightarrow> d = s \<or> n \<le> unat (d - s)"

lemma upward_safe_mono: "upward_safe d s n \<Longrightarrow> k \<le> n \<Longrightarrow> upward_safe d s k"
  by (auto simp: upward_safe_def)

lemma upward_safe_shift [simp]: "upward_safe (d + a) (s + a) n = upward_safe d s n"
  by (simp add: upward_safe_def)

lemma upward_safe_notin:
  assumes "upward_safe d s (n + k)" "n + k \<le> 4294967296"
  shows "region d n \<inter> region (s + of_nat n) k = {}"
proof (rule equals0I)
  fix b assume "b \<in> region d n \<inter> region (s + of_nat n) k"
  then obtain i j where i: "i < n" "b = d + of_nat i" and j: "j < k" "b = s + of_nat n + of_nat j"
    using region_offset [of n b d] region_offset [of k b "s + of_nat n"] assms(2) by auto
  have "d - s = of_nat n + of_nat j - of_nat i" using i(2) j(2) by (simp add: algebra_simps)
  also have "\<dots> = of_nat (n + j - i)" using i(1) by simp
  finally have e: "d - s = of_nat (n + j - i)" .
  have lt: "n + j - i < n + k" and pos: "0 < n + j - i" using i(1) j(1) by simp_all
  have "unat (d - s) = n + j - i" unfolding e by (rule unat_of_nat_addr) (use lt assms(2) in simp)
  then show False using lt pos assms(1) by (auto simp: upward_safe_def)
qed

lemma upward_step:
  assumes "upward_safe d s (n + k)" "n + k \<le> 4294967296"
  shows "write_bytes (write_bytes m d (read_bytes m s n)) (d + of_nat n)
           (read_bytes (write_bytes m d (read_bytes m s n)) (s + of_nat n) k)
         = write_bytes m d (read_bytes m s (n + k))"
  using upward_safe_notin [OF assms] assms(2)
  by (simp add: read_write_disjoint read_bytes_append write_bytes_append)

lemma copy_up_bytes:
  "upward_safe d s n \<Longrightarrow> n \<le> 4294967296 \<Longrightarrow> copy_up m d s n = write_bytes m d (read_bytes m s n)"
proof (induction n arbitrary: m d s)
  case (Suc n)
  have "copy_up m d s (Suc n) = write_bytes (m(d := m s)) (d + 1) (read_bytes (m(d := m s)) (s + 1) n)"
    using Suc upward_safe_mono [OF Suc.prems(1)] by simp
  then show ?case using upward_step [of d s 1 n m] Suc.prems by simp
qed simp

lemma memcpy_words_bytes:
  "upward_safe d s n \<Longrightarrow> n \<le> 4294967296 \<Longrightarrow> memcpy_words m d s n = (m', d', s', n') \<Longrightarrow>
   copy_up m' d' s' n' = write_bytes m d (read_bytes m s n)"
proof (induction m d s n arbitrary: m' d' s' n' rule: memcpy_words.induct)
  case (1 m d s n)
  show ?case
  proof (cases "4 \<le> n")
    case True
    have r: "memcpy_words (store_le 4 m d (load_le 4 m s)) (d + 4) (s + 4) (n - 4) = (m', d', s', n')"
      using 1(4) True by (subst (asm) memcpy_words.simps) simp
    have "upward_safe (d + 4) (s + 4) (n - 4)"
      using upward_safe_mono [OF 1(2), of "n - 4"] by simp
    from 1(1) [OF True this _ r] show ?thesis
      using upward_step [of d s 4 "n - 4" m] True 1(2,3) by (simp add: store_load_le)
  next
    case False
    then have "copy_up m d s n = copy_up m' d' s' n'"
      using 1(4) by (subst (asm) memcpy_words.simps) simp
    then show ?thesis using copy_up_bytes 1(2,3) by simp
  qed
qed

lemma memcpy_bytes:
  assumes "upward_safe d s n" "n \<le> 4294967296"
  shows "memcpy m d s n = write_bytes m d (read_bytes m s n)"
proof (cases "(d OR s) AND 3 = 0")
  case True
  obtain m' d' s' n' where "memcpy_words m d s n = (m', d', s', n')"
    using prod_cases4 by blast
  then show ?thesis using True memcpy_words_bytes [OF assms] by (simp add: memcpy_def)
next
  case False
  then show ?thesis using copy_up_bytes [OF assms] by (simp add: memcpy_def)
qed

text \<open>Copying downwards is safe unless \<open>s\<close> is a later address of the destination.\<close>

lemma write_bytes_last:
  assumes "length xs < 4294967296"
  shows "write_bytes (m(a + of_nat (length xs) := v)) a xs = write_bytes m a (xs @ [v])"
proof
  fix b
  have "b = a + of_nat (unat (b - a))" by simp
  then have "b = a + of_nat (length xs) \<longleftrightarrow> unat (b - a) = length xs"
    using assms unat_of_nat_addr [of "length xs"] by (metis add_diff_cancel_left')
  then show "write_bytes (m(a + of_nat (length xs) := v)) a xs b = write_bytes m a (xs @ [v]) b"
    using assms by (auto simp: write_bytes_at nth_append)
qed

lemma copy_down_bytes:
  "upward_safe s d n \<Longrightarrow> n < 4294967296 \<Longrightarrow>
   copy_down m (d + of_nat n) (s + of_nat n) n = write_bytes m d (read_bytes m s n)"
proof (induction n arbitrary: m)
  case (Suc n)
  define v where "v = m (s + of_nat n)"
  have "upward_safe s d (n + 1)" using Suc.prems by simp
  then have "d + of_nat n \<notin> region s n"
    using upward_safe_notin [of s d n 1] Suc.prems region_offset [of 1 "d + of_nat n" "d + of_nat n"] by auto
  then have r: "read_bytes (m(d + of_nat n := v)) s n = read_bytes m s n"
    using Suc.prems region_offset [of n _ s] by (intro nth_equalityI) auto
  have "copy_down m (d + of_nat (Suc n)) (s + of_nat (Suc n)) (Suc n)
      = write_bytes (m(d + of_nat n := v)) d (read_bytes m s n)"
    using Suc upward_safe_mono [OF Suc.prems(1), of n] r by (simp add: v_def algebra_simps)
  also have "\<dots> = write_bytes m d (read_bytes m s n @ [v])"
    using write_bytes_last [of "read_bytes m s n" m d v] Suc.prems by simp
  also have "read_bytes m s n @ [v] = read_bytes m s (Suc n)"
    using read_bytes_append [of m s n 1] by (simp add: v_def)
  finally show ?case .
qed simp

lemma unat_neg_addr: "x \<noteq> 0 \<Longrightarrow> unat (- x :: addr) = 4294967296 - unat x"
proof -
  assume "x \<noteq> 0"
  then have x: "0 < uint x" "uint x < 4294967296"
    using uint_lt2p [of x] uint_ge_0 [of x] uint_0_iff [of x] by (simp_all add: order_less_le)
  then have "(- uint x) mod 4294967296 = 4294967296 - uint x" by (simp add: zmod_zminus1_eq_if)
  moreover have "uint (- x) = (- uint x) mod 4294967296" by (simp add: uint_word_ariths)
  ultimately have "uint (- x) = 4294967296 - uint x" by (simp only:)
  then show ?thesis unfolding unat_eq_nat_uint using x by (simp only: nat_diff_distrib' nat_numeral)
qed

lemma memmove_bytes:
  assumes "unat d + n \<le> 4294967296" "unat s + n \<le> 4294967296" "n < 4294967296"
  shows "memmove m d s n = write_bytes m d (read_bytes m s n)"
proof -
  have lt: "upward_safe a b n" if "a < b" "unat b + n \<le> 4294967296" for a b :: addr
  proof -
    have "unat (b - a) = unat b - unat a" using that(1) unat_sub less_imp_le by blast
    moreover have "a - b = - (b - a)" by simp
    moreover have "b - a \<noteq> 0" using that(1) by auto
    ultimately have "unat (a - b) = 4294967296 - (unat b - unat a)"
      using unat_neg_addr [of "b - a"] by presburger
    then show ?thesis unfolding upward_safe_def using that(2) by linarith
  qed
  show ?thesis
  proof (cases "d \<le> s")
    case True
    then have "upward_safe d s n" using lt [of d s] assms by (cases "d = s") (auto simp: upward_safe_def)
    then show ?thesis using True assms copy_up_bytes by (simp add: memmove_def)
  next
    case False
    then show ?thesis using lt [of s d] assms copy_down_bytes by (simp add: memmove_def)
  qed
qed

lemma memcmp_zero_iff: "memcmp m a b n = 0 \<longleftrightarrow> read_bytes m a n = read_bytes m b n"
  by (induction n arbitrary: a b) (auto simp: Let_def word_uint_eq_iff)

text \<open>The sign of \<^verbatim>\<open>memcmp\<close> is that of the first difference.\<close>

lemma memcmp_first_difference:
  assumes "k < n" "read_bytes m a k = read_bytes m b k" "m (a + of_nat k) \<noteq> m (b + of_nat k)"
  shows "memcmp m a b n = uint (m (a + of_nat k)) - uint (m (b + of_nat k))"
  using assms
proof (induction k arbitrary: a b n)
  case 0
  then obtain n' where "n = Suc n'" by (cases n) auto
  then show ?case using 0 by (simp add: Let_def word_uint_eq_iff)
next
  case (Suc k)
  then obtain n' where n: "n = Suc n'" by (cases n) auto
  have "memcmp m (a + 1) (b + 1) n' = uint (m (a + 1 + of_nat k)) - uint (m (b + 1 + of_nat k))"
    using Suc.prems n by (intro Suc.IH) (auto simp: algebra_simps)
  then show ?case using Suc.prems n by (simp add: Let_def algebra_simps)
qed

lemma memchr_None: "memchr m p c n = None \<longleftrightarrow> ucast c \<notin> set (read_bytes m p n)"
  by (induction n arbitrary: p) auto

lemma memchr_Some:
  "memchr m p c n = Some q \<Longrightarrow>
   \<exists>k < n. q = p + of_nat k \<and> m q = ucast c \<and> ucast c \<notin> set (read_bytes m p k)"
proof (induction n arbitrary: p)
  case (Suc n)
  show ?case
  proof (cases "ucast c = m p")
    case True
    then show ?thesis using Suc.prems by (intro exI [of _ 0]) auto
  next
    case False
    then obtain k where "k < n" "q = p + 1 + of_nat k" "m q = ucast c" "ucast c \<notin> set (read_bytes m (p + 1) k)"
      using Suc by auto
    then show ?thesis using False by (intro exI [of _ "Suc k"]) (auto simp: algebra_simps)
  qed
qed simp

lemma memscan_memchr:
  "0 \<le> c \<Longrightarrow> c < 256 \<Longrightarrow>
   memscan m p c n = (case memchr m p (word_of_int c) n of None \<Rightarrow> p + of_nat n | Some q \<Rightarrow> q)"
proof (induction n arbitrary: p)
  case (Suc n)
  have "uint (m p) = c \<longleftrightarrow> ucast (word_of_int c :: u32w) = m p"
    using Suc.prems by (auto simp: word_uint_eq_iff unsigned_ucast_eq take_bit_int_eq_self_iff
        uint_word_of_int take_bit_eq_mod)
  then show ?case using Suc by (auto simp: algebra_simps split: option.splits)
qed simp

section \<open>Properties\<close>

text \<open>\<^verbatim>\<open>memmove\<close> copies the source bytes as they were before the call, however the two areas
  overlap, and changes no other byte.\<close>

theorem memmove_overlap:
  assumes "unat dest + count \<le> 4294967296" "unat src + count \<le> 4294967296" "count < 4294967296"
  shows "memmove m dest src count a =
    (if a \<in> region dest count then m (src + (a - dest)) else m a)"
proof -
  have "memmove m dest src count a = write_bytes m dest (read_bytes m src count) a"
    using memmove_bytes [OF assms] by simp
  also have "\<dots> = (if unat (a - dest) < count then m (src + of_nat (unat (a - dest))) else m a)"
    using assms(3) by (simp add: write_bytes_at)
  finally show ?thesis by (simp add: region_def)
qed

lemma memmove_overlap_witness:
  "memmove (\<lambda>a. ucast a) 0x1001 0x1000 16 0x1008 = 7"
  by (subst memmove_overlap) (simp_all add: region_def)

text \<open>The word-at-a-time \<^verbatim>\<open>memcpy\<close> copies like a loop over single bytes, and both copy the source
  as it was before the call, unless the destination starts inside the source; \<^verbatim>\<open>memset\<close> writes its
  byte to the whole area for every alignment and length.\<close>

theorem memcpy_memset_bytes:
  assumes "dest = src \<or> count \<le> unat (dest - src)" "count \<le> 4294967296"
  shows "memcpy m dest src count = bcopy m src dest count \<and>
    memcpy m dest src count a = (if a \<in> region dest count then m (src + (a - dest)) else m a) \<and>
    memset m dest c count a = (if a \<in> region dest count then ucast c else m a)"
proof -
  have safe: "upward_safe dest src count" using assms(1) by (simp add: upward_safe_def)
  have e: "of_nat (unat (a - dest)) = a - dest" by simp
  show ?thesis
    using memcpy_bytes [OF safe assms(2)] copy_up_bytes [OF safe assms(2)] assms(2)
    by (simp add: bcopy_def memset_bytes write_bytes_at region_def)
qed

lemma memcpy_memset_bytes_witness:
  "memcpy (\<lambda>a. ucast a) 0x2000 0x1001 5 0x2004 = 5 \<and> memset (\<lambda>a. ucast a) 0x2000 0x1ab 5 0x2004 = 0xab"
proof -
  have "(4101 :: u8) = 5" "(427 :: u8) = 0xab" by simp_all
  then show ?thesis
    using memcpy_memset_bytes [of "0x2000" "0x1001" 5 "\<lambda>a. ucast a" "0x2004" "0x1ab"]
    by (auto simp: region_def)
qed

end
