(* ===== verification/Surface.thy ===== *)
theory Surface
  imports Rect Pixel Memory
begin

text \<open>
  Drawing surfaces of the boot screen: the surface structure and its constructor
  (\<^verbatim>\<open>surface.c\<close>, \<^verbatim>\<open>maps.c\<close>), single pixels (\<^verbatim>\<open>sw_utils.c\<close>, \<^verbatim>\<open>sw_point.c\<close>), lines
  (\<^verbatim>\<open>sw_hline.c\<close>, \<^verbatim>\<open>sw_vline.c\<close>, both stubs in the source) and rectangle fills
  (\<^verbatim>\<open>sw_fill.c\<close>).  Pixel data is in the byte memory of theory \<^verbatim>\<open>Memory\<close>.
\<close>

section \<open>Data\<close>

datatype blend_mode = BLEND_MODE_REPLACE | BLEND_MODE_ALPHA

datatype rotate_type =
    ROTATE_DEGREE_0 | ROTATE_DEGREE_90 | ROTATE_DEGREE_180 | ROTATE_DEGREE_270
  | ROTATE_MIRROR_H | ROTATE_MIRROR_V

text \<open>
  The table of drawing functions: one slot per operation.  The program installs one function in
  each slot, its software renderer.
\<close>

datatype point_fn = Map_software_point
datatype hline_fn = Map_software_hline
datatype vline_fn = Map_software_vline
datatype fill_fn = Map_software_fill
datatype blit_fn = Map_software_blit
datatype scale_fn = Map_software_scale
datatype rotate_fn = Map_software_rotate

record surface_maps =
  m_point :: "point_fn option"
  m_hline :: "hline_fn option"
  m_vline :: "vline_fn option"
  m_fill :: "fill_fn option"
  m_blit :: "blit_fn option"
  m_scale :: "scale_fn option"
  m_rotate :: "rotate_fn option"

datatype surface_pixels = SURFACE_PIXELS_NEEDFREE | SURFACE_PIXELS_DONTFREE

record surface_t =
  s_info :: pixel_info
  s_w :: u32w
  s_h :: u32w
  s_pitch :: u32w
  s_flag :: surface_pixels
  s_pixels :: addr
  s_clip :: rect_t
  s_maps :: surface_maps
  s_priv :: addr

section \<open>Single pixels\<close>

text \<open>
  A coordinate is a signed integer; multiplied by the unsigned pitch it is converted to 32 bits,
  and the sum is a 32-bit address.
\<close>

definition surface_sw_get_pointer :: "surface_t \<Rightarrow> int \<Rightarrow> int \<Rightarrow> addr" where
  "surface_sw_get_pointer s x y =
     (if bytes_per_pixel (s_info s) = 1 then s_pixels s + word_of_int y * s_pitch s + word_of_int x
      else if bytes_per_pixel (s_info s) = 2 then s_pixels s + word_of_int y * s_pitch s + word_of_int (s32 (x * 2))
      else if bytes_per_pixel (s_info s) = 3 then s_pixels s + word_of_int y * s_pitch s + word_of_int (s32 (x * 3))
      else if bytes_per_pixel (s_info s) = 4 then s_pixels s + word_of_int y * s_pitch s + word_of_int (s32 (x * 4))
      else 0)"

definition surface_sw_get_pixel :: "surface_t \<Rightarrow> mem \<Rightarrow> int \<Rightarrow> int \<Rightarrow> u32w" where
  "surface_sw_get_pixel s m x y =
     (if bytes_per_pixel (s_info s) = 1
      then (let p = s_pixels s + word_of_int y * s_pitch s + word_of_int x in load_le 1 m p)
      else if bytes_per_pixel (s_info s) = 2
      then (let p = s_pixels s + word_of_int y * s_pitch s + word_of_int (s32 (x * 2)) in load_le 2 m p)
      else if bytes_per_pixel (s_info s) = 3
      then (let p = s_pixels s + word_of_int y * s_pitch s + word_of_int (s32 (x * 3))
            in ucast (m p) OR push_bit 8 (ucast (m (p + 1))) OR push_bit 16 (ucast (m (p + 2))))
      else if bytes_per_pixel (s_info s) = 4
      then (let p = s_pixels s + word_of_int y * s_pitch s + word_of_int (s32 (x * 4)) in load_le 4 m p)
      else 0)"

definition surface_sw_set_pixel :: "surface_t \<Rightarrow> mem \<Rightarrow> int \<Rightarrow> int \<Rightarrow> u32w \<Rightarrow> mem" where
  "surface_sw_set_pixel s m x y c =
     (if bytes_per_pixel (s_info s) = 1
      then (let p = s_pixels s + word_of_int y * s_pitch s + word_of_int x in store_le 1 m p c)
      else if bytes_per_pixel (s_info s) = 2
      then (let p = s_pixels s + word_of_int y * s_pitch s + word_of_int (s32 (x * 2)) in store_le 2 m p c)
      else if bytes_per_pixel (s_info s) = 3
      then (let p = s_pixels s + word_of_int y * s_pitch s + word_of_int (s32 (x * 3));
                m = m(p := ucast (c AND 0xff));
                m = m(p + 1 := ucast (drop_bit 8 c AND 0xff))
            in m(p + 2 := ucast (drop_bit 16 c AND 0xff)))
      else if bytes_per_pixel (s_info s) = 4
      then (let p = s_pixels s + word_of_int y * s_pitch s + word_of_int (s32 (x * 4)) in store_le 4 m p c)
      else m)"

text \<open>
  One channel of \<^verbatim>\<open>(((s - d) * alpha) >> 8) + d\<close>: signed arithmetic, an arithmetic shift, and
  truncation to eight bits on assignment.
\<close>

definition blend_channel :: "u8 \<Rightarrow> u8 \<Rightarrow> u8 \<Rightarrow> u8" where
  "blend_channel alpha s d = word_of_int (drop_bit 8 ((uint s - uint d) * uint alpha) + uint d)"

definition blend_color :: "color_t \<Rightarrow> color_t \<Rightarrow> color_t" where
  "blend_color scol dcol =
     (let alpha = ca scol
      in \<lparr>cr = blend_channel alpha (cr scol) (cr dcol), cg = blend_channel alpha (cg scol) (cg dcol),
          cb = blend_channel alpha (cb scol) (cb dcol), ca = blend_channel alpha (ca scol) (ca dcol)\<rparr>)"

definition surface_sw_set_pixel_with_alpha :: "surface_t \<Rightarrow> mem \<Rightarrow> int \<Rightarrow> int \<Rightarrow> u32w \<Rightarrow> mem" where
  "surface_sw_set_pixel_with_alpha s m x y c =
     (let scol = unmap_pixel_color (s_info s) c; alpha = ca scol
      in if alpha = 0xff then surface_sw_set_pixel s m x y c
         else if alpha = 0 then m
         else
           (let dc = surface_sw_get_pixel s m x y;
                dcol = unmap_pixel_color (s_info s) dc;
                col = blend_color scol dcol;
                dc = map_pixel_color (s_info s) col
            in surface_sw_set_pixel s m x y dc))"

text \<open>A drawing operation returns its status and the new memory; a null surface is \<^term>\<open>None\<close>.\<close>

definition map_software_point ::
  "surface_t option \<Rightarrow> mem \<Rightarrow> int \<Rightarrow> int \<Rightarrow> u32w \<Rightarrow> blend_mode \<Rightarrow> bool \<times> mem" where
  "map_software_point surface m x y c mode =
     (case surface of
        None \<Rightarrow> (False, m)
      | Some s \<Rightarrow>
          if s_pixels s = 0 then (False, m)
          else if bits_per_pixel (s_info s) < 8 then (False, m)
          else
            (let minx = rx (s_clip s);
                 maxx = s32 (s32 (rx (s_clip s) + rw (s_clip s)) - 1);
                 miny = ry (s_clip s);
                 maxy = s32 (s32 (ry (s_clip s) + rh (s_clip s)) - 1)
             in if x < minx \<or> x > maxx \<or> y < miny \<or> y > maxy then (True, m)
                else (case mode of
                        BLEND_MODE_REPLACE \<Rightarrow> (True, surface_sw_set_pixel s m x y c)
                      | BLEND_MODE_ALPHA \<Rightarrow> (True, surface_sw_set_pixel_with_alpha s m x y c))))"

definition map_software_hline ::
  "surface_t option \<Rightarrow> mem \<Rightarrow> int \<Rightarrow> int \<Rightarrow> u32w \<Rightarrow> u32w \<Rightarrow> blend_mode \<Rightarrow> bool \<times> mem" where
  "map_software_hline surface m x0 y0 x1 c mode = (False, m)"

definition map_software_vline ::
  "surface_t option \<Rightarrow> mem \<Rightarrow> int \<Rightarrow> int \<Rightarrow> u32w \<Rightarrow> u32w \<Rightarrow> blend_mode \<Rightarrow> bool \<times> mem" where
  "map_software_vline surface m x0 y0 y1 c mode = (False, m)"

section \<open>Rectangle fills\<close>

text \<open>
  The rectangle's fields are assigned to unsigned variables.  The first row is written through a
  running pointer, the others are copied from it.
\<close>

definition rect_start :: "surface_t \<Rightarrow> rect_t \<Rightarrow> addr" where
  "rect_start s rect =
     (let x = word_of_int (rx rect); y = word_of_int (ry rect)
      in s_pixels s + y * s_pitch s + x * of_nat (bytes_per_pixel (s_info s)))"

definition copy_rows :: "surface_t \<Rightarrow> rect_t \<Rightarrow> addr \<Rightarrow> mem \<Rightarrow> mem" where
  "copy_rows s rect p m =
     (let w = (word_of_int (rw rect) :: u32w); h = (word_of_int (rh rect) :: u32w);
          len = of_nat (bytes_per_pixel (s_info s)) * w;
          skip = s_pitch s
      in fst (for_loop (\<lambda>_ (m, q). let q = q + skip in (memcpy m q p (unat len), q)) (unat h - 1) (m, p)))"

definition software_fill_replace_1byte :: "surface_t \<Rightarrow> mem \<Rightarrow> rect_t \<Rightarrow> u32w \<Rightarrow> mem" where
  "software_fill_replace_1byte s m rect c =
     (let fill = ucast (c AND 0xff);
          w = (word_of_int (rw rect) :: u32w);
          p = rect_start s rect;
          (m, t) = for_loop (\<lambda>_ (m, t). (m(t := fill), t + 1)) (unat w) (m, p)
      in copy_rows s rect p m)"

definition software_fill_replace_2byte :: "surface_t \<Rightarrow> mem \<Rightarrow> rect_t \<Rightarrow> u32w \<Rightarrow> mem" where
  "software_fill_replace_2byte s m rect c =
     (let fill = c AND 0xffff;
          w = (word_of_int (rw rect) :: u32w);
          p = rect_start s rect;
          (m, t) = for_loop (\<lambda>_ (m, t). (store_le 2 m t fill, t + 2)) (unat w) (m, p)
      in copy_rows s rect p m)"

definition software_fill_replace_3byte :: "surface_t \<Rightarrow> mem \<Rightarrow> rect_t \<Rightarrow> u32w \<Rightarrow> mem" where
  "software_fill_replace_3byte s m rect c =
     (let fill0 = ucast (c AND 0xff);
          fill1 = ucast (drop_bit 8 c AND 0xff);
          fill2 = ucast (drop_bit 16 c AND 0xff);
          w = (word_of_int (rw rect) :: u32w);
          p = rect_start s rect;
          (m, t) = for_loop (\<lambda>_ (m, t).
                     let (m, t) = (m(t := fill0), t + 1);
                         (m, t) = (m(t := fill1), t + 1)
                     in (m(t := fill2), t + 1)) (unat w) (m, p)
      in copy_rows s rect p m)"

definition software_fill_replace_4byte :: "surface_t \<Rightarrow> mem \<Rightarrow> rect_t \<Rightarrow> u32w \<Rightarrow> mem" where
  "software_fill_replace_4byte s m rect c =
     (let w = (word_of_int (rw rect) :: u32w);
          p = rect_start s rect;
          (m, t) = for_loop (\<lambda>_ (m, t). (store_le 4 m t c, t + 4)) (unat w) (m, p)
      in copy_rows s rect p m)"

definition software_fill_replace :: "surface_t \<Rightarrow> mem \<Rightarrow> rect_t \<Rightarrow> u32w \<Rightarrow> mem" where
  "software_fill_replace s m rect c =
     (if bytes_per_pixel (s_info s) = 1 then software_fill_replace_1byte s m rect c
      else if bytes_per_pixel (s_info s) = 2 then software_fill_replace_2byte s m rect c
      else if bytes_per_pixel (s_info s) = 3 then software_fill_replace_3byte s m rect c
      else if bytes_per_pixel (s_info s) = 4 then software_fill_replace_4byte s m rect c
      else m)"

text \<open>
  \<^verbatim>\<open>software_fill_alpha\<close>.  For 1, 2 and 4 bytes a typed pointer runs over the rectangle, with the
  rest of the line skipped at the end of each row (in units of the pointed-to type); for 3 bytes
  the pixels are addressed by their coordinates.
\<close>

definition blend_at :: "surface_t \<Rightarrow> color_t \<Rightarrow> nat \<Rightarrow> mem \<Rightarrow> addr \<Rightarrow> mem" where
  "blend_at s scol n m p =
     (let dcol = unmap_pixel_color (s_info s) (load_le n m p);
          col = blend_color scol dcol
      in store_le n m p (map_pixel_color (s_info s) col))"

definition blend_walk :: "surface_t \<Rightarrow> color_t \<Rightarrow> nat \<Rightarrow> u32w \<Rightarrow> rect_t \<Rightarrow> mem \<Rightarrow> mem" where
  "blend_walk s scol n skip rect m =
     (let x = word_of_int (rx rect) :: u32w; y = word_of_int (ry rect) :: u32w;
          w = word_of_int (rw rect) :: u32w; h = word_of_int (rh rect) :: u32w;
          p = surface_sw_get_pointer s (sint x) (sint y)
      in fst (for_loop (\<lambda>_ (m, p).
                let (m, p) = for_loop (\<lambda>_ (m, p). (blend_at s scol n m p, p + of_nat n)) (unat w) (m, p)
                in (m, p + skip * of_nat n)) (unat h) (m, p)))"

definition software_fill_alpha :: "surface_t \<Rightarrow> mem \<Rightarrow> rect_t \<Rightarrow> u32w \<Rightarrow> mem" where
  "software_fill_alpha s m rect c =
     (let scol = unmap_pixel_color (s_info s) c; alpha = ca scol
      in if alpha = 0xff then software_fill_replace s m rect c
         else if alpha = 0 then m
         else
           (let x = word_of_int (rx rect) :: u32w; y = word_of_int (ry rect) :: u32w;
                w = word_of_int (rw rect) :: u32w; h = word_of_int (rh rect) :: u32w
            in if bytes_per_pixel (s_info s) = 1 then blend_walk s scol 1 (s_pitch s - w) rect m
               else if bytes_per_pixel (s_info s) = 2 then blend_walk s scol 2 ((s_pitch s - 2 * w) div 2) rect m
               else if bytes_per_pixel (s_info s) = 3 then
                 for_loop (\<lambda>j m. for_loop (\<lambda>i m.
                     let px = sint (x + of_nat i); py = sint (y + of_nat j);
                         dc = surface_sw_get_pixel s m px py;
                         dcol = unmap_pixel_color (s_info s) dc;
                         col = blend_color scol dcol;
                         dc = map_pixel_color (s_info s) col
                     in surface_sw_set_pixel s m px py dc) (unat w) m) (unat h) m
               else if bytes_per_pixel (s_info s) = 4 then blend_walk s scol 4 ((s_pitch s - 4 * w) div 4) rect m
               else m))"

definition map_software_fill ::
  "surface_t option \<Rightarrow> mem \<Rightarrow> rect_t option \<Rightarrow> u32w \<Rightarrow> blend_mode \<Rightarrow> bool \<times> mem" where
  "map_software_fill surface m rect c mode =
     (case surface of
        None \<Rightarrow> (False, m)
      | Some s \<Rightarrow>
          if s_pixels s = 0 then (False, m)
          else if bits_per_pixel (s_info s) < 8 then (False, m)
          else
            (let target = (case rect of
                             Some r \<Rightarrow> (let (some, clipped) = rect_intersect r (s_clip s)
                                        in if some then Some clipped else None)
                           | None \<Rightarrow> Some (s_clip s))
             in case target of
                  None \<Rightarrow> (True, m)
                | Some r \<Rightarrow>
                    (case mode of
                       BLEND_MODE_REPLACE \<Rightarrow> (True, software_fill_replace s m r c)
                     | BLEND_MODE_ALPHA \<Rightarrow> (True, software_fill_alpha s m r c))))"

section \<open>Surfaces\<close>

text \<open>
  The clip rectangle of a surface.  The surface is a value here, so the null test of
  \<^verbatim>\<open>surface_set_clip_rect\<close> has no counterpart.
\<close>

definition surface_set_clip_rect :: "surface_t \<Rightarrow> rect_t option \<Rightarrow> bool \<times> surface_t" where
  "surface_set_clip_rect s rect =
     (case rect of
        None \<Rightarrow> (True, s\<lparr>s_clip := \<lparr>rx = 0, ry = 0, rw = sint (s_w s), rh = sint (s_h s)\<rparr>\<rparr>)
      | Some r \<Rightarrow>
          (let full = \<lparr>rx = 0, ry = 0, rw = sint (s_w s), rh = sint (s_h s)\<rparr>;
               (some, clip) = rect_intersect r full
           in (some, s\<lparr>s_clip := clip\<rparr>)))"

definition surface_get_clip_rect :: "surface_t option \<Rightarrow> rect_t option \<Rightarrow> bool \<times> rect_t option" where
  "surface_get_clip_rect surface rect =
     (case (surface, rect) of
        (Some s, Some r) \<Rightarrow>
          (True, Some (r\<lparr>rx := rx (s_clip s), ry := ry (s_clip s), rw := rw (s_clip s), rh := rh (s_clip s)\<rparr>))
      | _ \<Rightarrow> (False, rect))"

definition surface_map_color :: "surface_t option \<Rightarrow> color_t option \<Rightarrow> u32w" where
  "surface_map_color surface col =
     (case (surface, col) of
        (Some s, Some c) \<Rightarrow> map_pixel_color (s_info s) c
      | _ \<Rightarrow> 0)"

definition surface_unmap_color :: "surface_t option \<Rightarrow> u32w \<Rightarrow> color_t option \<Rightarrow> color_t option" where
  "surface_unmap_color surface c col =
     (case (surface, col) of
        (Some s, Some _) \<Rightarrow> Some (unmap_pixel_color (s_info s) c)
      | _ \<Rightarrow> col)"

definition surface_set_maps :: "surface_maps \<Rightarrow> surface_maps" where
  "surface_set_maps maps =
     (let maps = (if m_point maps = None then maps\<lparr>m_point := Some Map_software_point\<rparr> else maps);
          maps = (if m_hline maps = None then maps\<lparr>m_hline := Some Map_software_hline\<rparr> else maps);
          maps = (if m_vline maps = None then maps\<lparr>m_vline := Some Map_software_vline\<rparr> else maps);
          maps = (if m_fill maps = None then maps\<lparr>m_fill := Some Map_software_fill\<rparr> else maps);
          maps = (if m_blit maps = None then maps\<lparr>m_blit := Some Map_software_blit\<rparr> else maps);
          maps = (if m_scale maps = None then maps\<lparr>m_scale := Some Map_software_scale\<rparr> else maps)
      in if m_rotate maps = None then maps\<lparr>m_rotate := Some Map_software_rotate\<rparr> else maps)"

definition no_maps :: surface_maps where
  "no_maps = \<lparr>m_point = None, m_hline = None, m_vline = None, m_fill = None, m_blit = None,
              m_scale = None, m_rotate = None\<rparr>"

text \<open>
  \<^verbatim>\<open>surface_alloc\<close>.  The two allocator calls are arguments; \<open>fresh\<close> is the content the new
  structure has before it is initialised.  Null pointers are 0; the result carries the allocator's
  state and the memory.  The size of the structure is its size on the 32-bit target.
\<close>

definition sizeof_surface :: nat where
  "sizeof_surface = 84"

definition line_pitch :: "pixel_info \<Rightarrow> u32w \<Rightarrow> u32w" where
  "line_pitch i w =
     (let pitch = w * of_nat (bytes_per_pixel i);
          pitch = (if bits_per_pixel i = 1 then (pitch + 7) div 8
                   else if bits_per_pixel i = 4 then (pitch + 1) div 2 else pitch)
      in (pitch + 3) AND NOT 3)"

definition surface_alloc ::
  "('h \<Rightarrow> nat \<Rightarrow> addr \<times> 'h) \<Rightarrow> ('h \<Rightarrow> addr \<Rightarrow> 'h) \<Rightarrow> surface_t \<Rightarrow> 'h \<Rightarrow> mem \<Rightarrow>
   addr \<Rightarrow> u32w \<Rightarrow> u32w \<Rightarrow> pixel_format \<Rightarrow> surface_t option \<times> 'h \<times> mem" where
  "surface_alloc xmalloc free fresh hp m pixels w h f =
     (if w \<le> 0 \<and> h \<le> 0 then (None, hp, m)
      else
        (let (sp, hp) = xmalloc hp sizeof_surface
         in if sp = 0 then (None, hp, m)
            else
              (let s = fresh\<lparr>s_info := set_pixel_info (s_info fresh) f\<rparr>;
                   s = s\<lparr>s_w := w, s_h := h, s_pitch := line_pitch (s_info s) w\<rparr>;
                   (_, s) = surface_set_clip_rect s None;
                   s = s\<lparr>s_maps := surface_set_maps no_maps\<rparr>
               in if pixels \<noteq> 0
                  then (Some (s\<lparr>s_pixels := pixels, s_flag := SURFACE_PIXELS_DONTFREE, s_priv := 0\<rparr>), hp, m)
                  else
                    (let size' = unat (s_h s * s_pitch s);
                         (px, hp) = xmalloc hp size'
                     in if px = 0 then (None, free hp sp, m)
                        else (Some (s\<lparr>s_pixels := px, s_flag := SURFACE_PIXELS_NEEDFREE, s_priv := 0\<rparr>), hp,
                              memset m px 0xff size')))))"

record gimage =
  g_width :: u32w
  g_height :: u32w
  g_bytes_per_pixel :: u32w
  g_pixels :: addr

definition surface_alloc_from_gimage ::
  "('h \<Rightarrow> nat \<Rightarrow> addr \<times> 'h) \<Rightarrow> ('h \<Rightarrow> addr \<Rightarrow> 'h) \<Rightarrow> surface_t \<Rightarrow> 'h \<Rightarrow> mem \<Rightarrow>
   gimage option \<Rightarrow> surface_t option \<times> 'h \<times> mem" where
  "surface_alloc_from_gimage xmalloc free fresh hp m img =
     (case img of
        None \<Rightarrow> (None, hp, m)
      | Some g \<Rightarrow>
          if g_bytes_per_pixel g = 3
          then surface_alloc xmalloc free fresh hp m (g_pixels g) (g_width g) (g_height g) PIXEL_FORMAT_BGR_888
          else if g_bytes_per_pixel g = 4
          then surface_alloc xmalloc free fresh hp m (g_pixels g) (g_width g) (g_height g) PIXEL_FORMAT_ABGR_8888
          else (None, hp, m))"

text \<open>\<^verbatim>\<open>surface_free\<close>; \<open>sp\<close> is the address of the structure.\<close>

definition surface_free :: "('h \<Rightarrow> addr \<Rightarrow> 'h) \<Rightarrow> 'h \<Rightarrow> addr \<Rightarrow> surface_t option \<Rightarrow> 'h" where
  "surface_free xfree hp sp surface =
     (case surface of
        None \<Rightarrow> hp
      | Some s \<Rightarrow>
          (let hp = (if s_pixels s \<noteq> 0 \<and> s_flag s = SURFACE_PIXELS_NEEDFREE then xfree hp (s_pixels s) else hp)
           in xfree hp sp))"

definition surface_fill ::
  "surface_t option \<Rightarrow> mem \<Rightarrow> rect_t option \<Rightarrow> u32w \<Rightarrow> blend_mode \<Rightarrow> bool \<times> mem" where
  "surface_fill surface m rect c mode =
     (case surface of
        None \<Rightarrow> (False, m)
      | Some s \<Rightarrow> (case m_fill (s_maps s) of
                     None \<Rightarrow> (False, m)
                   | Some Map_software_fill \<Rightarrow> map_software_fill (Some s) m rect c mode))"

definition surface_point ::
  "surface_t option \<Rightarrow> mem \<Rightarrow> int \<Rightarrow> int \<Rightarrow> u32w \<Rightarrow> blend_mode \<Rightarrow> bool \<times> mem" where
  "surface_point surface m x y c mode =
     (case surface of
        None \<Rightarrow> (False, m)
      | Some s \<Rightarrow> (case m_point (s_maps s) of
                     None \<Rightarrow> (False, m)
                   | Some Map_software_point \<Rightarrow> map_software_point (Some s) m x y c mode))"

section \<open>Well-formed surfaces\<close>

text \<open>
  A surface whose lines fit the pitch and whose pixel data lies inside the address space, with at
  most a gibi of pixels per side.
\<close>

definition surface_ok :: "surface_t \<Rightarrow> bool" where
  "surface_ok s \<longleftrightarrow>
     1 \<le> bytes_per_pixel (s_info s) \<and> bytes_per_pixel (s_info s) \<le> 4 \<and>
     int (bytes_per_pixel (s_info s)) * uint (s_w s) \<le> uint (s_pitch s) \<and>
     uint (s_pixels s) + uint (s_h s) * uint (s_pitch s) \<le> 4294967296 \<and>
     uint (s_w s) \<le> 536870911 \<and> uint (s_h s) \<le> 536870911 \<and> s_pixels s \<noteq> 0"

definition inside :: "surface_t \<Rightarrow> int \<Rightarrow> int \<Rightarrow> bool" where
  "inside s x y \<longleftrightarrow> surface_ok s \<and> 0 \<le> x \<and> x < uint (s_w s) \<and> 0 \<le> y \<and> y < uint (s_h s)"

text \<open>The first address of a pixel as a number, and the addresses a surface's pixels occupy.\<close>

definition pixel_address :: "surface_t \<Rightarrow> int \<Rightarrow> int \<Rightarrow> int" where
  "pixel_address s x y =
     uint (s_pixels s) + y * uint (s_pitch s) + x * int (bytes_per_pixel (s_info s))"

definition pixel_cell :: "surface_t \<Rightarrow> int \<Rightarrow> int \<Rightarrow> addr set" where
  "pixel_cell s x y =
     {a. pixel_address s x y \<le> uint a \<and> uint a < pixel_address s x y + int (bytes_per_pixel (s_info s))}"

definition cells :: "surface_t \<Rightarrow> (int \<times> int) set \<Rightarrow> addr set" where
  "cells s ps = (\<Union>(x, y) \<in> ps. pixel_cell s x y)"

definition footprint :: "surface_t \<Rightarrow> addr set" where
  "footprint s = {a. uint (s_pixels s) \<le> uint a \<and> uint a < uint (s_pixels s) + uint (s_h s) * uint (s_pitch s)}"

definition separate :: "surface_t \<Rightarrow> surface_t \<Rightarrow> bool" where
  "separate s t \<longleftrightarrow> footprint s \<inter> footprint t = {}"

definition fit :: "surface_t \<Rightarrow> u32w \<Rightarrow> u32w" where
  "fit s c = take_bit (8 * bytes_per_pixel (s_info s)) c"

section \<open>Pixel addresses\<close>

lemma word_of_int_s32 [simp]: "(word_of_int (s32 v) :: u32w) = word_of_int v"
proof -
  have "take_bit 32 (s32 v) = take_bit 32 v"
    using u32_s32 [of v] by (simp add: u32_def take_bit_eq_mod)
  then show ?thesis by (simp add: word_of_int_eq_iff)
qed

lemma get_pointer_address:
  assumes "1 \<le> bytes_per_pixel (s_info s)" "bytes_per_pixel (s_info s) \<le> 4"
  shows "surface_sw_get_pointer s x y = word_of_int (pixel_address s x y)"
proof -
  have "bytes_per_pixel (s_info s) \<in> {1, 2, 3, 4}" using assms by auto
  then show ?thesis by (auto simp: surface_sw_get_pointer_def pixel_address_def)
qed

lemma get_pixel_load:
  assumes "1 \<le> bytes_per_pixel (s_info s)" "bytes_per_pixel (s_info s) \<le> 4"
  shows "surface_sw_get_pixel s m x y =
         load_le (bytes_per_pixel (s_info s)) m (surface_sw_get_pointer s x y)"
proof -
  have three: "load_le 3 m p = ucast (m p) OR push_bit 8 (ucast (m (p + 1))) OR push_bit 16 (ucast (m (p + 2)))" for p
    by (simp add: load_le_def eval_nat_numeral add.commute [of 2])
  have "bytes_per_pixel (s_info s) \<in> {1, 2, 3, 4}" using assms by auto
  then show ?thesis by (auto simp: surface_sw_get_pixel_def surface_sw_get_pointer_def three Let_def)
qed

lemma ucast_and_ff [simp]: "(ucast (c AND 255 :: u32w) :: u8) = ucast c"
proof -
  have "c AND 255 = (take_bit 8 c :: u32w)" by (simp add: take_bit_eq_mask mask_eq_exp_minus_1)
  moreover have "(ucast (take_bit 8 c :: u32w) :: u8) = ucast c"
    by (rule bit_eqI) (auto simp: bit_simps)
  ultimately show ?thesis by simp
qed

lemma set_pixel_store:
  assumes "1 \<le> bytes_per_pixel (s_info s)" "bytes_per_pixel (s_info s) \<le> 4"
  shows "surface_sw_set_pixel s m x y c =
         store_le (bytes_per_pixel (s_info s)) m (surface_sw_get_pointer s x y) c"
proof -
  have three: "store_le 3 m p c =
      m(p := ucast c, p + 1 := ucast (drop_bit 8 c), p + 2 := ucast (drop_bit 16 c))" for p
    by (simp add: store_le_def eval_nat_numeral add.commute [of 2])
  have "bytes_per_pixel (s_info s) \<in> {1, 2, 3, 4}" using assms by auto
  then show ?thesis by (auto simp: surface_sw_set_pixel_def surface_sw_get_pointer_def three Let_def)
qed

lemma unat_bound: "unat (x :: u32w) < 4294967296"
  unfolding unat_eq_nat_uint using uint_lt2p [of x] nat_less_iff [OF uint_ge_0 [of x]] by simp

lemma region_range:
  fixes a b :: addr
  assumes "uint a + int n \<le> 4294967296"
  shows "b \<in> region a n \<longleftrightarrow> uint a \<le> uint b \<and> uint b < uint a + int n"
proof -
  have bounds: "0 \<le> uint a" "uint a < 4294967296" "0 \<le> uint b" "uint b < 4294967296"
    using uint_lt2p [of a] uint_lt2p [of b] by simp_all
  have "uint (b - a) = (uint b - uint a) mod 4294967296" by (simp add: uint_word_ariths)
  also have "\<dots> = (if uint a \<le> uint b then uint b - uint a else uint b - uint a + 4294967296)"
  proof (cases "uint a \<le> uint b")
    case True
    then have "(uint b - uint a) mod 4294967296 = uint b - uint a"
      using bounds by (intro mod_pos_pos_trivial) linarith+
    then show ?thesis using True by simp
  next
    case False
    have "(uint b - uint a) mod 4294967296 = (uint b - uint a + 4294967296) mod 4294967296" by simp
    also have "\<dots> = uint b - uint a + 4294967296"
      using False bounds by (intro mod_pos_pos_trivial) linarith+
    finally show ?thesis using False by simp
  qed
  finally have "uint (b - a) = (if uint a \<le> uint b then uint b - uint a else uint b - uint a + 4294967296)" .
  moreover have "unat (b - a) < n \<longleftrightarrow> uint (b - a) < int n"
    by (simp only: unat_eq_nat_uint nat_less_iff [OF uint_ge_0])
  ultimately show ?thesis unfolding region_def mem_Collect_eq using assms bounds
    by presburger
qed

lemma inside_bounds:
  assumes "inside s x y"
  shows "uint (s_pixels s) \<le> pixel_address s x y"
    and "pixel_address s x y + int (bytes_per_pixel (s_info s)) \<le> uint (s_pixels s) + uint (s_h s) * uint (s_pitch s)"
    and "uint (s_pixels s) + uint (s_h s) * uint (s_pitch s) \<le> 4294967296"
    and "x * int (bytes_per_pixel (s_info s)) + int (bytes_per_pixel (s_info s)) \<le> uint (s_pitch s)"
proof -
  let ?b = "int (bytes_per_pixel (s_info s))"
  have ok: "?b * uint (s_w s) \<le> uint (s_pitch s)" "0 \<le> x" "x + 1 \<le> uint (s_w s)" "0 \<le> y" "y + 1 \<le> uint (s_h s)"
    using assms by (auto simp: inside_def surface_ok_def)
  show "uint (s_pixels s) + uint (s_h s) * uint (s_pitch s) \<le> 4294967296"
    using assms by (simp add: inside_def surface_ok_def)
  show "uint (s_pixels s) \<le> pixel_address s x y"
    using ok by (simp add: pixel_address_def)
  have "(x + 1) * ?b \<le> uint (s_w s) * ?b" using ok(3) by (rule mult_right_mono) simp
  then show row: "x * ?b + ?b \<le> uint (s_pitch s)" using ok(1) by (simp add: algebra_simps)
  have "(y + 1) * uint (s_pitch s) \<le> uint (s_h s) * uint (s_pitch s)" using ok(5) by (rule mult_right_mono) simp
  then show "pixel_address s x y + ?b \<le> uint (s_pixels s) + uint (s_h s) * uint (s_pitch s)"
    using row by (simp add: pixel_address_def algebra_simps)
qed

lemma surface_okD:
  assumes "surface_ok s"
  shows "1 \<le> bytes_per_pixel (s_info s)" "bytes_per_pixel (s_info s) \<le> 4"
  using assms by (simp_all add: surface_ok_def)

lemma uint_pointer:
  assumes "inside s x y"
  shows "uint (surface_sw_get_pointer s x y) = pixel_address s x y"
proof -
  have ok: "surface_ok s" using assms by (simp add: inside_def)
  have "0 \<le> pixel_address s x y" "pixel_address s x y < 4294967296"
    using inside_bounds [OF assms] surface_okD [OF ok] uint_ge_0 [of "s_pixels s"] by linarith+
  then show ?thesis
    using get_pointer_address [OF surface_okD [OF ok]] by (simp add: uint_word_of_int)
qed

lemma region_cell:
  assumes "inside s x y"
  shows "region (surface_sw_get_pointer s x y) (bytes_per_pixel (s_info s)) = pixel_cell s x y"
  using region_range [of "surface_sw_get_pointer s x y" "bytes_per_pixel (s_info s)"]
    uint_pointer [OF assms] inside_bounds [OF assms]
  by (auto simp: pixel_cell_def)

lemma cell_footprint: "inside s x y \<Longrightarrow> pixel_cell s x y \<subseteq> footprint s"
  using inside_bounds [of s x y] by (auto simp: pixel_cell_def footprint_def)

lemma row_unique:
  fixes y :: int
  assumes "y * p + r = y' * p + r'" "0 \<le> r" "r < p" "0 \<le> r'" "r' < p"
  shows "y = y' \<and> r = r'"
proof -
  have "(z * p + k) div p = z" if "0 \<le> k" "k < p" for z k
    using that by (subst add.commute) (simp add: div_pos_pos_trivial)
  then have "y = y'" using assms by metis
  then show ?thesis using assms(1) by simp
qed

lemma cells_disjoint:
  assumes "inside s x y" "inside s x' y'" "(x, y) \<noteq> (x', y')"
  shows "pixel_cell s x y \<inter> pixel_cell s x' y' = {}"
proof (rule equals0I)
  fix a assume a: "a \<in> pixel_cell s x y \<inter> pixel_cell s x' y'"
  let ?b = "int (bytes_per_pixel (s_info s))" and ?p = "uint (s_pitch s)"
  from a obtain k k' where k: "0 \<le> k" "k < ?b" "uint a = pixel_address s x y + k"
    and k': "0 \<le> k'" "k' < ?b" "uint a = pixel_address s x' y' + k'"
    using that [of "uint a - pixel_address s x y" "uint a - pixel_address s x' y'"]
    by (auto simp: pixel_cell_def)
  have xx: "0 \<le> x" "0 \<le> x'" using assms by (simp_all add: inside_def)
  have "y * ?p + (x * ?b + k) = y' * ?p + (x' * ?b + k')"
    using k(3) k'(3) by (simp add: pixel_address_def)
  moreover have "x * ?b + k < ?p" "x' * ?b + k' < ?p"
    using inside_bounds(4) [OF assms(1)] inside_bounds(4) [OF assms(2)] k(2) k'(2) by linarith+
  moreover have "0 \<le> x * ?b + k" "0 \<le> x' * ?b + k'" using xx k(1) k'(1) by simp_all
  ultimately have "y = y'" "x * ?b + k = x' * ?b + k'" using row_unique by blast+
  moreover from this(2) have "x = x'" using row_unique [of x ?b k x' k'] k k' by blast
  ultimately show False using assms(3) by simp
qed

section \<open>The pixel store contract\<close>

text \<open>
  What the drawing loops need of the pixel accessors: reading back a written pixel, and writes
  that leave other pixels of the surface and of separate surfaces alone.
\<close>

locale pixel_store =
  fixes get :: "'s \<Rightarrow> 'm \<Rightarrow> int \<Rightarrow> int \<Rightarrow> 'p"
    and put :: "'s \<Rightarrow> 'm \<Rightarrow> int \<Rightarrow> int \<Rightarrow> 'p \<Rightarrow> 'm"
    and within :: "'s \<Rightarrow> int \<Rightarrow> int \<Rightarrow> bool"
    and trim :: "'s \<Rightarrow> 'p \<Rightarrow> 'p"
    and apart_from :: "'s \<Rightarrow> 's \<Rightarrow> bool"
  assumes get_put: "within s x y \<Longrightarrow> get s (put s m x y c) x y = trim s c"
    and get_put_other:
      "within s x y \<Longrightarrow> within s x' y' \<Longrightarrow> (x, y) \<noteq> (x', y') \<Longrightarrow>
       get s (put s m x y c) x' y' = get s m x' y'"
    and get_put_apart:
      "apart_from s t \<Longrightarrow> within s x y \<Longrightarrow> within t x' y' \<Longrightarrow>
       get t (put s m x y c) x' y' = get t m x' y'"
begin

text \<open>
  Painting a list of distinct positions, each with a colour that depends on the memory only
  through its own old value and through separate surfaces.
\<close>

lemma paint_get:
  assumes "distinct ps" "\<forall>(x, y) \<in> set ps. within s x y" "within s u v"
    and "\<forall>(x, y) \<in> set ps. \<forall>m'. get s m' x y = get s m x y \<and>
           (\<forall>t x' y'. apart_from s t \<longrightarrow> within t x' y' \<longrightarrow> get t m' x' y' = get t m x' y') \<longrightarrow>
           f x y m' = g x y"
  shows "get s (fold (\<lambda>(x, y) m. put s m x y (f x y m)) ps m) u v =
         (if (u, v) \<in> set ps then trim s (g u v) else get s m u v)"
  using assms
proof (induction ps arbitrary: m)
  case (Cons p ps)
  obtain x y where p: "p = (x, y)" by fastforce
  define m1 where "m1 = put s m x y (f x y m)"
  have fx: "f x y m = g x y" using Cons.prems(4) p by auto
  have in_xy: "within s x y" using Cons.prems(2) p by auto
  have other: "get s m1 x' y' = get s m x' y'" if "within s x' y'" "(x', y') \<noteq> (x, y)" for x' y'
    using get_put_other [OF in_xy that(1)] that(2) by (auto simp: m1_def)
  have apart: "get t m1 x' y' = get t m x' y'" if "apart_from s t" "within t x' y'" for t x' y'
    using get_put_apart [OF that(1) in_xy that(2)] by (simp add: m1_def)
  have "get s (fold (\<lambda>(x, y) m. put s m x y (f x y m)) ps m1) u v =
        (if (u, v) \<in> set ps then trim s (g u v) else get s m1 u v)"
  proof (rule Cons.IH)
    show "\<forall>(x, y) \<in> set ps. \<forall>m'. get s m' x y = get s m1 x y \<and>
           (\<forall>t x' y'. apart_from s t \<longrightarrow> within t x' y' \<longrightarrow> get t m' x' y' = get t m1 x' y') \<longrightarrow>
           f x y m' = g x y"
    proof (clarify)
      fix a b m'
      assume ab: "(a, b) \<in> set ps" and "get s m' a b = get s m1 a b"
        and "\<forall>t x' y'. apart_from s t \<longrightarrow> within t x' y' \<longrightarrow> get t m' x' y' = get t m1 x' y'"
      moreover have "within s a b" "(a, b) \<noteq> (x, y)" using ab Cons.prems(1,2) p by auto
      ultimately have "get s m' a b = get s m a b"
        "\<forall>t x' y'. apart_from s t \<longrightarrow> within t x' y' \<longrightarrow> get t m' x' y' = get t m x' y'"
        using other apart by simp_all
      moreover have "(a, b) \<in> set (p # ps)" using ab by simp
      ultimately show "f a b m' = g a b" using Cons.prems(4) by fast
    qed
  qed (use Cons.prems in auto)
  moreover have "get s m1 u v = (if (u, v) = (x, y) then trim s (g u v) else get s m u v)"
    using get_put [OF in_xy] other [OF Cons.prems(3)] fx by (auto simp: m1_def)
  moreover have "(x, y) \<notin> set ps" using Cons.prems(1) p by simp
  ultimately show ?case using p by (auto simp: m1_def)
qed simp

lemma paint_apart:
  assumes "\<forall>(x, y) \<in> set ps. within s x y" "apart_from s t" "within t u v"
  shows "get t (fold (\<lambda>(x, y) m. put s m x y (f x y m)) ps m) u v = get t m u v"
  using assms by (induction ps arbitrary: m) (auto simp: get_put_apart)

end

lemma fit_load_store:
  "surface_ok s \<Longrightarrow> inside s x y \<Longrightarrow>
   surface_sw_get_pixel s (surface_sw_set_pixel s m x y c) x y = fit s c"
  using surface_okD [of s]
  by (simp add: get_pixel_load set_pixel_store load_store_le fit_def)

lemma set_pixel_frame:
  assumes "inside s x y" "a \<notin> pixel_cell s x y"
  shows "surface_sw_set_pixel s m x y c a = m a"
proof -
  have ok: "surface_ok s" using assms(1) by (simp add: inside_def)
  show ?thesis
    using assms(2) surface_okD [OF ok] unfolding region_cell [OF assms(1), symmetric]
    by (simp add: set_pixel_store store_le_def write_bytes_outside)
qed

lemma load_cong: "(\<And>a. a \<in> region p n \<Longrightarrow> m a = m' a) \<Longrightarrow> n \<le> 4294967296 \<Longrightarrow> load_le n m p = load_le n m' p"
  unfolding load_le_def by (rule arg_cong [where f = le_word], rule nth_equalityI) (auto simp: region_offset)

lemma get_pixel_cong:
  assumes "inside s x y" "\<And>a. a \<in> pixel_cell s x y \<Longrightarrow> m a = m' a"
  shows "surface_sw_get_pixel s m x y = surface_sw_get_pixel s m' x y"
proof -
  have ok: "surface_ok s" using assms(1) by (simp add: inside_def)
  show ?thesis
    using assms(2) surface_okD [OF ok] unfolding region_cell [OF assms(1), symmetric]
    by (simp add: get_pixel_load) (rule load_cong, auto)
qed

interpretation pixels: pixel_store surface_sw_get_pixel surface_sw_set_pixel inside fit separate
proof
  fix s x y m c
  show "inside s x y \<Longrightarrow> surface_sw_get_pixel s (surface_sw_set_pixel s m x y c) x y = fit s c"
    using fit_load_store by (simp add: inside_def)
next
  fix s x y x' y' m c
  assume i: "inside s x y" "inside s x' y'" "(x, y) \<noteq> (x', y')"
  show "surface_sw_get_pixel s (surface_sw_set_pixel s m x y c) x' y' = surface_sw_get_pixel s m x' y'"
    by (rule get_pixel_cong [OF i(2)], rule set_pixel_frame [OF i(1)]) (use cells_disjoint [OF i] in auto)
next
  fix s t x y x' y' m c
  assume i: "separate s t" "inside s x y" "inside t x' y'"
  show "surface_sw_get_pixel t (surface_sw_set_pixel s m x y c) x' y' = surface_sw_get_pixel t m x' y'"
    by (rule get_pixel_cong [OF i(3)], rule set_pixel_frame [OF i(2)])
      (use cell_footprint [OF i(2)] cell_footprint [OF i(3)] i(1) in \<open>auto simp: separate_def\<close>)
qed

section \<open>Painting a rectangle\<close>

text \<open>
  The reference for every drawing loop: visit the pixels of a rectangle row by row and store a
  colour in each.
\<close>

definition paint :: "surface_t \<Rightarrow> rect_t \<Rightarrow> (int \<Rightarrow> int \<Rightarrow> mem \<Rightarrow> u32w) \<Rightarrow> mem \<Rightarrow> mem" where
  "paint s r f m =
     for_loop (\<lambda>j. for_loop (\<lambda>i m. surface_sw_set_pixel s m (rx r + int i) (ry r + int j)
         (f (rx r + int i) (ry r + int j) m)) (nat (rw r))) (nat (rh r)) m"

definition rect_list :: "rect_t \<Rightarrow> (int \<times> int) list" where
  "rect_list r = [(rx r + int i, ry r + int j). j \<leftarrow> [0..<nat (rh r)], i \<leftarrow> [0..<nat (rw r)]]"

definition rect_within :: "surface_t \<Rightarrow> rect_t \<Rightarrow> bool" where
  "rect_within s r \<longleftrightarrow> 0 \<le> rx r \<and> rx r + rw r \<le> uint (s_w s) \<and> 0 \<le> ry r \<and> ry r + rh r \<le> uint (s_h s)"

lemma paint_fold:
  "paint s r f m = fold (\<lambda>(x, y) m. surface_sw_set_pixel s m x y (f x y m)) (rect_list r) m"
proof -
  have "rect_list r = map (\<lambda>(i, j). (rx r + int i, ry r + int j)) [(i, j). j \<leftarrow> [0..<nat (rh r)], i \<leftarrow> [0..<nat (rw r)]]"
    by (simp add: rect_list_def map_concat comp_def)
  then show ?thesis
    unfolding paint_def for_loop_nest by (simp add: fold_map comp_def case_prod_unfold)
qed

lemma set_rect_list [simp]: "set (rect_list r) = rect_points r"
proof -
  have "(u, v) \<in> set (rect_list r)" if "(u, v) \<in> rect_points r" for u v
    using that unfolding rect_list_def rect_points_def
    by (auto intro!: bexI [of _ "nat (v - ry r)"] image_eqI [of _ _ "nat (u - rx r)"])
  moreover have "(u, v) \<in> rect_points r" if "(u, v) \<in> set (rect_list r)" for u v
    using that unfolding rect_list_def rect_points_def by auto
  ultimately show ?thesis by auto
qed

lemma distinct_rect_list: "distinct (rect_list r)"
proof -
  have "distinct (concat (map (\<lambda>j. map (\<lambda>i. (x + int i, y + int j)) [0..<w]) [0..<h]))" for x y w h
    by (induction h) (auto simp: distinct_map inj_on_def)
  then show ?thesis by (simp add: rect_list_def)
qed

lemma rect_within_inside:
  "surface_ok s \<Longrightarrow> rect_within s r \<Longrightarrow> (x, y) \<in> rect_points r \<Longrightarrow> inside s x y"
  by (auto simp: rect_within_def rect_points_def inside_def)

lemma rect_list_inside:
  "surface_ok s \<Longrightarrow> rect_within s r \<Longrightarrow> \<forall>(x, y) \<in> set (rect_list r). inside s x y"
  using rect_within_inside by auto

text \<open>
  The pixels after painting, when each colour depends on the memory only through the old pixel and
  through separate surfaces.
\<close>

lemma paint_get_pixel:
  assumes "surface_ok s" "rect_within s r" "inside s u v"
    and "\<And>x y m'. (x, y) \<in> rect_points r \<Longrightarrow>
          surface_sw_get_pixel s m' x y = surface_sw_get_pixel s m x y \<Longrightarrow>
          (\<And>t x' y'. separate s t \<Longrightarrow> inside t x' y' \<Longrightarrow>
             surface_sw_get_pixel t m' x' y' = surface_sw_get_pixel t m x' y') \<Longrightarrow>
          f x y m' = g x y"
  shows "surface_sw_get_pixel s (paint s r f m) u v =
         (if (u, v) \<in> rect_points r then fit s (g u v) else surface_sw_get_pixel s m u v)"
  unfolding paint_fold set_rect_list [symmetric]
  by (rule pixels.paint_get [OF distinct_rect_list rect_list_inside [OF assms(1,2)] assms(3)])
    (use assms(4) in auto)

lemma paint_frame:
  assumes "surface_ok s" "rect_within s r" "a \<notin> cells s (rect_points r)"
  shows "paint s r f m a = m a"
proof -
  have "fold (\<lambda>(x, y) m. surface_sw_set_pixel s m x y (f x y m)) ps m a = m a"
    if "set ps \<subseteq> rect_points r" for ps
    using that
  proof (induction ps arbitrary: m)
    case (Cons p ps)
    then show ?case
      using set_pixel_frame rect_within_inside [OF assms(1,2)] assms(3) by (cases p) (auto simp: cells_def)
  qed simp
  then show ?thesis by (simp add: paint_fold)
qed

section \<open>Fills are paintings\<close>

lemma concat_replicate_Suc: "concat (replicate (Suc n) xs) = concat (replicate n xs) @ xs"
  by (induction n) auto

lemma length_concat_replicate [simp]: "length (concat (replicate n xs)) = n * length xs"
  by (induction n) auto

lemma store_run:
  "for_loop (\<lambda>i m. store_le n m (p + of_nat i * of_nat n) c) w m =
   write_bytes m p (concat (replicate w (le_bytes n c)))"
proof (induction w)
  case (Suc w)
  then show ?case
    by (simp only: for_loop.simps concat_replicate_Suc write_bytes_append store_le_def
        length_concat_replicate le_bytes_length of_nat_mult)
qed simp

text \<open>Copying the first row to the rows below it.\<close>

lemma copy_rows_run:
  assumes "\<And>k. 0 < k \<Longrightarrow> k \<le> h \<Longrightarrow> upward_safe (p + of_nat k * d) p len"
    and "\<And>k. 0 < k \<Longrightarrow> k \<le> h \<Longrightarrow> region (p + of_nat k * d) len \<inter> region p len = {}"
    and "len \<le> 4294967296" "read_bytes m p len = row"
  shows "for_loop (\<lambda>_ (m, q). let q = q + d in (memcpy m q p len, q)) h (m, p) =
    (for_loop (\<lambda>j m. write_bytes m (p + of_nat (Suc j) * d) row) h m, p + of_nat h * d) \<and>
    read_bytes (for_loop (\<lambda>j m. write_bytes m (p + of_nat (Suc j) * d) row) h m) p len = row"
  using assms(1,2)
proof (induction h)
  case (Suc h)
  define m' where "m' = for_loop (\<lambda>j m. write_bytes m (p + of_nat (Suc j) * d) row) h m"
  define q where "q = p + of_nat (Suc h) * d"
  have IH: "for_loop (\<lambda>_ (m, q). let q = q + d in (memcpy m q p len, q)) h (m, p) = (m', p + of_nat h * d)"
    "read_bytes m' p len = row"
    using Suc.IH Suc.prems unfolding m'_def by auto
  have row: "length row = len" using assms(4) by auto
  have "memcpy m' q p len = write_bytes m' q row"
    using memcpy_bytes [OF Suc.prems(1) [of "Suc h"] assms(3)] IH(2) by (simp add: q_def)
  moreover have "p + of_nat h * d + d = q" by (simp add: q_def algebra_simps)
  moreover have "read_bytes (write_bytes m' q row) p len = row"
    using read_write_disjoint [of row len q p m'] row assms(3) Suc.prems(2) [of "Suc h"] IH(2)
    by (simp add: q_def)
  ultimately show ?case using IH(1) by (simp add: m'_def [symmetric] q_def [symmetric] del: of_nat_Suc)
qed (use assms(4) in simp)

lemma pointer_step:
  assumes "1 \<le> bytes_per_pixel (s_info s)" "bytes_per_pixel (s_info s) \<le> 4"
  shows "surface_sw_get_pointer s (x + int i) (y + int j) =
    surface_sw_get_pointer s x y + of_nat j * s_pitch s + of_nat i * of_nat (bytes_per_pixel (s_info s))"
  unfolding get_pointer_address [OF assms] pixel_address_def by (simp add: algebra_simps)

lemma paint_row:
  assumes "1 \<le> bytes_per_pixel (s_info s)" "bytes_per_pixel (s_info s) \<le> 4"
  shows "for_loop (\<lambda>i m. surface_sw_set_pixel s m (x + int i) (y + int j) c) w m =
    write_bytes m (surface_sw_get_pointer s x y + of_nat j * s_pitch s)
      (concat (replicate w (le_bytes (bytes_per_pixel (s_info s)) c)))"
  unfolding set_pixel_store [OF assms] pointer_step [OF assms] by (rule store_run)

lemma rect_start_pointer:
  assumes "1 \<le> bytes_per_pixel (s_info s)" "bytes_per_pixel (s_info s) \<le> 4"
  shows "rect_start s r = surface_sw_get_pointer s (rx r) (ry r)"
  unfolding get_pointer_address [OF assms] pixel_address_def rect_start_def by (simp add: algebra_simps)

text \<open>The rows of a rectangle inside a surface do not overlap.\<close>

lemma rows_apart:
  assumes "surface_ok s" "rect_within s r" "0 < rw r" "0 < k" "int k < rh r"
    and "p = surface_sw_get_pointer s (rx r) (ry r)" "len = nat (rw r) * bytes_per_pixel (s_info s)"
  shows "upward_safe (p + of_nat k * s_pitch s) p len"
    and "region (p + of_nat k * s_pitch s) len \<inter> region p len = {}"
proof -
  let ?b = "int (bytes_per_pixel (s_info s))" and ?P = "uint (s_pitch s)"
  have inside: "inside s (rx r + rw r - 1) (ry r + int k)" "inside s (rx r) (ry r)" "inside s (rx r) (ry r + int k)"
    using assms by (auto simp: inside_def rect_within_def)
  have ok: "1 \<le> bytes_per_pixel (s_info s)" "bytes_per_pixel (s_info s) \<le> 4"
    using assms(1) by (rule surface_okD)+
  have len: "int len = rw r * ?b" using assms(3,7) by simp
  have q: "p + of_nat k * s_pitch s = surface_sw_get_pointer s (rx r) (ry r + int k)"
    using pointer_step [OF ok, of "rx r" 0 "ry r" k] assms(6) by simp
  have up: "uint p = pixel_address s (rx r) (ry r)"
    and uq: "uint (p + of_nat k * s_pitch s) = pixel_address s (rx r) (ry r + int k)"
    using uint_pointer inside assms(6) q by auto
  have diff: "pixel_address s (rx r) (ry r + int k) = pixel_address s (rx r) (ry r) + int k * ?P"
    by (simp add: pixel_address_def algebra_simps)
  have "?P \<le> int k * ?P" using assms(4) by (simp add: mult_le_cancel_right1)
  moreover have "(rx r + rw r - 1) * ?b + ?b \<le> ?P" "0 \<le> rx r * ?b"
    using inside_bounds(4) [OF inside(1)] assms(2) by (simp_all add: rect_within_def)
  then have "int len \<le> ?P" using len by (simp add: algebra_simps)
  ultimately have far: "int len \<le> int k * ?P" by linarith
  have top: "uint (p + of_nat k * s_pitch s) + int len \<le> 4294967296"
    using inside_bounds(2,3) [OF inside(1)] len uq by (simp add: pixel_address_def algebra_simps)
  show "region (p + of_nat k * s_pitch s) len \<inter> region p len = {}"
    using region_range [OF top] region_range [of p len] top far up uq diff by force
  have "uint (p + of_nat k * s_pitch s - p) = int k * ?P"
  proof -
    have "of_nat k * s_pitch s = word_of_int (int k * ?P)" by simp
    moreover have "0 \<le> int k * ?P" "int k * ?P < 4294967296"
      using uint_lt2p [of "p + of_nat k * s_pitch s"] uint_ge_0 [of p] up uq diff by simp_all
    ultimately show ?thesis by (simp only: add_diff_cancel_left' uint_word_of_int) simp
  qed
  then have "int len \<le> int (unat (p + of_nat k * s_pitch s - p))" using far by simp
  then show "upward_safe (p + of_nat k * s_pitch s) p len" 
    unfolding upward_safe_def of_nat_le_iff by blast
qed

lemma fill_rows:
  assumes "surface_ok s" "rect_within s r" "0 < rw r" "0 < rh r"
    and "p = surface_sw_get_pointer s (rx r) (ry r)"
    and "row = concat (replicate (nat (rw r)) (le_bytes (bytes_per_pixel (s_info s)) c))"
  shows "copy_rows s r p (write_bytes m p row) = paint s r (\<lambda>x y m. c) m"
proof -
  let ?b = "bytes_per_pixel (s_info s)" and ?w = "nat (rw r)" and ?h = "nat (rh r)"
  have ok: "1 \<le> ?b" "?b \<le> 4" using assms(1) by (rule surface_okD)+
  have small: "rw r \<le> 536870911" "rh r \<le> 536870911"
    using assms(1,2) by (auto simp: surface_ok_def rect_within_def)
  then have u: "unat (word_of_int (rw r) :: u32w) = ?w" "unat (word_of_int (rh r) :: u32w) = ?h"
    using assms(3,4) by (simp_all add: unat_eq_nat_uint uint_word_of_int)
  have "?w * ?b < 4294967296"
  proof -
    have "?w * ?b \<le> 536870911 * 4" using ok small by (intro mult_le_mono) auto
    then show ?thesis by simp
  qed
  moreover have "of_nat ?b * (word_of_int (rw r) :: u32w) = of_nat (?w * ?b)"
    using assms(3) by (simp add: mult.commute)
  ultimately have len: "unat (of_nat ?b * (word_of_int (rw r) :: u32w)) = ?w * ?b"
    by (simp only: unat_of_nat_addr)
  have lrow: "length row = ?w * ?b" using assms(6) by simp
  define h' where "h' = ?h - 1"
  have h': "?h = Suc h'" using assms(4) by (simp add: h'_def)
  have k: "int k < rh r" if "k \<le> h'" for k using that assms(4) by (simp add: h'_def)
  have run: "fst (for_loop (\<lambda>_ (m, q). let q = q + s_pitch s in (memcpy m q p (?w * ?b), q)) h' (write_bytes m p row, p))
      = for_loop (\<lambda>j m. write_bytes m (p + of_nat (Suc j) * s_pitch s) row) h' (write_bytes m p row)"
    using copy_rows_run [of h' p "s_pitch s" "?w * ?b" "write_bytes m p row" row]
      rows_apart [OF assms(1-3) _ k assms(5) refl] \<open>?w * ?b < 4294967296\<close>
      read_write_bytes [of row m p] lrow
    by simp
  have "paint s r (\<lambda>x y m. c) m = for_loop (\<lambda>j m. write_bytes m (p + of_nat j * s_pitch s) row) ?h m"
    unfolding paint_def assms(5,6) by (rule for_loop_cong) (rule paint_row [OF ok])
  also have "\<dots> = for_loop (\<lambda>j m. write_bytes m (p + of_nat (Suc j) * s_pitch s) row) h' (write_bytes m p row)"
    unfolding h' for_loop_Suc_shift by simp
  finally show ?thesis
    unfolding copy_rows_def Let_def len u(2) h'_def [symmetric] using run by (simp add: Let_def)
qed

lemma first_row:
  assumes "\<And>m t. g m t = store_le n m t c"
  shows "for_loop (\<lambda>_ (m, t). (g m t, t + of_nat n)) w (m, p) =
    (write_bytes m p (concat (replicate w (le_bytes n c))), p + of_nat w * of_nat n)"
  unfolding assms for_loop_step store_run ..

lemma store_16: "store_le 2 m t (c AND 0xffff) = store_le 2 m t c"
proof -
  have "(c AND 0xffff :: u32w) = take_bit 16 c" by (simp add: take_bit_eq_mask mask_eq_exp_minus_1)
  moreover have "le_bytes 2 (take_bit 16 c) = le_bytes 2 c"
    by (simp add: eval_nat_numeral) (intro conjI bit_eqI; auto simp: bit_simps)
  ultimately show ?thesis by (simp only: store_le_def)
qed

lemma fill_replace_rows:
  assumes "1 \<le> bytes_per_pixel (s_info s)" "bytes_per_pixel (s_info s) \<le> 4" "0 \<le> rw r" "rw r \<le> 536870911"
    and "p = surface_sw_get_pointer s (rx r) (ry r)"
  shows "software_fill_replace s m r c =
    copy_rows s r p (write_bytes m p (concat (replicate (nat (rw r)) (le_bytes (bytes_per_pixel (s_info s)) c))))"
proof -
  let ?b = "bytes_per_pixel (s_info s)"
  note ok = assms(1,2)
  have w: "unat (word_of_int (rw r) :: u32w) = nat (rw r)"
    using assms(3,4) by (simp add: unat_eq_nat_uint uint_word_of_int)
  have start: "rect_start s r = p" by (simp add: assms(5) rect_start_pointer [OF ok])
  consider "?b = 1" | "?b = 2" | "?b = 3" | "?b = 4" using ok by linarith
  then show ?thesis
  proof cases
    case 1
    have g: "m(t := ucast (c AND 0xff)) = store_le 1 m t c" for m t by (simp add: store_le_def)
    show ?thesis using first_row [of "\<lambda>m t. m(t := ucast (c AND 0xff))", OF g] 1
      by (simp add: software_fill_replace_def software_fill_replace_1byte_def start w)
  next
    case 2
    show ?thesis using first_row [of "\<lambda>m t. store_le 2 m t (c AND 0xffff)", OF store_16] 2
      by (simp add: software_fill_replace_def software_fill_replace_2byte_def start w Let_def)
  next
    case 3
    have g: "m(t := ucast (c AND 0xff), t + 1 := ucast (drop_bit 8 c AND 0xff), t + 1 + 1 := ucast (drop_bit 16 c AND 0xff))
        = store_le 3 m t c" for m t
      by (simp add: store_le_def eval_nat_numeral)
    have t: "t + 1 + 1 + 1 = t + of_nat 3" for t :: addr by simp
    show ?thesis using first_row [of _ 3, OF g] 3
      by (simp only: software_fill_replace_def software_fill_replace_3byte_def start w Let_def t prod.case) simp
  next
    case 4
    show ?thesis using first_row [of "\<lambda>m t. store_le 4 m t c", OF refl] 4
      by (simp add: software_fill_replace_def software_fill_replace_4byte_def start w)
  qed
qed

lemma fill_replace_paint:
  assumes "surface_ok s" "rect_within s r" "0 < rw r" "0 < rh r"
  shows "software_fill_replace s m r c = paint s r (\<lambda>x y m. c) m"
proof -
  have "rw r \<le> 536870911" using assms by (auto simp: surface_ok_def rect_within_def)
  then show ?thesis
    using fill_replace_rows [OF surface_okD [OF assms(1)] _ _ refl, of r m c] fill_rows [OF assms refl refl, of m c] assms(3)
    by simp
qed

text \<open>With height zero the first row is written all the same.\<close>

lemma fill_replace_height_0:
  assumes "surface_ok s" "0 \<le> rw r" "rw r \<le> 536870911" "rh r = 0"
  shows "software_fill_replace s m r c = paint s (r\<lparr>rh := 1\<rparr>) (\<lambda>x y m. c) m"
proof -
  note ok = surface_okD [OF assms(1)]
  have "software_fill_replace s m r c = write_bytes m (surface_sw_get_pointer s (rx r) (ry r))
      (concat (replicate (nat (rw r)) (le_bytes (bytes_per_pixel (s_info s)) c)))"
    unfolding fill_replace_rows [OF ok assms(2,3) refl] by (simp add: copy_rows_def assms(4))
  then show ?thesis
    using paint_row [OF ok, of "rx r" "ry r" 0 c "nat (rw r)" m] by (simp add: paint_def)
qed

section \<open>Translucent fills\<close>

lemma word_div_mult:
  fixes x n :: u32w
  assumes "uint x mod uint n = 0"
  shows "x div n * n = x"
proof -
  have "uint x div uint n * uint n = uint x" using assms by (simp add: mod_0_imp_dvd)
  moreover have "uint (x div n * n) = (uint x div uint n * uint n) mod 4294967296"
    by (simp add: uint_word_ariths uint_div_distrib)
  ultimately have "uint (x div n * n) = uint x" using uint_lt2p [of x] by simp
  then show ?thesis by (simp only: word_uint_eq_iff)
qed

lemma pitch_skip:
  assumes "uint (s_pitch s) mod 4 = 0" "n \<in> {1, 2, 4 :: nat}"
  shows "(s_pitch s - of_nat n * w) div of_nat n * of_nat n = s_pitch s - of_nat n * w"
proof (rule word_div_mult)
  have n: "uint (of_nat n :: u32w) = int n" using assms(2) by auto
  have dvd: "int n dvd 4294967296" "int n dvd 4" using assms(2) by auto
  have "uint (s_pitch s - of_nat n * w) = (uint (s_pitch s) - int n * uint w) mod 4294967296"
    using n by (simp add: uint_word_ariths mod_simps)
  then have "uint (s_pitch s - of_nat n * w) mod int n = (uint (s_pitch s) - int n * uint w) mod int n"
    using dvd(1) by (simp add: mod_mod_cancel)
  also have "\<dots> = uint (s_pitch s) mod int n" by (simp add: mod_diff_eq [symmetric])
  also have "\<dots> = 0"
  proof -
    have "4 dvd uint (s_pitch s)" using assms(1) by presburger
    then show ?thesis using dvd(2) by (meson dvd_trans dvd_imp_mod_0)
  qed
  finally show "uint (s_pitch s - of_nat n * w) mod uint (of_nat n :: u32w) = 0" by (simp only: n)
qed

lemma sint_small: "- 2147483648 \<le> v \<Longrightarrow> v < 2147483648 \<Longrightarrow> sint (word_of_int v :: u32w) = v"
  by (simp add: int_word_sint)

lemma surface_sint:
  assumes "surface_ok s"
  shows "sint (s_w s) = uint (s_w s)" "sint (s_h s) = uint (s_h s)"
proof -
  have "sint v = uint v" if "uint v \<le> 536870911" for v :: u32w
    using sint_small [of "uint v"] uint_ge_0 [of v] that by simp
  then show "sint (s_w s) = uint (s_w s)" "sint (s_h s) = uint (s_h s)"
    using assms by (simp_all add: surface_ok_def)
qed

definition blended :: "surface_t \<Rightarrow> color_t \<Rightarrow> int \<Rightarrow> int \<Rightarrow> mem \<Rightarrow> u32w" where
  "blended s scol x y m =
     map_pixel_color (s_info s) (blend_color scol (unmap_pixel_color (s_info s) (surface_sw_get_pixel s m x y)))"

lemma blend_at_pixel:
  assumes "1 \<le> bytes_per_pixel (s_info s)" "bytes_per_pixel (s_info s) \<le> 4"
  shows "blend_at s scol (bytes_per_pixel (s_info s)) m (surface_sw_get_pointer s x y) =
    surface_sw_set_pixel s m x y (blended s scol x y m)"
  by (simp add: blend_at_def blended_def set_pixel_store [OF assms] get_pixel_load [OF assms] Let_def)

lemma blend_walk_paint:
  assumes "surface_ok s" "rect_within s r" "0 < rw r" "0 < rh r" "uint (s_pitch s) mod 4 = 0"
    and "n = bytes_per_pixel (s_info s)" "n \<noteq> 3"
    and "skip = (s_pitch s - of_nat n * word_of_int (rw r)) div of_nat n"
  shows "blend_walk s scol n skip r m = paint s r (blended s scol) m"
proof -
  have ok: "1 \<le> bytes_per_pixel (s_info s)" "bytes_per_pixel (s_info s) \<le> 4" using assms(1) by (rule surface_okD)+
  have small: "rw r \<le> 536870911" "rh r \<le> 536870911" "rx r \<le> 536870911" "ry r \<le> 536870911" "0 \<le> rx r" "0 \<le> ry r"
    using assms(1-4) by (auto simp: surface_ok_def rect_within_def)
  have u: "unat (word_of_int (rw r) :: u32w) = nat (rw r)" "unat (word_of_int (rh r) :: u32w) = nat (rh r)"
    using assms(3,4) small by (simp_all add: unat_eq_nat_uint uint_word_of_int)
  have s: "sint (word_of_int (rx r) :: u32w) = rx r" "sint (word_of_int (ry r) :: u32w) = ry r"
    using small by (simp_all add: sint_small)
  define p where "p = surface_sw_get_pointer s (rx r) (ry r)"
  have "n \<in> {1, 2, 4}" using ok assms(6,7) by auto
  from pitch_skip [OF assms(5) this] have skip: "skip * of_nat n = s_pitch s - of_nat n * word_of_int (rw r)"
    using assms(8) by simp
  have w: "of_nat (nat (rw r)) = (word_of_int (rw r) :: u32w)" using assms(3) by simp
  have row: "(let (m, p) = for_loop (\<lambda>_ (m, p). (blend_at s scol n m p, p + of_nat n)) (nat (rw r)) (m, q)
      in (m, p + skip * of_nat n)) =
      (for_loop (\<lambda>i m. blend_at s scol n m (q + of_nat i * of_nat n)) (nat (rw r)) m, q + s_pitch s)" for m q
    unfolding for_loop_step by (simp add: skip w algebra_simps)
  have body: "(\<lambda>_ (m, p). let (m, p) = for_loop (\<lambda>_ (m, p). (blend_at s scol n m p, p + of_nat n)) (nat (rw r)) (m, p)
      in (m, p + skip * of_nat n)) =
      (\<lambda>_ (m, q). (for_loop (\<lambda>i m. blend_at s scol n m (q + of_nat i * of_nat n)) (nat (rw r)) m, q + s_pitch s))"
    by (simp only: row)
  have "blend_walk s scol n skip r m =
      for_loop (\<lambda>j. for_loop (\<lambda>i m. blend_at s scol n m (p + of_nat j * s_pitch s + of_nat i * of_nat n)) (nat (rw r)))
        (nat (rh r)) m"
    unfolding blend_walk_def Let_def [of "word_of_int _"] Let_def [of "surface_sw_get_pointer _ _ _"] u s p_def [symmetric] body
      for_loop_step [of "\<lambda>m q. for_loop (\<lambda>i m. blend_at s scol n m (q + of_nat i * of_nat n)) (nat (rw r)) m"] by simp
  also have "\<dots> = paint s r (blended s scol) m"
    unfolding paint_def blend_at_pixel [OF ok, symmetric] assms(6) pointer_step [OF ok] p_def ..
  finally show ?thesis .
qed

lemma blend_coordinates_paint:
  assumes "surface_ok s" "rect_within s r" "0 < rw r" "0 < rh r"
  shows "for_loop (\<lambda>j m. for_loop (\<lambda>i m.
      surface_sw_set_pixel s m (sint (word_of_int (rx r) + of_nat i :: u32w)) (sint (word_of_int (ry r) + of_nat j :: u32w))
        (blended s scol (sint (word_of_int (rx r) + of_nat i :: u32w)) (sint (word_of_int (ry r) + of_nat j :: u32w)) m))
      (nat (rw r)) m) (nat (rh r)) m = paint s r (blended s scol) m"
proof -
  have small: "rx r + rw r \<le> 536870911" "ry r + rh r \<le> 536870911" "0 \<le> rx r" "0 \<le> ry r"
    using assms(1-4) by (auto simp: surface_ok_def rect_within_def)
  have "sint (word_of_int v + of_nat i :: u32w) = v + int i" if "0 \<le> v" "v + int i < 2147483648" for v i
    using sint_small [of "v + int i"] that by simp
  then show ?thesis unfolding paint_def
    using small by (intro for_loop_cong) auto
qed

text \<open>A translucent fill draws every pixel of the rectangle as a single translucent point.\<close>

lemma fill_alpha_points:
  assumes "surface_ok s" "rect_within s r" "0 < rw r" "0 < rh r" "uint (s_pitch s) mod 4 = 0"
  shows "software_fill_alpha s m r c =
    for_loop (\<lambda>j. for_loop (\<lambda>i m. surface_sw_set_pixel_with_alpha s m (rx r + int i) (ry r + int j) c)
      (nat (rw r))) (nat (rh r)) m"
proof -
  let ?scol = "unmap_pixel_color (s_info s) c" and ?b = "bytes_per_pixel (s_info s)"
  have idle: "for_loop (\<lambda>j. for_loop (\<lambda>i m. m) w) h m = m" for w h
  proof (induction h)
    case (Suc h)
    have "for_loop (\<lambda>i m. m) w t = t" for t :: mem by (induction w) auto
    then show ?case using Suc by simp
  qed simp
  consider "ca ?scol = 255" | "ca ?scol = 0" | "ca ?scol \<noteq> 255" "ca ?scol \<noteq> 0" by blast
  then show ?thesis
  proof cases
    case 1
    then show ?thesis using fill_replace_paint [OF assms(1-4)]
      by (simp add: software_fill_alpha_def surface_sw_set_pixel_with_alpha_def paint_def)
  next
    case 2
    then show ?thesis by (simp add: software_fill_alpha_def surface_sw_set_pixel_with_alpha_def idle)
  next
    case 3
    have u: "unat (word_of_int (rw r) :: u32w) = nat (rw r)" "unat (word_of_int (rh r) :: u32w) = nat (rh r)"
      using assms(1-4) by (auto simp: surface_ok_def rect_within_def unat_eq_nat_uint uint_word_of_int)
    have "?b = 1 \<or> ?b = 2 \<or> ?b = 3 \<or> ?b = 4" using surface_okD [OF assms(1)] by linarith
    then have "software_fill_alpha s m r c = paint s r (blended s ?scol) m"
      using 3 blend_walk_paint [OF assms refl, of _ ?scol m] blend_coordinates_paint [OF assms(1-4), of ?scol m] u
      by (auto simp: software_fill_alpha_def Let_def blended_def)
    then show ?thesis using 3
      by (simp add: paint_def surface_sw_set_pixel_with_alpha_def blended_def Let_def)
  qed
qed

text \<open>Blending stays between the two channel values, so the truncation to eight bits loses nothing.\<close>

lemma blend_channel_between:
  "min (uint s) (uint d) \<le> uint (blend_channel alpha s d) \<and>
   uint (blend_channel alpha s d) \<le> max (uint s) (uint d)"
proof -
  let ?v = "drop_bit 8 ((uint s - uint d) * uint alpha) + uint d"
  have b: "0 \<le> uint s" "uint s \<le> 255" "0 \<le> uint d" "uint d \<le> 255" "0 \<le> uint alpha" "uint alpha \<le> 255"
    using uint_lt2p [of s] uint_lt2p [of d] uint_lt2p [of alpha] by simp_all
  have shift: "drop_bit 8 k = k div 256" for k :: int by (simp add: drop_bit_eq_div)
  have le: "k \<le> e * 256 \<Longrightarrow> k div 256 \<le> e" and ge: "e * 256 \<le> k \<Longrightarrow> e \<le> k div 256" for k e :: int
    by linarith+
  have v: "min (uint s) (uint d) \<le> ?v \<and> ?v \<le> max (uint s) (uint d)"
  proof (cases "uint d \<le> uint s")
    case True
    have "(uint s - uint d) * uint alpha \<le> (uint s - uint d) * 256" using True b by (intro mult_left_mono) auto
    then have "(uint s - uint d) * uint alpha div 256 \<le> uint s - uint d" by (rule le)
    moreover have "0 \<le> (uint s - uint d) * uint alpha div 256" using True b by (simp add: pos_imp_zdiv_nonneg_iff)
    ultimately show ?thesis using True by (simp add: shift)
  next
    case False
    have "(uint s - uint d) * 256 \<le> (uint s - uint d) * uint alpha" using False b by (intro mult_left_mono_neg) auto
    then have "uint s - uint d \<le> (uint s - uint d) * uint alpha div 256" by (rule ge)
    moreover have "(uint s - uint d) * uint alpha \<le> 0" using False b by (simp add: mult_nonpos_nonneg)
    then have "(uint s - uint d) * uint alpha div 256 \<le> 0" using le [of _ 0] by simp
    ultimately show ?thesis using False by (simp add: shift)
  qed
  then have "0 \<le> ?v" "?v \<le> 255" using b by linarith+
  then have "uint (blend_channel alpha s d) = ?v"
    unfolding blend_channel_def uint_word_of_int by simp
  then show ?thesis using v by simp
qed

section \<open>Clip rectangles and new surfaces\<close>

lemma intersect_within:
  assumes "rect_ok r" "rect_within s c" "rect_ok c" "rect_intersect r c = (True, t)"
  shows "rect_within s t" "0 < rw t" "0 < rh t" "rect_points t = rect_points r \<inter> rect_points c"
proof -
  show p: "rect_points t = rect_points r \<inter> rect_points c"
    using rect_points_intersect [OF assms(1,3)] assms(4) by simp
  have ne: "\<not> rect_is_empty t" using assms(4) by (auto simp: rect_intersect_def Let_def split: if_splits)
  then show w: "0 < rw t" "0 < rh t" by (simp_all add: rect_is_empty_def)
  have "(rx t, ry t) \<in> rect_points t" "(rx t + rw t - 1, ry t + rh t - 1) \<in> rect_points t"
    using w by (auto simp: rect_points_def)
  then have "(rx t, ry t) \<in> rect_points c" "(rx t + rw t - 1, ry t + rh t - 1) \<in> rect_points c"
    using p by auto
  then show "rect_within s t" using assms(2) by (auto simp: rect_points_def rect_within_def)
qed

text \<open>The clip rectangle of a surface: a part of the surface, possibly empty.\<close>

definition clip_ok :: "surface_t \<Rightarrow> bool" where
  "clip_ok s \<longleftrightarrow> rect_within s (s_clip s) \<and> 0 \<le> rw (s_clip s) \<and> 0 \<le> rh (s_clip s)"

lemma clip_rect_ok: "surface_ok s \<Longrightarrow> clip_ok s \<Longrightarrow> rect_ok (s_clip s)"
  by (auto simp: clip_ok_def surface_ok_def rect_within_def rect_ok_def edge_ok_def)

text \<open>The pitch is the line length rounded up to a multiple of four.\<close>

lemma uint_and_not_3: "uint (x AND NOT 3 :: u32w) = uint x div 4 * 4"
proof -
  have three: "(3 :: u32w) = mask 2" by (simp add: mask_eq_exp_minus_1)
  show ?thesis unfolding three uint_and_not_mask by simp
qed

lemma line_pitch_value:
  assumes "f \<noteq> PIXEL_FORMAT_GENERIC" "i = set_pixel_info i' f" "uint w \<le> 536870911"
  shows "uint (line_pitch i w) = (uint w * int (bytes_per_pixel i) + 3) div 4 * 4"
proof -
  have b: "bytes_per_pixel i \<in> {1, 2, 3, 4}" "bits_per_pixel i \<noteq> 1" "bits_per_pixel i \<noteq> 4"
    using assms(1,2) by (cases f; simp add: set_pixel_info_def put_layout_def)+
  have "uint w * int (bytes_per_pixel i) + 3 < 4294967296" using b(1) assms(3) by auto
  moreover have "w * of_nat (bytes_per_pixel i) + 3 = word_of_int (uint w * int (bytes_per_pixel i) + 3)" by simp
  moreover have "0 \<le> uint w * int (bytes_per_pixel i) + 3" by simp
  ultimately have "uint (w * of_nat (bytes_per_pixel i) + 3) = uint w * int (bytes_per_pixel i) + 3"
    by (simp only: uint_word_of_int) simp
  then show ?thesis using b(2,3) by (simp only: line_pitch_def Let_def if_False uint_and_not_3)
qed

text \<open>
  A new surface is well formed, its clip rectangle covers it, and its pixels are white, if the
  allocator hands out blocks inside the address space.
\<close>

lemma surface_alloc_parts:
  assumes "surface_alloc xmalloc free fresh hp m 0 w h f = (Some s, hp', m')" "w \<noteq> 0"
  shows "\<exists>hp1 px hp2. s_info s = set_pixel_info (s_info fresh) f \<and> s_w s = w \<and> s_h s = h \<and>
    s_pitch s = line_pitch (s_info s) w \<and> s_clip s = \<lparr>rx = 0, ry = 0, rw = sint w, rh = sint h\<rparr> \<and>
    s_pixels s = px \<and> px \<noteq> 0 \<and> xmalloc hp1 (unat (h * s_pitch s)) = (px, hp2) \<and>
    m' = memset m px 0xff (unat (h * s_pitch s))"
  using assms
  by (auto simp: surface_alloc_def surface_set_clip_rect_def Let_def split: prod.splits if_splits) blast+

lemma surface_alloc_new:
  assumes "surface_alloc xmalloc free fresh hp m 0 w h f = (Some s, hp', m')"
    and "f \<noteq> PIXEL_FORMAT_GENERIC" "w \<noteq> 0" "uint w \<le> 536870911" "uint h \<le> 536870911"
    and "uint h * ((uint w * int (bytes_per_pixel (set_pixel_info (s_info fresh) f)) + 3) div 4 * 4) < 4294967296"
    and blocks: "\<And>hp n p hp'. xmalloc hp n = (p, hp') \<Longrightarrow> p \<noteq> 0 \<Longrightarrow> uint p + int n \<le> 4294967296"
  shows "surface_ok s" "clip_ok s" "uint (s_pitch s) mod 4 = 0"
    and "inside s x y \<Longrightarrow> surface_sw_get_pixel s m' x y = fit s 0xffffffff"
proof -
  obtain hp1 px hp2 where s: "s_info s = set_pixel_info (s_info fresh) f" "s_w s = w" "s_h s = h"
    "s_pitch s = line_pitch (s_info s) w" "s_clip s = \<lparr>rx = 0, ry = 0, rw = sint w, rh = sint h\<rparr>"
    "s_pixels s = px" "px \<noteq> 0" "xmalloc hp1 (unat (h * s_pitch s)) = (px, hp2)"
    "m' = memset m px 0xff (unat (h * s_pitch s))"
    using surface_alloc_parts [OF assms(1,3)] by blast
  let ?b = "int (bytes_per_pixel (s_info s))"
  have b: "bytes_per_pixel (s_info s) \<in> {1, 2, 3, 4}"
    using assms(2) s(1) by (cases f) (simp_all add: set_pixel_info_def put_layout_def)
  have pitch: "uint (s_pitch s) = (uint w * ?b + 3) div 4 * 4"
    using line_pitch_value [OF assms(2) s(1) assms(4)] s(4) by simp
  then show "uint (s_pitch s) mod 4 = 0" by simp
  have "uint h * uint (s_pitch s) < 4294967296" using assms(6) unfolding pitch s(1) .
  moreover have "uint (h * s_pitch s) = (uint h * uint (s_pitch s)) mod 4294967296" by (simp add: uint_word_ariths)
  ultimately have size: "uint (h * s_pitch s) = uint h * uint (s_pitch s)" by simp
  then have top: "uint px + uint h * uint (s_pitch s) \<le> 4294967296"
    using blocks [OF s(8,7)] by simp
  show ok: "surface_ok s"
    using b top assms(4,5) pitch s(2,3,6,7) by (auto simp: surface_ok_def mult.commute)
  show "clip_ok s" using s(2,3,5) surface_sint [OF ok] by (simp add: clip_ok_def rect_within_def)
  assume i: "inside s x y"
  have "m' a = (\<lambda>_. 0xff) a" if "a \<in> pixel_cell s x y" for a
  proof -
    have "a \<in> footprint s" using cell_footprint [OF i] that by auto
    moreover have "int (unat (h * s_pitch s)) = uint h * uint (s_pitch s)" using size by simp
    ultimately have "a \<in> region px (unat (h * s_pitch s))"
      using region_range [of px "unat (h * s_pitch s)" a] top s(3,6) by (simp add: footprint_def)
    then show ?thesis
      using s(9) by (simp add: memset_bytes write_bytes_at region_def unat_bound less_imp_le)
  qed
  from get_pixel_cong [OF i, of m' "\<lambda>_. 0xff", OF this]
  have "surface_sw_get_pixel s m' x y = load_le (bytes_per_pixel (s_info s)) (\<lambda>_. 0xff) (surface_sw_get_pointer s x y)"
    using get_pixel_load [OF surface_okD [OF ok]] by simp
  also have "\<dots> = fit s 0xffffffff"
    using b by (auto simp: load_le_def fit_def eval_nat_numeral take_bit_eq_mask mask_eq_exp_minus_1)
  finally show "surface_sw_get_pixel s m' x y = fit s 0xffffffff" .
qed

text \<open>A screen of four by three pixels of 16 bits each.\<close>

definition small_screen :: surface_t where
  "small_screen = \<lparr>s_info = set_pixel_info some_info PIXEL_FORMAT_RGB_565, s_w = 4, s_h = 3, s_pitch = 8,
     s_flag = SURFACE_PIXELS_DONTFREE, s_pixels = 0x1000, s_clip = \<lparr>rx = 0, ry = 0, rw = 4, rh = 3\<rparr>,
     s_maps = surface_set_maps no_maps, s_priv = 0\<rparr>"

lemma small_screen_info [simp]:
  "s_info small_screen = set_pixel_info some_info PIXEL_FORMAT_RGB_565"
  "bytes_per_pixel (set_pixel_info i PIXEL_FORMAT_RGB_565) = 2"
  "bits_per_pixel (set_pixel_info i PIXEL_FORMAT_RGB_565) = 16"
  "s_clip small_screen = \<lparr>rx = 0, ry = 0, rw = 4, rh = 3\<rparr>"
  by (simp_all add: small_screen_def set_pixel_info_def put_layout_def)

lemma small_screen_ok: "surface_ok small_screen"
  by (simp add: small_screen_def surface_ok_def set_pixel_info_def put_layout_def)

lemma small_screen_clip: "clip_ok small_screen"
  by (simp add: small_screen_def clip_ok_def rect_within_def)

lemma small_screen_inside: "0 \<le> x \<Longrightarrow> x < 4 \<Longrightarrow> 0 \<le> y \<Longrightarrow> y < 3 \<Longrightarrow> inside small_screen x y"
  using small_screen_ok by (simp add: inside_def small_screen_def)

section \<open>Properties\<close>

text \<open>A pixel written to a surface reads back as its value cut to the pixel size, every other pixel
  of the surface is unchanged, and so is every byte outside the pixel's own cell, in all four pixel
  sizes.\<close>

theorem set_pixel_exact:
  assumes "inside s x y" "inside s u v"
  shows "surface_sw_get_pixel s (surface_sw_set_pixel s m x y c) u v =
           (if (u, v) = (x, y) then take_bit (8 * bytes_per_pixel (s_info s)) c
            else surface_sw_get_pixel s m u v) \<and>
         (\<forall>a. a \<notin> pixel_cell s x y \<longrightarrow> surface_sw_set_pixel s m x y c a = m a)"
  using pixels.get_put [OF assms(1)] pixels.get_put_other [OF assms(1,2)] set_pixel_frame [OF assms(1)]
  by (auto simp: fit_def)


lemma set_pixel_exact_witness:
  "surface_sw_get_pixel small_screen (surface_sw_set_pixel small_screen (\<lambda>_. 0) 2 1 0x12345) 2 1 = 0x2345 \<and>
   surface_sw_get_pixel small_screen (surface_sw_set_pixel small_screen (\<lambda>_. 0) 2 1 0x12345) 3 1 =
   surface_sw_get_pixel small_screen (\<lambda>_. 0) 3 1"
  using set_pixel_exact [of small_screen 2 1 2 1 "\<lambda>_. 0" "0x12345"] set_pixel_exact [of small_screen 2 1 3 1 "\<lambda>_. 0" "0x12345"]
    small_screen_inside small_screen_info
  by (simp add: take_bit_eq_mask mask_eq_exp_minus_1)


text \<open>A translucent fill of a rectangle inside the surface draws every pixel of the rectangle, row by
  row, as the single-pixel blend does, in all four pixel sizes and for every opacity; the running
  pointers of the fast loops need a pitch that is a multiple of four.\<close>

theorem fill_alpha_pointwise:
  assumes "surface_ok s" "rect_within s r" "0 < rw r" "0 < rh r" "uint (s_pitch s) mod 4 = 0"
  shows "software_fill_alpha s m r c =
    for_loop (\<lambda>j. for_loop (\<lambda>i m. surface_sw_set_pixel_with_alpha s m (rx r + int i) (ry r + int j) c)
      (nat (rw r))) (nat (rh r)) m"
  using assms by (rule fill_alpha_points)

lemma fill_alpha_pointwise_witness:
  "software_fill_alpha small_screen (\<lambda>_. 0) \<lparr>rx = 1, ry = 1, rw = 2, rh = 2\<rparr> 0xf800 =
    for_loop (\<lambda>j. for_loop (\<lambda>i m. surface_sw_set_pixel_with_alpha small_screen m (1 + int i) (1 + int j) 0xf800) 2) 2 (\<lambda>_. 0)"
  using fill_alpha_pointwise [OF small_screen_ok, of "\<lparr>rx = 1, ry = 1, rw = 2, rh = 2\<rparr>" "\<lambda>_. 0" "0xf800"]
  by (simp add: rect_within_def small_screen_def)

text \<open>Blending a channel gives a value between the two channel values, so storing it in eight bits
  loses nothing.\<close>

theorem blend_channel_in_between:
  "min (uint s) (uint d) \<le> uint (blend_channel alpha s d) \<and>
   uint (blend_channel alpha s d) \<le> max (uint s) (uint d)"
  by (rule blend_channel_between)

text \<open>A clip rectangle of height zero is refused with FALSE but kept, and a fill without a rectangle
  then still writes a row of pixels that the clip rectangle does not contain.\<close>

theorem fill_empty_clip_writes:
  assumes "surface_ok s" "8 \<le> bits_per_pixel (s_info s)" "rect_within s r" "0 < rw r" "rh r = 0" "ry r < uint (s_h s)"
    and "surface_set_clip_rect s (Some r) = (status, clipped)"
    and "map_software_fill (Some clipped) m None c BLEND_MODE_REPLACE = (status', m')"
    and "rx r \<le> x" "x < rx r + rw r"
  shows "\<not> status \<and> rect_points (s_clip clipped) = {} \<and> status' \<and>
    surface_sw_get_pixel clipped m' x (ry r) = take_bit (8 * bytes_per_pixel (s_info s)) c"
proof -
  note sint = surface_sint [OF assms(1)]
  have ok: "rect_ok r" "rect_ok \<lparr>rx = 0, ry = 0, rw = uint (s_w s), rh = uint (s_h s)\<rparr>"
    using assms(1-6) by (auto simp: rect_within_def surface_ok_def rect_ok_def edge_ok_def)
  have "rect_intersect r \<lparr>rx = 0, ry = 0, rw = uint (s_w s), rh = uint (s_h s)\<rparr> = (False, r)"
    using assms(3-6) unfolding rect_intersect_value [OF ok]
    by (auto simp: rect_within_def rect_is_empty_def Let_def)
  then have c: "\<not> status" "clipped = s\<lparr>s_clip := r\<rparr>"
    using assms(7) by (simp_all add: surface_set_clip_rect_def sint)
  have s': "surface_ok clipped" using assms(1) c by (simp add: surface_ok_def)
  have w: "rect_within clipped (r\<lparr>rh := 1\<rparr>)" "inside clipped x (ry r)" "rw r \<le> 536870911"
    using assms(1,3-6,9,10) s' c by (auto simp: rect_within_def inside_def surface_ok_def)
  have m': "status'" "m' = paint clipped (r\<lparr>rh := 1\<rparr>) (\<lambda>x y m. c) m"
    using assms(2,4,5,8) s' c fill_replace_height_0 [OF s', of r m c] w(3)
    by (auto simp: map_software_fill_def surface_ok_def)
  then show ?thesis
    using paint_get_pixel [OF s' w(1,2), of m "\<lambda>x y m. c" "\<lambda>x y. c"] c assms(5,9,10)
    by (simp add: rect_points_def fit_def)
qed

lemma fill_empty_clip_writes_witness:
  "surface_sw_get_pixel (snd (surface_set_clip_rect small_screen (Some \<lparr>rx = 0, ry = 2, rw = 4, rh = 0\<rparr>)))
     (snd (map_software_fill (Some (snd (surface_set_clip_rect small_screen (Some \<lparr>rx = 0, ry = 2, rw = 4, rh = 0\<rparr>))))
        (\<lambda>_. 0) None 0x1f BLEND_MODE_REPLACE)) 3 2 = 0x1f"
  using fill_empty_clip_writes [OF small_screen_ok _ _ _ _ _ prod.collapse [symmetric] prod.collapse [symmetric],
      of "\<lparr>rx = 0, ry = 2, rw = 4, rh = 0\<rparr>" 3 "\<lambda>_. 0" "0x1f"]
  by (simp add: rect_within_def take_bit_eq_mask mask_eq_exp_minus_1) (simp add: small_screen_def)

end
