(* ===== verification/Blit.thy ===== *)
theory Blit
  imports Surface
begin

text \<open>
  Copying a rectangle between surfaces: \<^verbatim>\<open>sw_blit.c\<close> (clipping), \<^verbatim>\<open>sw_blit_replace.c\<close> (the
  generic conversion, the plain copy, the 38 specialised converters between pixel formats and
  their selection) and \<^verbatim>\<open>sw_blit_alpha.c\<close> (translucent copies).
\<close>

section \<open>Opaque copies\<close>

type_synonym blit_fun = "surface_t \<Rightarrow> rect_t \<Rightarrow> surface_t \<Rightarrow> rect_t \<Rightarrow> mem \<Rightarrow> mem"

definition sw_blit_replace_generic :: blit_fun where
  "sw_blit_replace_generic dst dst_rect src src_rect m =
     (let dx = rx dst_rect; dy = ry dst_rect; dw = rw dst_rect; dh = rh dst_rect;
          sx = rx src_rect; sy = ry src_rect
      in for_loop (\<lambda>j. for_loop (\<lambda>i m.
           let sc = surface_sw_get_pixel src m (s32 (sx + int i)) (s32 (sy + int j));
               col = unmap_pixel_color (s_info src) sc;
               dc = map_pixel_color (s_info dst) col
           in surface_sw_set_pixel dst m (s32 (dx + int i)) (s32 (dy + int j)) dc) (nat dw)) (nat dh) m)"

definition sw_blit_replace_directN :: blit_fun where
  "sw_blit_replace_directN dst dst_rect src src_rect m =
     (let dx = rx dst_rect; dy = ry dst_rect; dw = rw dst_rect; dh = rh dst_rect;
          sx = rx src_rect; sy = ry src_rect;
          dpitch = s_pitch dst; spitch = s_pitch src;
          len = s32 (dw * int (bytes_per_pixel (s_info dst)));
          sp = surface_sw_get_pointer src sx sy;
          dp = surface_sw_get_pointer dst dx dy
      in fst (for_loop (\<lambda>_ (m, dp, sp). (memmove m dp sp (unat (word_of_int len :: u32w)), dp + dpitch, sp + spitch))
                (nat dh) (m, dp, sp)))"

text \<open>
  The specialised converters share one shape: two byte pointers run over the rectangles, each step
  reads the \<open>sb\<close> bytes of a source pixel and then writes the \<open>db\<close> bytes of a destination pixel;
  at the end of a row both pointers skip the rest of their lines.  They differ in the bytes they
  write, which is the argument \<open>conv\<close>.
\<close>

definition blit_walk :: "nat \<Rightarrow> nat \<Rightarrow> (u8 list \<Rightarrow> u8 list) \<Rightarrow> blit_fun" where
  "blit_walk db sb conv dst dst_rect src src_rect m =
     (let dx = rx dst_rect; dy = ry dst_rect; dw = rw dst_rect; dh = rh dst_rect;
          sx = rx src_rect; sy = ry src_rect;
          dskip = s_pitch dst - of_nat (bytes_per_pixel (s_info dst)) * word_of_int dw;
          sskip = s_pitch src - of_nat (bytes_per_pixel (s_info src)) * word_of_int dw;
          sp = surface_sw_get_pointer src sx sy;
          dp = surface_sw_get_pointer dst dx dy
      in fst (for_loop (\<lambda>_ (m, dp, sp).
                let (m, dp, sp) = for_loop (\<lambda>_ (m, dp, sp).
                      (write_bytes m dp (conv (read_bytes m sp sb)), dp + of_nat db, sp + of_nat sb)) (nat dw) (m, dp, sp)
                in (m, dp + dskip, sp + sskip)) (nat dh) (m, dp, sp)))"

definition sw_blit_replace_ABGR_8888_ARGB_8888 :: blit_fun where
  "sw_blit_replace_ABGR_8888_ARGB_8888 = blit_walk 4 4 (\<lambda>px.
     let b = px ! 0; g = px ! 1; r = px ! 2; a = px ! 3
     in [r, g, b, a])"

definition sw_blit_replace_ABGR_8888_BGRA_8888 :: blit_fun where
  "sw_blit_replace_ABGR_8888_BGRA_8888 = blit_walk 4 4 (\<lambda>px.
     let a = px ! 0; r = px ! 1; g = px ! 2; b = px ! 3
     in [r, g, b, a])"

definition sw_blit_replace_ABGR_8888_RGBA_8888 :: blit_fun where
  "sw_blit_replace_ABGR_8888_RGBA_8888 = blit_walk 4 4 (\<lambda>px.
     let a = px ! 0; b = px ! 1; g = px ! 2; r = px ! 3
     in [r, g, b, a])"

definition sw_blit_replace_ABGR_8888_BGR_888 :: blit_fun where
  "sw_blit_replace_ABGR_8888_BGR_888 = blit_walk 4 3 (\<lambda>px.
     let r = px ! 0; g = px ! 1; b = px ! 2
     in [r, g, b, 0xff])"

definition sw_blit_replace_ABGR_8888_RGB_888 :: blit_fun where
  "sw_blit_replace_ABGR_8888_RGB_888 = blit_walk 4 3 (\<lambda>px.
     let b = px ! 0; g = px ! 1; r = px ! 2
     in [r, g, b, 0xff])"

definition sw_blit_replace_ABGR_8888_BGR565 :: blit_fun where
  "sw_blit_replace_ABGR_8888_BGR565 = blit_walk 4 2 (\<lambda>px.
     let v = le_word px
     in [ucast (push_bit 3 (v AND 0x001f)), ucast (drop_bit 3 (v AND 0x07e0)), ucast (drop_bit 8 (v AND 0xf800)), 0xff])"

definition sw_blit_replace_ABGR_8888_RGB565 :: blit_fun where
  "sw_blit_replace_ABGR_8888_RGB565 = blit_walk 4 2 (\<lambda>px.
     let v = le_word px
     in [ucast (drop_bit 8 (v AND 0xf800)), ucast (drop_bit 3 (v AND 0x07e0)), ucast (push_bit 3 (v AND 0x001f)), 0xff])"

definition sw_blit_replace_ARGB_8888_ABGR_8888 :: blit_fun where
  "sw_blit_replace_ARGB_8888_ABGR_8888 = blit_walk 4 4 (\<lambda>px.
     let r = px ! 0; g = px ! 1; b = px ! 2; a = px ! 3
     in [b, g, r, a])"

definition sw_blit_replace_ARGB_8888_BGRA_8888 :: blit_fun where
  "sw_blit_replace_ARGB_8888_BGRA_8888 = blit_walk 4 4 (\<lambda>px.
     let a = px ! 0; r = px ! 1; g = px ! 2; b = px ! 3
     in [b, g, r, a])"

definition sw_blit_replace_ARGB_8888_RGBA_8888 :: blit_fun where
  "sw_blit_replace_ARGB_8888_RGBA_8888 = blit_walk 4 4 (\<lambda>px.
     let a = px ! 0; b = px ! 1; g = px ! 2; r = px ! 3
     in [b, g, r, a])"

definition sw_blit_replace_ARGB_8888_BGR_888 :: blit_fun where
  "sw_blit_replace_ARGB_8888_BGR_888 = blit_walk 4 3 (\<lambda>px.
     let r = px ! 0; g = px ! 1; b = px ! 2
     in [b, g, r, 0xff])"

definition sw_blit_replace_ARGB_8888_RGB_888 :: blit_fun where
  "sw_blit_replace_ARGB_8888_RGB_888 = blit_walk 4 3 (\<lambda>px.
     let b = px ! 0; g = px ! 1; r = px ! 2
     in [b, g, r, 0xff])"

definition sw_blit_replace_ARGB_8888_BGR565 :: blit_fun where
  "sw_blit_replace_ARGB_8888_BGR565 = blit_walk 4 2 (\<lambda>px.
     let v = le_word px
     in [ucast (drop_bit 8 (v AND 0xf800)), ucast (drop_bit 3 (v AND 0x07e0)), ucast (push_bit 3 (v AND 0x001f)), 0xff])"

definition sw_blit_replace_ARGB_8888_RGB565 :: blit_fun where
  "sw_blit_replace_ARGB_8888_RGB565 = blit_walk 4 2 (\<lambda>px.
     let v = le_word px
     in [ucast (push_bit 3 (v AND 0x001f)), ucast (drop_bit 3 (v AND 0x07e0)), ucast (drop_bit 8 (v AND 0xf800)), 0xff])"

definition sw_blit_replace_BGRA_8888_ABGR_8888 :: blit_fun where
  "sw_blit_replace_BGRA_8888_ABGR_8888 = blit_walk 4 4 (\<lambda>px.
     let r = px ! 0; g = px ! 1; b = px ! 2; a = px ! 3
     in [a, r, g, b])"

definition sw_blit_replace_BGRA_8888_ARGB_8888 :: blit_fun where
  "sw_blit_replace_BGRA_8888_ARGB_8888 = blit_walk 4 4 (\<lambda>px.
     let b = px ! 0; g = px ! 1; r = px ! 2; a = px ! 3
     in [a, r, g, b])"

definition sw_blit_replace_BGRA_8888_RGBA_8888 :: blit_fun where
  "sw_blit_replace_BGRA_8888_RGBA_8888 = blit_walk 4 4 (\<lambda>px.
     let a = px ! 0; b = px ! 1; g = px ! 2; r = px ! 3
     in [a, r, g, b])"

definition sw_blit_replace_BGRA_8888_BGR_888 :: blit_fun where
  "sw_blit_replace_BGRA_8888_BGR_888 = blit_walk 4 3 (\<lambda>px.
     let r = px ! 0; g = px ! 1; b = px ! 2
     in [0xff, r, g, b])"

definition sw_blit_replace_BGRA_8888_RGB_888 :: blit_fun where
  "sw_blit_replace_BGRA_8888_RGB_888 = blit_walk 4 3 (\<lambda>px.
     let b = px ! 0; g = px ! 1; r = px ! 2
     in [0xff, r, g, b])"

definition sw_blit_replace_BGRA_8888_BGR565 :: blit_fun where
  "sw_blit_replace_BGRA_8888_BGR565 = blit_walk 4 2 (\<lambda>px.
     let v = le_word px
     in [0xff, ucast (push_bit 3 (v AND 0x001f)), ucast (drop_bit 3 (v AND 0x07e0)), ucast (drop_bit 8 (v AND 0xf800))])"

definition sw_blit_replace_BGRA_8888_RGB565 :: blit_fun where
  "sw_blit_replace_BGRA_8888_RGB565 = blit_walk 4 2 (\<lambda>px.
     let v = le_word px
     in [0xff, ucast (drop_bit 8 (v AND 0xf800)), ucast (drop_bit 3 (v AND 0x07e0)), ucast (push_bit 3 (v AND 0x001f))])"

definition sw_blit_replace_RGBA_8888_ABGR_8888 :: blit_fun where
  "sw_blit_replace_RGBA_8888_ABGR_8888 = blit_walk 4 4 (\<lambda>px.
     let r = px ! 0; g = px ! 1; b = px ! 2; a = px ! 3
     in [a, b, g, r])"

definition sw_blit_replace_RGBA_8888_ARGB_8888 :: blit_fun where
  "sw_blit_replace_RGBA_8888_ARGB_8888 = blit_walk 4 4 (\<lambda>px.
     let b = px ! 0; g = px ! 1; r = px ! 2; a = px ! 3
     in [a, b, g, r])"

definition sw_blit_replace_RGBA_8888_BGRA_8888 :: blit_fun where
  "sw_blit_replace_RGBA_8888_BGRA_8888 = blit_walk 4 4 (\<lambda>px.
     let a = px ! 0; r = px ! 1; g = px ! 2; b = px ! 3
     in [a, b, g, r])"

definition sw_blit_replace_RGBA_8888_BGR_888 :: blit_fun where
  "sw_blit_replace_RGBA_8888_BGR_888 = blit_walk 4 3 (\<lambda>px.
     let r = px ! 0; g = px ! 1; b = px ! 2
     in [0xff, b, g, r])"

definition sw_blit_replace_RGBA_8888_RGB_888 :: blit_fun where
  "sw_blit_replace_RGBA_8888_RGB_888 = blit_walk 4 3 (\<lambda>px.
     let b = px ! 0; g = px ! 1; r = px ! 2
     in [0xff, b, g, r])"

definition sw_blit_replace_RGBA_8888_BGR565 :: blit_fun where
  "sw_blit_replace_RGBA_8888_BGR565 = blit_walk 4 2 (\<lambda>px.
     let v = le_word px
     in [0xff, ucast (drop_bit 8 (v AND 0xf800)), ucast (drop_bit 3 (v AND 0x07e0)), ucast (push_bit 3 (v AND 0x001f))])"

definition sw_blit_replace_RGBA_8888_RGB565 :: blit_fun where
  "sw_blit_replace_RGBA_8888_RGB565 = blit_walk 4 2 (\<lambda>px.
     let v = le_word px
     in [0xff, ucast (push_bit 3 (v AND 0x001f)), ucast (drop_bit 3 (v AND 0x07e0)), ucast (drop_bit 8 (v AND 0xf800))])"

definition sw_blit_replace_BGR_888_ABGR_8888 :: blit_fun where
  "sw_blit_replace_BGR_888_ABGR_8888 = blit_walk 3 4 (\<lambda>px.
     let r = px ! 0; g = px ! 1; b = px ! 2; a = px ! 3
     in [r, g, b])"

definition sw_blit_replace_BGR_888_ARGB_8888 :: blit_fun where
  "sw_blit_replace_BGR_888_ARGB_8888 = blit_walk 3 4 (\<lambda>px.
     let b = px ! 0; g = px ! 1; r = px ! 2; a = px ! 3
     in [r, g, b])"

definition sw_blit_replace_BGR_888_BGRA_8888 :: blit_fun where
  "sw_blit_replace_BGR_888_BGRA_8888 = blit_walk 3 4 (\<lambda>px.
     let a = px ! 0; r = px ! 1; g = px ! 2; b = px ! 3
     in [r, g, b])"

definition sw_blit_replace_BGR_888_RGBA_8888 :: blit_fun where
  "sw_blit_replace_BGR_888_RGBA_8888 = blit_walk 3 4 (\<lambda>px.
     let a = px ! 0; b = px ! 1; g = px ! 2; r = px ! 3
     in [r, g, b])"

definition sw_blit_replace_BGR_888_RGB_888 :: blit_fun where
  "sw_blit_replace_BGR_888_RGB_888 = blit_walk 3 3 (\<lambda>px.
     let b = px ! 0; g = px ! 1; r = px ! 2
     in [r, g, b])"

definition sw_blit_replace_RGB_888_ABGR_8888 :: blit_fun where
  "sw_blit_replace_RGB_888_ABGR_8888 = blit_walk 3 4 (\<lambda>px.
     let r = px ! 0; g = px ! 1; b = px ! 2; a = px ! 3
     in [b, g, r])"

definition sw_blit_replace_RGB_888_ARGB_8888 :: blit_fun where
  "sw_blit_replace_RGB_888_ARGB_8888 = blit_walk 3 4 (\<lambda>px.
     let b = px ! 0; g = px ! 1; r = px ! 2; a = px ! 3
     in [b, g, r])"

definition sw_blit_replace_RGB_888_BGRA_8888 :: blit_fun where
  "sw_blit_replace_RGB_888_BGRA_8888 = blit_walk 3 4 (\<lambda>px.
     let a = px ! 0; r = px ! 1; g = px ! 2; b = px ! 3
     in [b, g, r])"

definition sw_blit_replace_RGB_888_RGBA_8888 :: blit_fun where
  "sw_blit_replace_RGB_888_RGBA_8888 = blit_walk 3 4 (\<lambda>px.
     let a = px ! 0; b = px ! 1; g = px ! 2; r = px ! 3
     in [b, g, r])"

definition sw_blit_replace_RGB_888_BGR_888 :: blit_fun where
  "sw_blit_replace_RGB_888_BGR_888 = blit_walk 3 3 (\<lambda>px.
     let r = px ! 0; g = px ! 1; b = px ! 2
     in [b, g, r])"

definition sw_blit_replace :: blit_fun where
  "sw_blit_replace dst dst_rect src src_rect m =
     (case fmt (s_info dst) of
       PIXEL_FORMAT_ABGR_8888 \<Rightarrow>
       (case fmt (s_info src) of
           PIXEL_FORMAT_ABGR_8888 \<Rightarrow> sw_blit_replace_directN dst dst_rect src src_rect m
         | PIXEL_FORMAT_ARGB_8888 \<Rightarrow> sw_blit_replace_ABGR_8888_ARGB_8888 dst dst_rect src src_rect m
         | PIXEL_FORMAT_BGRA_8888 \<Rightarrow> sw_blit_replace_ABGR_8888_BGRA_8888 dst dst_rect src src_rect m
         | PIXEL_FORMAT_RGBA_8888 \<Rightarrow> sw_blit_replace_ABGR_8888_RGBA_8888 dst dst_rect src src_rect m
         | PIXEL_FORMAT_BGR_888 \<Rightarrow> sw_blit_replace_ABGR_8888_BGR_888 dst dst_rect src src_rect m
         | PIXEL_FORMAT_RGB_888 \<Rightarrow> sw_blit_replace_ABGR_8888_RGB_888 dst dst_rect src src_rect m
         | PIXEL_FORMAT_BGR_565 \<Rightarrow> sw_blit_replace_ABGR_8888_BGR565 dst dst_rect src src_rect m
         | PIXEL_FORMAT_RGB_565 \<Rightarrow> sw_blit_replace_ABGR_8888_RGB565 dst dst_rect src src_rect m
         | _ \<Rightarrow> sw_blit_replace_generic dst dst_rect src src_rect m)
     | PIXEL_FORMAT_ARGB_8888 \<Rightarrow>
       (case fmt (s_info src) of
           PIXEL_FORMAT_ABGR_8888 \<Rightarrow> sw_blit_replace_ARGB_8888_ABGR_8888 dst dst_rect src src_rect m
         | PIXEL_FORMAT_ARGB_8888 \<Rightarrow> sw_blit_replace_directN dst dst_rect src src_rect m
         | PIXEL_FORMAT_BGRA_8888 \<Rightarrow> sw_blit_replace_ARGB_8888_BGRA_8888 dst dst_rect src src_rect m
         | PIXEL_FORMAT_RGBA_8888 \<Rightarrow> sw_blit_replace_ARGB_8888_RGBA_8888 dst dst_rect src src_rect m
         | PIXEL_FORMAT_BGR_888 \<Rightarrow> sw_blit_replace_ARGB_8888_BGR_888 dst dst_rect src src_rect m
         | PIXEL_FORMAT_RGB_888 \<Rightarrow> sw_blit_replace_ARGB_8888_RGB_888 dst dst_rect src src_rect m
         | PIXEL_FORMAT_BGR_565 \<Rightarrow> sw_blit_replace_ARGB_8888_BGR565 dst dst_rect src src_rect m
         | PIXEL_FORMAT_RGB_565 \<Rightarrow> sw_blit_replace_ARGB_8888_RGB565 dst dst_rect src src_rect m
         | _ \<Rightarrow> sw_blit_replace_generic dst dst_rect src src_rect m)
     | PIXEL_FORMAT_BGRA_8888 \<Rightarrow>
       (case fmt (s_info src) of
           PIXEL_FORMAT_ABGR_8888 \<Rightarrow> sw_blit_replace_BGRA_8888_ABGR_8888 dst dst_rect src src_rect m
         | PIXEL_FORMAT_ARGB_8888 \<Rightarrow> sw_blit_replace_BGRA_8888_ARGB_8888 dst dst_rect src src_rect m
         | PIXEL_FORMAT_BGRA_8888 \<Rightarrow> sw_blit_replace_directN dst dst_rect src src_rect m
         | PIXEL_FORMAT_RGBA_8888 \<Rightarrow> sw_blit_replace_BGRA_8888_RGBA_8888 dst dst_rect src src_rect m
         | PIXEL_FORMAT_BGR_888 \<Rightarrow> sw_blit_replace_BGRA_8888_BGR_888 dst dst_rect src src_rect m
         | PIXEL_FORMAT_RGB_888 \<Rightarrow> sw_blit_replace_BGRA_8888_RGB_888 dst dst_rect src src_rect m
         | PIXEL_FORMAT_BGR_565 \<Rightarrow> sw_blit_replace_BGRA_8888_BGR565 dst dst_rect src src_rect m
         | PIXEL_FORMAT_RGB_565 \<Rightarrow> sw_blit_replace_BGRA_8888_RGB565 dst dst_rect src src_rect m
         | _ \<Rightarrow> sw_blit_replace_generic dst dst_rect src src_rect m)
     | PIXEL_FORMAT_RGBA_8888 \<Rightarrow>
       (case fmt (s_info src) of
           PIXEL_FORMAT_ABGR_8888 \<Rightarrow> sw_blit_replace_RGBA_8888_ABGR_8888 dst dst_rect src src_rect m
         | PIXEL_FORMAT_ARGB_8888 \<Rightarrow> sw_blit_replace_RGBA_8888_ARGB_8888 dst dst_rect src src_rect m
         | PIXEL_FORMAT_BGRA_8888 \<Rightarrow> sw_blit_replace_RGBA_8888_BGRA_8888 dst dst_rect src src_rect m
         | PIXEL_FORMAT_RGBA_8888 \<Rightarrow> sw_blit_replace_directN dst dst_rect src src_rect m
         | PIXEL_FORMAT_BGR_888 \<Rightarrow> sw_blit_replace_RGBA_8888_BGR_888 dst dst_rect src src_rect m
         | PIXEL_FORMAT_RGB_888 \<Rightarrow> sw_blit_replace_RGBA_8888_RGB_888 dst dst_rect src src_rect m
         | PIXEL_FORMAT_BGR_565 \<Rightarrow> sw_blit_replace_RGBA_8888_BGR565 dst dst_rect src src_rect m
         | PIXEL_FORMAT_RGB_565 \<Rightarrow> sw_blit_replace_RGBA_8888_RGB565 dst dst_rect src src_rect m
         | _ \<Rightarrow> sw_blit_replace_generic dst dst_rect src src_rect m)
     | PIXEL_FORMAT_BGR_888 \<Rightarrow>
       (case fmt (s_info src) of
           PIXEL_FORMAT_ABGR_8888 \<Rightarrow> sw_blit_replace_BGR_888_ABGR_8888 dst dst_rect src src_rect m
         | PIXEL_FORMAT_ARGB_8888 \<Rightarrow> sw_blit_replace_BGR_888_ARGB_8888 dst dst_rect src src_rect m
         | PIXEL_FORMAT_BGRA_8888 \<Rightarrow> sw_blit_replace_BGR_888_BGRA_8888 dst dst_rect src src_rect m
         | PIXEL_FORMAT_RGBA_8888 \<Rightarrow> sw_blit_replace_BGR_888_RGBA_8888 dst dst_rect src src_rect m
         | PIXEL_FORMAT_BGR_888 \<Rightarrow> sw_blit_replace_directN dst dst_rect src src_rect m
         | PIXEL_FORMAT_RGB_888 \<Rightarrow> sw_blit_replace_BGR_888_RGB_888 dst dst_rect src src_rect m
         | _ \<Rightarrow> sw_blit_replace_generic dst dst_rect src src_rect m)
     | PIXEL_FORMAT_RGB_888 \<Rightarrow>
       (case fmt (s_info src) of
           PIXEL_FORMAT_ABGR_8888 \<Rightarrow> sw_blit_replace_RGB_888_ABGR_8888 dst dst_rect src src_rect m
         | PIXEL_FORMAT_ARGB_8888 \<Rightarrow> sw_blit_replace_RGB_888_ARGB_8888 dst dst_rect src src_rect m
         | PIXEL_FORMAT_BGRA_8888 \<Rightarrow> sw_blit_replace_RGB_888_BGRA_8888 dst dst_rect src src_rect m
         | PIXEL_FORMAT_RGBA_8888 \<Rightarrow> sw_blit_replace_RGB_888_RGBA_8888 dst dst_rect src src_rect m
         | PIXEL_FORMAT_BGR_888 \<Rightarrow> sw_blit_replace_RGB_888_BGR_888 dst dst_rect src src_rect m
         | PIXEL_FORMAT_RGB_888 \<Rightarrow> sw_blit_replace_directN dst dst_rect src src_rect m
         | _ \<Rightarrow> sw_blit_replace_generic dst dst_rect src src_rect m)
     | PIXEL_FORMAT_BGR_565 \<Rightarrow>
       (case fmt (s_info src) of
           PIXEL_FORMAT_BGR_565 \<Rightarrow> sw_blit_replace_directN dst dst_rect src src_rect m
         | _ \<Rightarrow> sw_blit_replace_generic dst dst_rect src src_rect m)
     | PIXEL_FORMAT_RGB_565 \<Rightarrow>
       (case fmt (s_info src) of
           PIXEL_FORMAT_RGB_565 \<Rightarrow> sw_blit_replace_directN dst dst_rect src src_rect m
         | _ \<Rightarrow> sw_blit_replace_generic dst dst_rect src src_rect m)
     | PIXEL_FORMAT_BGR_332 \<Rightarrow>
       (case fmt (s_info src) of
           PIXEL_FORMAT_BGR_332 \<Rightarrow> sw_blit_replace_directN dst dst_rect src src_rect m
         | _ \<Rightarrow> sw_blit_replace_generic dst dst_rect src src_rect m)
     | PIXEL_FORMAT_RGB_332 \<Rightarrow>
       (case fmt (s_info src) of
           PIXEL_FORMAT_RGB_332 \<Rightarrow> sw_blit_replace_directN dst dst_rect src src_rect m
         | _ \<Rightarrow> sw_blit_replace_generic dst dst_rect src src_rect m)
     | _ \<Rightarrow> sw_blit_replace_generic dst dst_rect src src_rect m)"

section \<open>Translucent copies\<close>

definition sw_blit_alpha_generic :: blit_fun where
  "sw_blit_alpha_generic dst dst_rect src src_rect m =
     (let dx = rx dst_rect; dy = ry dst_rect; dw = rw dst_rect; dh = rh dst_rect;
          sx = rx src_rect; sy = ry src_rect
      in for_loop (\<lambda>j. for_loop (\<lambda>i m.
           let sc = surface_sw_get_pixel src m (s32 (sx + int i)) (s32 (sy + int j));
               scol = unmap_pixel_color (s_info src) sc;
               alpha = ca scol
           in if alpha = 0xff then surface_sw_set_pixel dst m (s32 (dx + int i)) (s32 (dy + int j)) sc
              else if alpha = 0 then m
              else
                (let dc = surface_sw_get_pixel dst m (s32 (dx + int i)) (s32 (dy + int j));
                     dcol = unmap_pixel_color (s_info dst) dc;
                     col = blend_color scol dcol;
                     dc = map_pixel_color (s_info dst) col
                 in surface_sw_set_pixel dst m (s32 (dx + int i)) (s32 (dy + int j)) dc)) (nat dw)) (nat dh) m)"

definition sw_blit_alpha :: blit_fun where
  "sw_blit_alpha dst dst_rect src src_rect m = sw_blit_alpha_generic dst dst_rect src src_rect m"

section \<open>Clipping\<close>

text \<open>
  The source rectangle is cut to the source surface on each axis (position, length and destination
  position move together), then the destination to the clip rectangle.
\<close>

definition clip_source :: "int \<Rightarrow> int \<Rightarrow> int \<Rightarrow> u32w \<Rightarrow> int \<times> int \<times> int" where
  "clip_source x w d size' =
     (let (w, d, x) = (if x < 0 then (s32 (w + x), s32 (d - x), 0) else (w, d, x));
          maxw = sint (size' - word_of_int x)
      in (x, if maxw < w then maxw else w, d))"

definition clip_target :: "int \<Rightarrow> int \<Rightarrow> int \<times> int \<times> int \<Rightarrow> int \<times> int \<times> int" where
  "clip_target cx cw xwd =
     (let (x, w, d) = xwd;
          dx = s32 (cx - d);
          (w, d, x) = (if dx > 0 then (s32 (w - dx), s32 (d + dx), s32 (x + dx)) else (w, d, x));
          dx = s32 (s32 (s32 (d + w) - cx) - cw)
      in (x, if dx > 0 then s32 (w - dx) else w, d))"

definition blit_clip :: "surface_t \<Rightarrow> rect_t option \<Rightarrow> surface_t \<Rightarrow> rect_t option \<Rightarrow> (rect_t \<times> rect_t) option" where
  "blit_clip dst dst_rect src src_rect =
     (let dr = (case dst_rect of
                  None \<Rightarrow> \<lparr>rx = 0, ry = 0, rw = sint (s_w dst), rh = sint (s_h dst)\<rparr>
                | Some r \<Rightarrow> r);
          (hor, ver) = (case src_rect of
                  Some r \<Rightarrow> (clip_source (rx r) (rw r) (rx dr) (s_w src), clip_source (ry r) (rh r) (ry dr) (s_h src))
                | None \<Rightarrow> ((0, sint (s_w src), rx dr), (0, sint (s_h src), ry dr)));
          (x, w, dx) = clip_target (rx (s_clip dst)) (rw (s_clip dst)) hor;
          (y, h, dy) = clip_target (ry (s_clip dst)) (rh (s_clip dst)) ver
      in if w > 0 \<and> h > 0
         then Some (\<lparr>rx = dx, ry = dy, rw = w, rh = h\<rparr>, \<lparr>rx = x, ry = y, rw = w, rh = h\<rparr>)
         else None)"

definition map_software_blit ::
  "surface_t option \<Rightarrow> rect_t option \<Rightarrow> surface_t option \<Rightarrow> rect_t option \<Rightarrow> blend_mode \<Rightarrow> mem \<Rightarrow> bool \<times> mem" where
  "map_software_blit dst dst_rect src src_rect mode m =
     (case (dst, src) of
        (Some d, Some s) \<Rightarrow>
          (case blit_clip d dst_rect s src_rect of
             Some (dr, sr) \<Rightarrow>
               (case mode of
                  BLEND_MODE_REPLACE \<Rightarrow> (True, sw_blit_replace d dr s sr m)
                | BLEND_MODE_ALPHA \<Rightarrow> (True, sw_blit_alpha d dr s sr m))
           | None \<Rightarrow> (True, m))
      | _ \<Rightarrow> (False, m))"

definition surface_blit ::
  "surface_t option \<Rightarrow> rect_t option \<Rightarrow> surface_t option \<Rightarrow> rect_t option \<Rightarrow> blend_mode \<Rightarrow> mem \<Rightarrow> bool \<times> mem" where
  "surface_blit dst dst_rect src src_rect mode m =
     (case (dst, src) of
        (Some d, Some s) \<Rightarrow>
          (case m_blit (s_maps d) of
             None \<Rightarrow> (False, m)
           | Some Map_software_blit \<Rightarrow> map_software_blit dst dst_rect src src_rect mode m)
      | _ \<Rightarrow> (False, m))"

section \<open>Byte views of the formats\<close>

lemma le_bytes_nth: "k < n \<Longrightarrow> le_bytes n c ! k = ucast (drop_bit (8 * k) c)"
proof (induction n arbitrary: c k)
  case (Suc n)
  then show ?case by (cases k) (auto simp: drop_bit_drop_bit add.commute)
qed simp

lemma drop_byte [simp]: "drop_bit 8 (x :: u8) = 0"
  by (rule bit_eqI) (auto simp: bit_simps dest: bit_imp_le_length)

lemma unmap_byte:
  assumes "pos + 8 \<le> 32"
  shows "ucast (unmap_channel pos 8 c AND 255) = (ucast (drop_bit pos c) :: u8)"
  using bit_unmap_channel [of 8 pos c] assms by (intro bit_eqI) (auto simp: bit_simps)

lemma unmap_byte_nth:
  assumes "length px \<le> 4" "k < length px"
  shows "(ucast (unmap_channel (8 * k) 8 (le_word px) AND 255) :: u8) = px ! k"
proof -
  have "(ucast (unmap_channel (8 * k) 8 (le_word px) AND 255) :: u8) = le_bytes (length px) (le_word px) ! k"
    using assms unmap_byte [of "8 * k" "le_word px"] le_bytes_nth [of k "length px"] by simp
  then show ?thesis using le_bytes_word [OF assms(1)] by simp
qed

lemma unmap_bytes:
  assumes "length px \<le> 4"
  shows "0 < length px \<Longrightarrow> (ucast (unmap_channel 0 8 (le_word px) AND 255) :: u8) = px ! 0"
    "1 < length px \<Longrightarrow> (ucast (unmap_channel 8 8 (le_word px) AND 255) :: u8) = px ! 1"
    "2 < length px \<Longrightarrow> (ucast (unmap_channel 16 8 (le_word px) AND 255) :: u8) = px ! 2"
    "3 < length px \<Longrightarrow> (ucast (unmap_channel 24 8 (le_word px) AND 255) :: u8) = px ! 3"
  using unmap_byte_nth [OF assms, of 0] unmap_byte_nth [OF assms, of 1] unmap_byte_nth [OF assms, of 2]
    unmap_byte_nth [OF assms, of 3] by simp_all

lemma le_bytes_or: "le_bytes n (a OR b) = map2 (OR) (le_bytes n a) (le_bytes n b)"
proof (induction n arbitrary: a b)
  case (Suc n)
  have "(ucast (a OR b) :: u8) = ucast a OR ucast b" by (rule bit_eqI) (auto simp: bit_simps)
  then show ?case using Suc by simp
qed simp

lemma le_bytes_push:
  "le_bytes (Suc n) (push_bit 8 c) = 0 # le_bytes n (take_bit 24 c)"
proof -
  have "(ucast (push_bit 8 c :: u32w) :: u8) = 0" by (rule bit_eqI) (auto simp: bit_simps)
  moreover have "drop_bit 8 (push_bit 8 c :: u32w) = take_bit 24 c" by (rule bit_eqI) (auto simp: bit_simps)
  ultimately show ?thesis by simp
qed

lemma le_bytes_0: "le_bytes n 0 = replicate n 0"
  by (induction n) auto

lemma le_bytes_field:
  "le_bytes 4 (ucast (r :: u8)) = [r, 0, 0, 0]" "le_bytes 3 (ucast r) = [r, 0, 0]"
  "le_bytes 4 (push_bit 8 (ucast r)) = [0, r, 0, 0]" "le_bytes 3 (push_bit 8 (ucast r)) = [0, r, 0]"
  "le_bytes 4 (push_bit 16 (ucast r)) = [0, 0, r, 0]" "le_bytes 3 (push_bit 16 (ucast r)) = [0, 0, r]"
  "le_bytes 4 (push_bit 24 (ucast r)) = [0, 0, 0, r]"
proof -
  have d: "drop_bit 8 (ucast r :: u32w) = 0"
    by (rule bit_eqI) (auto simp: bit_simps dest: bit_imp_le_length)
  have t: "take_bit 24 (ucast r :: u32w) = ucast r" "take_bit 24 (push_bit 8 (ucast r :: u32w)) = push_bit 8 (ucast r)"
    "take_bit 24 (push_bit 16 (ucast r :: u32w)) = push_bit 16 (ucast r)"
    by (rule bit_eqI; auto simp: bit_simps dest: bit_imp_le_length)+
  have n: "(4 :: nat) = Suc 3" "(3 :: nat) = Suc 2" "(2 :: nat) = Suc 1" "(1 :: nat) = Suc 0" by simp_all
  have p: "push_bit 16 c = push_bit 8 (push_bit 8 c)" "push_bit 24 c = push_bit 8 (push_bit 16 c)" for c :: u32w
    by simp_all
  have u: "ucast (ucast r :: u32w) = r" by (rule bit_eqI) (auto simp: bit_simps)
  have base: "le_bytes (Suc n) (ucast r) = r # replicate n 0" for n by (simp add: d u le_bytes_0)
  show "le_bytes 4 (ucast (r :: u8)) = [r, 0, 0, 0]" "le_bytes 3 (ucast r) = [r, 0, 0]"
    unfolding n(1,2) base by (simp_all add: eval_nat_numeral)
  show "le_bytes 4 (push_bit 8 (ucast r)) = [0, r, 0, 0]" "le_bytes 3 (push_bit 8 (ucast r)) = [0, r, 0]"
    unfolding n(1,2) le_bytes_push t unfolding n(2,3) base by (simp_all add: eval_nat_numeral)
  show "le_bytes 4 (push_bit 16 (ucast r)) = [0, 0, r, 0]" "le_bytes 3 (push_bit 16 (ucast r)) = [0, 0, r]"
    unfolding n(1,2) p(1) le_bytes_push t unfolding n(2,3) le_bytes_push t unfolding n(3,4) base by (simp_all add: eval_nat_numeral)
  show "le_bytes 4 (push_bit 24 (ucast r)) = [0, 0, 0, r]"
    unfolding n(1) p(2) le_bytes_push t unfolding n(2) p(1) le_bytes_push t unfolding n(3) le_bytes_push t unfolding n(4) base by simp
qed

text \<open>The bytes of a pixel in each format with eight bits per channel.\<close>

lemma unmap_format:
  "length px = 4 \<Longrightarrow> unmap_pixel_color (set_pixel_info i PIXEL_FORMAT_ABGR_8888) (le_word px) = \<lparr>cr = px ! 0, cg = px ! 1, cb = px ! 2, ca = px ! 3\<rparr>"
  "length px = 4 \<Longrightarrow> unmap_pixel_color (set_pixel_info i PIXEL_FORMAT_ARGB_8888) (le_word px) = \<lparr>cr = px ! 2, cg = px ! 1, cb = px ! 0, ca = px ! 3\<rparr>"
  "length px = 4 \<Longrightarrow> unmap_pixel_color (set_pixel_info i PIXEL_FORMAT_BGRA_8888) (le_word px) = \<lparr>cr = px ! 1, cg = px ! 2, cb = px ! 3, ca = px ! 0\<rparr>"
  "length px = 4 \<Longrightarrow> unmap_pixel_color (set_pixel_info i PIXEL_FORMAT_RGBA_8888) (le_word px) = \<lparr>cr = px ! 3, cg = px ! 2, cb = px ! 1, ca = px ! 0\<rparr>"
  "length px = 3 \<Longrightarrow> unmap_pixel_color (set_pixel_info i PIXEL_FORMAT_BGR_888) (le_word px) = \<lparr>cr = px ! 0, cg = px ! 1, cb = px ! 2, ca = 255\<rparr>"
  "length px = 3 \<Longrightarrow> unmap_pixel_color (set_pixel_info i PIXEL_FORMAT_RGB_888) (le_word px) = \<lparr>cr = px ! 2, cg = px ! 1, cb = px ! 0, ca = 255\<rparr>"
  by (simp_all add: unmap_pixel_color_def set_pixel_info_def put_layout_def unmap_bytes del: ucast_and_ff)

lemma map_format:
  "le_bytes 4 (map_pixel_color (set_pixel_info i PIXEL_FORMAT_ABGR_8888) col) = [cr col, cg col, cb col, ca col]"
  "le_bytes 4 (map_pixel_color (set_pixel_info i PIXEL_FORMAT_ARGB_8888) col) = [cb col, cg col, cr col, ca col]"
  "le_bytes 4 (map_pixel_color (set_pixel_info i PIXEL_FORMAT_BGRA_8888) col) = [ca col, cr col, cg col, cb col]"
  "le_bytes 4 (map_pixel_color (set_pixel_info i PIXEL_FORMAT_RGBA_8888) col) = [ca col, cb col, cg col, cr col]"
  "le_bytes 3 (map_pixel_color (set_pixel_info i PIXEL_FORMAT_BGR_888) col) = [cr col, cg col, cb col]"
  "le_bytes 3 (map_pixel_color (set_pixel_info i PIXEL_FORMAT_RGB_888) col) = [cb col, cg col, cr col]"
  by (simp_all add: map_pixel_color_def set_pixel_info_def put_layout_def le_bytes_or le_bytes_field le_bytes_0)

section \<open>Every opaque copy is a loop over pixels\<close>

definition blit_pixels :: "(u32w \<Rightarrow> u32w) \<Rightarrow> blit_fun" where
  "blit_pixels k dst dr src sr m =
     for_loop (\<lambda>j. for_loop (\<lambda>i m.
       surface_sw_set_pixel dst m (s32 (rx dr + int i)) (s32 (ry dr + int j))
         (k (surface_sw_get_pixel src m (s32 (rx sr + int i)) (s32 (ry sr + int j))))) (nat (rw dr))) (nat (rh dr)) m"

lemma generic_pixels:
  "sw_blit_replace_generic dst dr src sr m =
   blit_pixels (\<lambda>sc. map_pixel_color (s_info dst) (unmap_pixel_color (s_info src) sc)) dst dr src sr m"
  by (simp add: sw_blit_replace_generic_def blit_pixels_def Let_def)

lemma for_loop_step2:
  fixes p q :: "'a::comm_ring_1"
  shows "for_loop (\<lambda>i (s, p, q). (g s p q, p + d, q + e)) n (s, p, q) =
    (for_loop (\<lambda>i s. g s (p + of_nat i * d) (q + of_nat i * e)) n s, p + of_nat n * d, q + of_nat n * e)"
  by (induction n) (auto simp: algebra_simps)

definition bpp_ok :: "surface_t \<Rightarrow> bool" where
  "bpp_ok s \<longleftrightarrow> 1 \<le> bytes_per_pixel (s_info s) \<and> bytes_per_pixel (s_info s) \<le> 4"

lemma bpp_okD: "bpp_ok s \<Longrightarrow> 1 \<le> bytes_per_pixel (s_info s)" "bpp_ok s \<Longrightarrow> bytes_per_pixel (s_info s) \<le> 4"
  by (simp_all add: bpp_ok_def)

lemma pointer_s32:
  assumes "bpp_ok s"
  shows "surface_sw_get_pointer s (s32 (x + int i)) (s32 (y + int j)) =
    surface_sw_get_pointer s x y + of_nat j * s_pitch s + of_nat i * of_nat (bytes_per_pixel (s_info s))"
  unfolding pointer_step [OF bpp_okD [OF assms], symmetric] get_pointer_address [OF bpp_okD [OF assms]] pixel_address_def
  by (simp add: algebra_simps)

lemma blit_walk_pixels:
  assumes "bpp_ok dst" "bpp_ok src" "db = bytes_per_pixel (s_info dst)" "sb = bytes_per_pixel (s_info src)"
    and conv: "\<And>px. length px = sb \<Longrightarrow> conv px = le_bytes db (k (le_word px))"
    and "0 \<le> rw dr"
  shows "blit_walk db sb conv dst dr src sr m = blit_pixels k dst dr src sr m"
proof -
  define dp where "dp = surface_sw_get_pointer dst (rx dr) (ry dr)"
  define sp where "sp = surface_sw_get_pointer src (rx sr) (ry sr)"
  let ?G = "\<lambda>m p q. write_bytes m p (conv (read_bytes m q sb))"
  let ?R = "\<lambda>m p q. for_loop (\<lambda>i m. ?G m (p + of_nat i * of_nat db) (q + of_nat i * of_nat sb)) (nat (rw dr)) m"
  have w: "of_nat (nat (rw dr)) = (word_of_int (rw dr) :: u32w)" using assms(6) by simp
  have body: "(\<lambda>_ (m, p, q). let (m, p, q) = for_loop (\<lambda>_ (m, p, q). (?G m p q, p + of_nat db, q + of_nat sb)) (nat (rw dr)) (m, p, q)
      in (m, p + (s_pitch dst - of_nat db * word_of_int (rw dr)), q + (s_pitch src - of_nat sb * word_of_int (rw dr)))) =
      (\<lambda>_ (m, p, q). (?R m p q, p + s_pitch dst, q + s_pitch src))"
    unfolding for_loop_step2 by (auto simp: fun_eq_iff w algebra_simps)
  have "blit_walk db sb conv dst dr src sr m =
      for_loop (\<lambda>j m. ?R m (dp + of_nat j * s_pitch dst) (sp + of_nat j * s_pitch src)) (nat (rh dr)) m"
    unfolding blit_walk_def Let_def [of "_ - _"] Let_def [of "surface_sw_get_pointer _ _ _"] Let_def [of "rx _"]
      Let_def [of "ry _"] Let_def [of "rw _"] Let_def [of "rh _"] assms(3,4) [symmetric] body dp_def [symmetric] sp_def [symmetric]
      for_loop_step2 [of ?R] by simp
  also have "\<dots> = blit_pixels k dst dr src sr m"
  proof -
    have "?G m (dp + of_nat j * s_pitch dst + of_nat i * of_nat db) (sp + of_nat j * s_pitch src + of_nat i * of_nat sb) =
      surface_sw_set_pixel dst m (s32 (rx dr + int i)) (s32 (ry dr + int j))
        (k (surface_sw_get_pixel src m (s32 (rx sr + int i)) (s32 (ry sr + int j))))" for i j m
      unfolding set_pixel_store [OF bpp_okD [OF assms(1)]] get_pixel_load [OF bpp_okD [OF assms(2)]]
        pointer_s32 [OF assms(1)] pointer_s32 [OF assms(2)]
      by (simp add: conv store_le_def load_le_def dp_def sp_def assms(3,4))
    then show ?thesis unfolding blit_pixels_def by (simp only:)
  qed
  finally show ?thesis .
qed

section \<open>The converters compute the format conversion\<close>

text \<open>
  The converters from the 16-bit formats leave the low bits of each channel zero, where the generic
  conversion sets them.
\<close>

definition clear_low :: "color_t \<Rightarrow> color_t" where
  "clear_low c = c\<lparr>cr := cr c AND 0xf8, cg := cg c AND 0xfc, cb := cb c AND 0xf8\<rparr>"

lemma bits_565:
  "bit (0xf8 :: u8) n \<longleftrightarrow> 3 \<le> n \<and> n < 8" "bit (0xfc :: u8) n \<longleftrightarrow> 2 \<le> n \<and> n < 8"
  "bit (0xf800 :: u32w) n \<longleftrightarrow> 11 \<le> n \<and> n < 16" "bit (0x7e0 :: u32w) n \<longleftrightarrow> 5 \<le> n \<and> n < 11"
  "bit (0x1f :: u32w) n \<longleftrightarrow> n < 5"
  "bit (0xf8 :: u32w) n \<longleftrightarrow> 3 \<le> n \<and> n < 8" "bit (0xfc :: u32w) n \<longleftrightarrow> 2 \<le> n \<and> n < 8"
proof -
  have "(0xf8 :: u8) = push_bit 3 (mask 5)" "(0xfc :: u8) = push_bit 2 (mask 6)"
    "(0xf800 :: u32w) = push_bit 11 (mask 5)" "(0x7e0 :: u32w) = push_bit 5 (mask 6)" "(0x1f :: u32w) = mask 5"
    "(0xf8 :: u32w) = push_bit 3 (mask 5)" "(0xfc :: u32w) = push_bit 2 (mask 6)"
    by (simp_all add: mask_eq_exp_minus_1 push_bit_eq_mult)
  note e = this
  show "bit (0xf8 :: u8) n \<longleftrightarrow> 3 \<le> n \<and> n < 8" "bit (0xfc :: u8) n \<longleftrightarrow> 2 \<le> n \<and> n < 8"
    "bit (0xf800 :: u32w) n \<longleftrightarrow> 11 \<le> n \<and> n < 16" "bit (0x7e0 :: u32w) n \<longleftrightarrow> 5 \<le> n \<and> n < 11"
    "bit (0x1f :: u32w) n \<longleftrightarrow> n < 5"
    "bit (0xf8 :: u32w) n \<longleftrightarrow> 3 \<le> n \<and> n < 8" "bit (0xfc :: u32w) n \<longleftrightarrow> 2 \<le> n \<and> n < 8"
    unfolding e by (auto simp: bit_push_bit_iff bit_mask_iff)
qed

lemma fields_565:
  "(ucast (unmap_channel 11 5 v AND 255) :: u8) AND 0xf8 = ucast (drop_bit 8 (v AND 0xf800))"
  "(ucast (unmap_channel 5 6 v AND 255) :: u8) AND 0xfc = ucast (drop_bit 3 (v AND 0x7e0))"
  "(ucast (unmap_channel 0 5 v AND 255) :: u8) AND 0xf8 = ucast (push_bit 3 (v AND 0x1f))"
proof -
  have d: "3 \<le> k \<Longrightarrow> k < 8 \<Longrightarrow> 11 + (k - (8 - 5)) = 8 + k" "2 \<le> k \<Longrightarrow> k < 8 \<Longrightarrow> 5 + (k - (8 - 6)) = 3 + k"
    "3 \<le> k \<Longrightarrow> 0 + (k - (8 - 5)) = k - 3" for k :: nat by auto
  have le: "(5 :: nat) \<le> 8" "(6 :: nat) \<le> 8" "11 + 5 \<le> (32 :: nat)" "5 + 6 \<le> (32 :: nat)" "0 + 5 \<le> (32 :: nat)"
    by simp_all
  note r = bit_unmap_channel [OF le(1,3), of v] and g = bit_unmap_channel [OF le(2,4), of v]
    and b = bit_unmap_channel [OF le(1,5), of v]
  show "(ucast (unmap_channel 11 5 v AND 255) :: u8) AND 0xf8 = ucast (drop_bit 8 (v AND 0xf800))"
    by (rule bit_eqI, unfold bit_and_iff, unfold r, unfold bits_565 bit_and_iff bit_ucast_iff bit_drop_bit_eq o_apply) (auto simp: d)
  show "(ucast (unmap_channel 5 6 v AND 255) :: u8) AND 0xfc = ucast (drop_bit 3 (v AND 0x7e0))"
    by (rule bit_eqI, unfold bit_and_iff, unfold g, unfold bits_565 bit_and_iff bit_ucast_iff bit_drop_bit_eq o_apply) (auto simp: d)
  show "(ucast (unmap_channel 0 5 v AND 255) :: u8) AND 0xf8 = ucast (push_bit 3 (v AND 0x1f))"
    by (rule bit_eqI, unfold bit_and_iff, unfold b, unfold bits_565 bit_and_iff bit_ucast_iff bit_push_bit_iff) (auto simp: d)
qed

lemma unmap_565:
  "clear_low (unmap_pixel_color (set_pixel_info i PIXEL_FORMAT_RGB_565) v) =
   \<lparr>cr = ucast (drop_bit 8 (v AND 0xf800)), cg = ucast (drop_bit 3 (v AND 0x7e0)),
    cb = ucast (push_bit 3 (v AND 0x1f)), ca = 255\<rparr>"
  "clear_low (unmap_pixel_color (set_pixel_info i PIXEL_FORMAT_BGR_565) v) =
   \<lparr>cr = ucast (push_bit 3 (v AND 0x1f)), cg = ucast (drop_bit 3 (v AND 0x7e0)),
    cb = ucast (drop_bit 8 (v AND 0xf800)), ca = 255\<rparr>"
  by (simp_all add: clear_low_def unmap_pixel_color_def set_pixel_info_def put_layout_def fields_565 del: ucast_and_ff)

lemmas blit_converters =
  sw_blit_replace_ABGR_8888_ARGB_8888_def sw_blit_replace_ABGR_8888_BGRA_8888_def
  sw_blit_replace_ABGR_8888_RGBA_8888_def sw_blit_replace_ABGR_8888_BGR_888_def
  sw_blit_replace_ABGR_8888_RGB_888_def sw_blit_replace_ABGR_8888_BGR565_def
  sw_blit_replace_ABGR_8888_RGB565_def sw_blit_replace_ARGB_8888_ABGR_8888_def
  sw_blit_replace_ARGB_8888_BGRA_8888_def sw_blit_replace_ARGB_8888_RGBA_8888_def
  sw_blit_replace_ARGB_8888_BGR_888_def sw_blit_replace_ARGB_8888_RGB_888_def
  sw_blit_replace_ARGB_8888_BGR565_def sw_blit_replace_ARGB_8888_RGB565_def
  sw_blit_replace_BGRA_8888_ABGR_8888_def sw_blit_replace_BGRA_8888_ARGB_8888_def
  sw_blit_replace_BGRA_8888_RGBA_8888_def sw_blit_replace_BGRA_8888_BGR_888_def
  sw_blit_replace_BGRA_8888_RGB_888_def sw_blit_replace_BGRA_8888_BGR565_def
  sw_blit_replace_BGRA_8888_RGB565_def sw_blit_replace_RGBA_8888_ABGR_8888_def
  sw_blit_replace_RGBA_8888_ARGB_8888_def sw_blit_replace_RGBA_8888_BGRA_8888_def
  sw_blit_replace_RGBA_8888_BGR_888_def sw_blit_replace_RGBA_8888_RGB_888_def
  sw_blit_replace_RGBA_8888_BGR565_def sw_blit_replace_RGBA_8888_RGB565_def
  sw_blit_replace_BGR_888_ABGR_8888_def sw_blit_replace_BGR_888_ARGB_8888_def
  sw_blit_replace_BGR_888_BGRA_8888_def sw_blit_replace_BGR_888_RGBA_8888_def
  sw_blit_replace_BGR_888_RGB_888_def sw_blit_replace_RGB_888_ABGR_8888_def
  sw_blit_replace_RGB_888_ARGB_8888_def sw_blit_replace_RGB_888_BGRA_8888_def
  sw_blit_replace_RGB_888_RGBA_8888_def sw_blit_replace_RGB_888_BGR_888_def

definition is_8888 :: "pixel_format \<Rightarrow> bool" where
  "is_8888 f \<longleftrightarrow> f \<in> {PIXEL_FORMAT_ABGR_8888, PIXEL_FORMAT_ARGB_8888, PIXEL_FORMAT_BGRA_8888, PIXEL_FORMAT_RGBA_8888}"

definition is_565 :: "pixel_format \<Rightarrow> bool" where
  "is_565 f \<longleftrightarrow> f \<in> {PIXEL_FORMAT_BGR_565, PIXEL_FORMAT_RGB_565}"

text \<open>The colour a source pixel gets in the destination.\<close>

definition blit_color :: "pixel_format \<Rightarrow> pixel_format \<Rightarrow> color_t \<Rightarrow> color_t" where
  "blit_color fd fs c = (if is_8888 fd \<and> is_565 fs then clear_low c else c)"

lemma fmt_set_pixel_info [simp]: "fmt (set_pixel_info i f) = f"
  by (simp add: set_pixel_info_def)

lemma bpp_set_pixel_info [simp]:
  "is_8888 f \<Longrightarrow> bytes_per_pixel (set_pixel_info i f) = 4"
  "f = PIXEL_FORMAT_BGR_888 \<or> f = PIXEL_FORMAT_RGB_888 \<Longrightarrow> bytes_per_pixel (set_pixel_info i f) = 3"
  "is_565 f \<Longrightarrow> bytes_per_pixel (set_pixel_info i f) = 2"
  by (auto simp: is_8888_def is_565_def set_pixel_info_def put_layout_def)

lemma bpp_ok_format: "s_info s = set_pixel_info i f \<Longrightarrow> f \<noteq> PIXEL_FORMAT_GENERIC \<Longrightarrow> bpp_ok s"
  by (cases f) (simp_all add: bpp_ok_def set_pixel_info_def put_layout_def)

lemma replace_pixels:
  assumes "s_info dst = set_pixel_info i fd" "s_info src = set_pixel_info i' fs"
    and "fd \<noteq> PIXEL_FORMAT_GENERIC" "fs \<noteq> PIXEL_FORMAT_GENERIC" "fd \<noteq> fs" "0 \<le> rw dr"
  shows "sw_blit_replace dst dr src sr m =
    blit_pixels (\<lambda>sc. map_pixel_color (s_info dst) (blit_color fd fs (unmap_pixel_color (s_info src) sc))) dst dr src sr m"
proof -
  have ok: "bpp_ok dst" "bpp_ok src" using assms bpp_ok_format by blast+
  show ?thesis
    using assms(3-5)
    apply (cases fd; cases fs; simp add: sw_blit_replace_def assms(1,2) generic_pixels blit_color_def is_8888_def is_565_def)
    apply (unfold blit_converters)
    apply (rule blit_walk_pixels [OF ok _ _ _ assms(6)];
        simp add: Let_def assms(1,2) is_8888_def is_565_def unmap_format map_format unmap_565)+
    done
qed

section \<open>Plain copies\<close>

lemma copy_run:
  assumes "upward_safe d s (w * n)" "w * n \<le> 4294967296" "n \<le> 4"
  shows "for_loop (\<lambda>i m. store_le n m (d + of_nat i * of_nat n) (load_le n m (s + of_nat i * of_nat n))) w m =
   write_bytes m d (read_bytes m s (w * n))"
  unfolding store_load_le [OF assms(3)] using assms(1,2)
proof (induction w)
  case (Suc w)
  have "for_loop (\<lambda>i m. write_bytes m (d + of_nat i * of_nat n) (read_bytes m (s + of_nat i * of_nat n) n)) w m =
      write_bytes m d (read_bytes m s (w * n))"
    using Suc upward_safe_mono [OF Suc.prems(1), of "w * n"] by simp
  then show ?case
    using upward_step [of d s "w * n" n m] Suc.prems by (simp add: add.commute)
qed simp

lemma disjoint_upward_safe:
  "region d n \<inter> region s n = {} \<Longrightarrow> upward_safe d s n"
proof (rule ccontr)
  assume d: "region d n \<inter> region s n = {}" and "\<not> upward_safe d s n"
  then have "d \<in> region s n" "d \<in> region d n" by (auto simp: upward_safe_def region_def)
  then show False using d by auto
qed

text \<open>One row of a rectangle inside a surface: its addresses do not wrap and belong to the surface.\<close>

lemma row_region:
  assumes "surface_ok s" "0 \<le> x" "0 < w" "x + w \<le> uint (s_w s)" "0 \<le> y" "y < uint (s_h s)"
    and "p = surface_sw_get_pointer s x y" "len = nat w * bytes_per_pixel (s_info s)"
  shows "uint p + int len \<le> 4294967296" "region p len \<subseteq> footprint s"
proof -
  have i: "inside s x y" "inside s (x + w - 1) y" using assms by (auto simp: inside_def)
  have len: "int len = w * int (bytes_per_pixel (s_info s))" using assms(3,8) by simp
  have p: "uint p = pixel_address s x y" using uint_pointer [OF i(1)] assms(7) by simp
  have "pixel_address s (x + w - 1) y + int (bytes_per_pixel (s_info s)) = uint p + int len"
    using p len by (simp add: pixel_address_def algebra_simps)
  then have e: "uint p + int len \<le> uint (s_pixels s) + uint (s_h s) * uint (s_pitch s)"
    using inside_bounds(2) [OF i(2)] by simp
  then show top: "uint p + int len \<le> 4294967296" using inside_bounds(3) [OF i(1)] by linarith
  show "region p len \<subseteq> footprint s"
    using region_range [OF top] e p inside_bounds(1) [OF i(1)] by (auto simp: footprint_def)
qed

lemma direct_pixels:
  assumes "surface_ok dst" "surface_ok src" "separate dst src"
    and "bytes_per_pixel (s_info src) = bytes_per_pixel (s_info dst)"
    and "rect_within dst dr" "rect_within src (sr\<lparr>rw := rw dr, rh := rh dr\<rparr>)" "0 < rw dr"
  shows "sw_blit_replace_directN dst dr src sr m = blit_pixels (\<lambda>c. c) dst dr src sr m"
proof -
  let ?n = "bytes_per_pixel (s_info dst)" and ?w = "nat (rw dr)"
  define dp where "dp = surface_sw_get_pointer dst (rx dr) (ry dr)"
  define sp where "sp = surface_sw_get_pointer src (rx sr) (ry sr)"
  have ok: "bpp_ok dst" "bpp_ok src" using surface_okD assms(1,2) by (auto simp: bpp_ok_def)
  have small: "rw dr \<le> 536870911" using assms(1,5,7) by (auto simp: surface_ok_def rect_within_def)
  have n4: "?n \<le> 4" by (rule bpp_okD(2) [OF ok(1)])
  have "?w * ?n \<le> 536870911 * 4" using small n4 by (intro mult_le_mono) auto
  then have le: "?w * ?n < 2147483648" by simp
  have "rw dr * int ?n = int (?w * ?n)" using assms(7) by simp
  then have "s32 (rw dr * int ?n) = int (?w * ?n)" using le by (simp add: s32_def del: of_nat_mult)
  then have len: "unat (word_of_int (s32 (rw dr * int ?n)) :: u32w) = ?w * ?n"
    using unat_of_nat_addr [of "?w * ?n"] le by (simp del: of_nat_mult)
  have row: "memmove m (dp + of_nat j * s_pitch dst) (sp + of_nat j * s_pitch src) (?w * ?n) =
      for_loop (\<lambda>i m. surface_sw_set_pixel dst m (s32 (rx dr + int i)) (s32 (ry dr + int j))
        (surface_sw_get_pixel src m (s32 (rx sr + int i)) (s32 (ry sr + int j)))) ?w m"
    if j: "j < nat (rh dr)" for j m
  proof -
    have d: "dp + of_nat j * s_pitch dst = surface_sw_get_pointer dst (rx dr) (ry dr + int j)"
      and s: "sp + of_nat j * s_pitch src = surface_sw_get_pointer src (rx sr) (ry sr + int j)"
      using pointer_step [OF bpp_okD [OF ok(1)], of "rx dr" 0 "ry dr" j]
        pointer_step [OF bpp_okD [OF ok(2)], of "rx sr" 0 "ry sr" j] by (simp_all add: dp_def sp_def)
    have "0 \<le> rx dr" "rx dr + rw dr \<le> uint (s_w dst)" "0 \<le> ry dr + int j" "ry dr + int j < uint (s_h dst)"
      using assms(5) j by (auto simp: rect_within_def)
    note D = row_region [OF assms(1) this(1) assms(7) this(2-4) d refl]
    have "0 \<le> rx sr" "rx sr + rw dr \<le> uint (s_w src)" "0 \<le> ry sr + int j" "ry sr + int j < uint (s_h src)"
      using assms(6) j by (auto simp: rect_within_def)
    note S = row_region [OF assms(2) this(1) assms(7) this(2-4) s refl, unfolded assms(4)]
    have "region (dp + of_nat j * s_pitch dst) (?w * ?n) \<inter> region (sp + of_nat j * s_pitch src) (?w * ?n) = {}"
      using D(2) S(2) assms(3) by (auto simp: separate_def)
    then have safe: "upward_safe (dp + of_nat j * s_pitch dst) (sp + of_nat j * s_pitch src) (?w * ?n)"
      by (rule disjoint_upward_safe)
    have nat: "unat (a :: u32w) + k \<le> 4294967296" if "uint a + int k \<le> 4294967296" for a k
    proof -
      have "int (unat a + k) \<le> 4294967296" using that by simp
      then show ?thesis by linarith
    qed
    have "memmove m (dp + of_nat j * s_pitch dst) (sp + of_nat j * s_pitch src) (?w * ?n) =
        write_bytes m (dp + of_nat j * s_pitch dst) (read_bytes m (sp + of_nat j * s_pitch src) (?w * ?n))"
      using memmove_bytes nat [OF D(1)] nat [OF S(1)] le by simp
    then show ?thesis
      unfolding set_pixel_store [OF bpp_okD [OF ok(1)]] get_pixel_load [OF bpp_okD [OF ok(2)]]
        pointer_s32 [OF ok(1)] pointer_s32 [OF ok(2)] assms(4)
      using copy_run [OF safe _ n4] le by (simp add: dp_def sp_def)
  qed
  show ?thesis
    unfolding sw_blit_replace_directN_def blit_pixels_def Let_def len for_loop_step2 fst_conv dp_def [symmetric] sp_def [symmetric]
    by (rule for_loop_cong) (rule row)
qed

lemma load_take_bit: "take_bit (8 * n) (load_le n m p) = load_le n m p"
proof (rule bit_eqI)
  fix k
  show "bit (take_bit (8 * n) (load_le n m p)) k = bit (load_le n m p) k"
    using bit_le_word [of "read_bytes m p n" k] by (auto simp: load_le_def bit_take_bit_iff)
qed

lemma same_format_pixel:
  assumes "f \<noteq> PIXEL_FORMAT_GENERIC" "s_info s = set_pixel_info i f"
  shows "map_pixel_color (set_pixel_info j f) (unmap_pixel_color (s_info s) (surface_sw_get_pixel s m x y)) =
    surface_sw_get_pixel s m x y"
proof -
  have same: "map_pixel_color (set_pixel_info j f) = map_pixel_color (set_pixel_info i f)"
    using assms(1) by (cases f) (simp_all add: fun_eq_iff map_pixel_color_def set_pixel_info_def put_layout_def)
  have "bits_per_pixel (set_pixel_info i f) = 8 * bytes_per_pixel (set_pixel_info i f)"
    using assms(1) by (cases f) (simp_all add: set_pixel_info_def put_layout_def)
  then show ?thesis
    using assms map_unmap_color [OF layout_ok_set_pixel_info [OF assms(1)]] load_take_bit
      get_pixel_load [OF bpp_okD [OF bpp_ok_format [OF assms(2,1)]]]
    by (simp add: same field_mask_set_pixel_info take_bit_eq_mask [symmetric])
qed

text \<open>All opaque copies between surfaces of the ten formats.\<close>

lemma blit_replace_pixels:
  assumes "s_info dst = set_pixel_info i fd" "s_info src = set_pixel_info i' fs"
    and "fd \<noteq> PIXEL_FORMAT_GENERIC" "fs \<noteq> PIXEL_FORMAT_GENERIC"
    and "surface_ok dst" "surface_ok src" "separate dst src"
    and "rect_within dst dr" "rect_within src (sr\<lparr>rw := rw dr, rh := rh dr\<rparr>)" "0 < rw dr"
  shows "sw_blit_replace dst dr src sr m =
    blit_pixels (\<lambda>sc. map_pixel_color (s_info dst) (blit_color fd fs (unmap_pixel_color (s_info src) sc))) dst dr src sr m"
proof (cases "fd = fs")
  case True
  have "bytes_per_pixel (s_info src) = bytes_per_pixel (s_info dst)"
    using assms(1-4) True by (cases fs) (simp_all add: set_pixel_info_def put_layout_def)
  note direct = direct_pixels [OF assms(5-7) this assms(8-10)]
  have "sw_blit_replace dst dr src sr m = sw_blit_replace_directN dst dr src sr m"
    using assms(1-4) True by (cases fs) (simp_all add: sw_blit_replace_def)
  moreover have "blit_color fd fs c = c" for c
    using True by (auto simp: blit_color_def is_8888_def is_565_def)
  ultimately show ?thesis
    using direct same_format_pixel [OF assms(4,2)] assms(1) True by (simp add: blit_pixels_def)
next
  case False
  then show ?thesis using replace_pixels [OF assms(1-4)] assms(10) by simp
qed

text \<open>As a painting: no coordinate wraps inside a surface.\<close>

lemma blit_pixels_paint:
  assumes "surface_ok dst" "surface_ok src" "rect_within dst dr" "rect_within src (sr\<lparr>rw := rw dr, rh := rh dr\<rparr>)"
  shows "blit_pixels k dst dr src sr m =
    paint dst dr (\<lambda>x y m. k (surface_sw_get_pixel src m (x - rx dr + rx sr) (y - ry dr + ry sr))) m"
proof -
  have b: "0 \<le> rx dr" "rx dr + rw dr \<le> 536870911" "0 \<le> ry dr" "ry dr + rh dr \<le> 536870911"
    "0 \<le> rx sr" "rx sr + rw dr \<le> 536870911" "0 \<le> ry sr" "ry sr + rh dr \<le> 536870911"
    using assms by (auto simp: surface_ok_def rect_within_def)
  have s: "s32 (v + int i) = v + int i" if "0 \<le> v" "v + n \<le> 536870911" "i < nat n" for v n i
    using that by (intro s32_id) (auto simp: in_s32_def)
  show ?thesis
    unfolding blit_pixels_def paint_def
    by (intro for_loop_cong) (simp add: s [OF b(1,2)] s [OF b(3,4)] s [OF b(5,6)] s [OF b(7,8)], simp add: add.commute)
qed

lemma blit_pixels_get:
  assumes "surface_ok dst" "surface_ok src" "separate dst src"
    and "rect_within dst dr" "rect_within src (sr\<lparr>rw := rw dr, rh := rh dr\<rparr>)" "inside dst u v"
  shows "surface_sw_get_pixel dst (blit_pixels k dst dr src sr m) u v =
    (if (u, v) \<in> rect_points dr
     then fit dst (k (surface_sw_get_pixel src m (u - rx dr + rx sr) (v - ry dr + ry sr)))
     else surface_sw_get_pixel dst m u v)"
  unfolding blit_pixels_paint [OF assms(1,2,4,5)]
proof (rule paint_get_pixel [OF assms(1,4,6)])
  fix x y m'
  assume "(x, y) \<in> rect_points dr"
    and same: "\<And>t x' y'. separate dst t \<Longrightarrow> inside t x' y' \<Longrightarrow>
      surface_sw_get_pixel t m' x' y' = surface_sw_get_pixel t m x' y'"
  then have "inside src (x - rx dr + rx sr) (y - ry dr + ry sr)"
    using assms(2,5) by (auto simp: inside_def rect_within_def rect_points_def)
  then show "k (surface_sw_get_pixel src m' (x - rx dr + rx sr) (y - ry dr + ry sr)) =
      k (surface_sw_get_pixel src m (x - rx dr + rx sr) (y - ry dr + ry sr))"
    using same [OF assms(3)] by simp
qed

section \<open>Clipping\<close>

text \<open>
  Coordinates within a quarter of the range of the surface bound: no step of the clipping wraps.
\<close>

definition coord_ok :: "int \<Rightarrow> bool" where
  "coord_ok v \<longleftrightarrow> - 134217728 \<le> v \<and> v \<le> 134217728"

definition coords_ok :: "rect_t \<Rightarrow> bool" where
  "coords_ok r \<longleftrightarrow> coord_ok (rx r) \<and> coord_ok (ry r) \<and> coord_ok (rw r) \<and> coord_ok (rh r)"

lemma clip_source_value:
  assumes "coord_ok x" "coord_ok w" "coord_ok d" "uint n \<le> 536870911"
  shows "clip_source x w d n =
    (max x 0, min (w + min x 0) (uint n - max x 0), d - min x 0)"
proof -
  have m: "sint (n - word_of_int y) = uint n - y" if "0 \<le> y" "y \<le> 134217728" for y
  proof -
    have e: "n - word_of_int y = word_of_int (uint n - y)" by simp
    show ?thesis unfolding e using that assms(4) uint_ge_0 [of n] by (intro sint_small) linarith+
  qed
  show ?thesis
  proof (cases "x < 0")
    case True
    have "s32 (w + x) = w + x" "s32 (d - x) = d - x"
      using assms True by (auto intro!: s32_id simp: coord_ok_def in_s32_def)
    then show ?thesis using True m [of 0] by (simp add: clip_source_def Let_def min_def)
  next
    case False
    then show ?thesis using m [of x] m [of 0] assms(1) by (simp add: clip_source_def coord_ok_def Let_def min_def)
  qed
qed

text \<open>The points an axis keeps: those of the clip interval whose source point is in the source interval.\<close>

lemma clip_target_value:
  assumes "- 536870911 \<le> x" "x \<le> 536870911" "- 536870911 \<le> w" "w \<le> 536870911" "- 536870911 \<le> d" "d \<le> 536870911"
    and "0 \<le> cx" "cx \<le> 536870911" "0 \<le> cw" "cw \<le> 536870911"
  obtains x' w' d' where "clip_target cx cw (x, w, d) = (x', w', d')" "x' - d' = x - d"
    "\<And>u. d' \<le> u \<and> u < d' + w' \<longleftrightarrow> cx \<le> u \<and> u < cx + cw \<and> d \<le> u \<and> u < d + w"
proof -
  have s: "s32 v = v" if "- 2147483648 \<le> v" "v < 2147483648" for v
    using that by (intro s32_id) (auto simp: in_s32_def)
  define e where "e = max (cx - d) 0"
  have e: "0 \<le> e" "e \<le> 1073741822" "cx - d \<le> e" "e = 0 \<or> e = cx - d" using assms by (auto simp: e_def)
  have e1: "s32 (cx - d) = cx - d" "s32 (w - e) = w - e" "s32 (d + e) = d + e" "s32 (x + e) = x + e"
    using assms e by (intro s; linarith)+
  define ov where "ov = d + w - cx - cw"
  have "s32 (d + w) = d + w" "s32 (d + w - cx) = d + w - cx" "s32 (d + w - cx - cw) = ov" "s32 (w - e - ov) = w - e - ov"
    unfolding ov_def using assms e by (intro s; linarith)+
  then have o1: "s32 (d + e + (w - e)) = d + w" "s32 (d + w - cx) = d + w - cx" "s32 (d + w - cx - cw) = ov"
    and o2: "s32 (w - e - ov) = w - e - ov" by simp_all
  have c1: "clip_target cx cw (x, w, d) = (x + e, if ov > 0 then w - e - ov else w - e, d + e)"
  proof (cases "cx - d > 0")
    case True
    then have "e = cx - d" by (simp add: e_def)
    then show ?thesis using True e1 o1 o2 by (simp add: clip_target_def Let_def)
  next
    case False
    then have "e = 0" by (simp add: e_def)
    then show ?thesis using False e1 o1 o2 by (simp add: clip_target_def Let_def)
  qed
  have c2: "d + e \<le> u \<and> u < d + e + (if ov > 0 then w - e - ov else w - e) \<longleftrightarrow>
      cx \<le> u \<and> u < cx + cw \<and> d \<le> u \<and> u < d + w" for u
    unfolding ov_def using e by presburger
  show ?thesis by (rule that [OF c1 _ c2]) simp
qed

lemma clip_axis:
  assumes "coord_ok x" "coord_ok w" "coord_ok d" "uint n \<le> 536870911" "0 \<le> cx" "cx \<le> 536870911" "0 \<le> cw" "cw \<le> 536870911"
  obtains x' w' d' where "clip_target cx cw (clip_source x w d n) = (x', w', d')" "x' - d' = x - d"
    "\<And>u. d' \<le> u \<and> u < d' + w' \<longleftrightarrow>
       cx \<le> u \<and> u < cx + cw \<and> x \<le> u - d + x \<and> u - d + x < x + w \<and> 0 \<le> u - d + x \<and> u - d + x < uint n"
proof -
  obtain x1 w1 d1 where c: "clip_source x w d n = (x1, w1, d1)" by (metis prod_cases3)
  define k where "k = min x 0"
  have k: "k \<le> 0" "k \<le> x" "k = 0 \<or> k = x" by (auto simp: k_def)
  have v: "x1 = x - k" "d1 = d - k" "w1 \<le> w + k" "w1 \<le> uint n - (x - k)" "w1 = w + k \<or> w1 = uint n - (x - k)"
  proof -
    have mx: "max x 0 = x - k" by (simp add: k_def)
    have "(x1, w1, d1) = (x - k, min (w + k) (uint n - (x - k)), d - k)"
      using c clip_source_value [OF assms(1-4), unfolded mx, folded k_def] by (simp only:)
    then show "x1 = x - k" "d1 = d - k" "w1 \<le> w + k" "w1 \<le> uint n - (x - k)" "w1 = w + k \<or> w1 = uint n - (x - k)"
      by (auto simp: min_def)
  qed
  have b: "- 536870911 \<le> x1" "x1 \<le> 536870911" "- 536870911 \<le> w1" "w1 \<le> 536870911" "- 536870911 \<le> d1" "d1 \<le> 536870911"
    using assms(1-4) uint_ge_0 [of n] v k unfolding coord_ok_def by linarith+
  obtain x' w' d' where t: "clip_target cx cw (x1, w1, d1) = (x', w', d')" "x' - d' = x1 - d1"
    "\<And>u. d' \<le> u \<and> u < d' + w' \<longleftrightarrow> cx \<le> u \<and> u < cx + cw \<and> d1 \<le> u \<and> u < d1 + w1"
    using clip_target_value [OF b assms(5-8)] by blast
  have "d1 \<le> u \<and> u < d1 + w1 \<longleftrightarrow>
      x \<le> u - d + x \<and> u - d + x < x + w \<and> 0 \<le> u - d + x \<and> u - d + x < uint n" for u
    unfolding v(1,2) using v(3-5) k by (elim disjE) (auto intro: iffI)
  moreover have "x1 - d1 = x - d" using v by simp
  ultimately show ?thesis using that [of x' w' d'] t unfolding c by (simp only: simp_thms)
qed

text \<open>What a copy should touch: the clipped points whose source point is in the source rectangle.\<close>

definition blit_origin :: "rect_t option \<Rightarrow> int \<times> int" where
  "blit_origin dst_rect = (case dst_rect of None \<Rightarrow> (0, 0) | Some r \<Rightarrow> (rx r, ry r))"

definition surface_rect :: "surface_t \<Rightarrow> rect_t" where
  "surface_rect s = \<lparr>rx = 0, ry = 0, rw = uint (s_w s), rh = uint (s_h s)\<rparr>"

definition blit_source :: "surface_t \<Rightarrow> rect_t option \<Rightarrow> rect_t" where
  "blit_source src src_rect = (case src_rect of None \<Rightarrow> surface_rect src | Some r \<Rightarrow> r)"

definition source_point :: "surface_t \<Rightarrow> rect_t option \<Rightarrow> rect_t option \<Rightarrow> int \<times> int \<Rightarrow> int \<times> int" where
  "source_point src dst_rect src_rect p =
     (fst p - fst (blit_origin dst_rect) + rx (blit_source src src_rect),
      snd p - snd (blit_origin dst_rect) + ry (blit_source src src_rect))"

definition blit_target :: "surface_t \<Rightarrow> rect_t option \<Rightarrow> surface_t \<Rightarrow> rect_t option \<Rightarrow> (int \<times> int) set" where
  "blit_target dst dst_rect src src_rect =
     {p \<in> rect_points (s_clip dst).
        source_point src dst_rect src_rect p \<in> rect_points (blit_source src src_rect) \<inter> rect_points (surface_rect src)}"

definition blit_ok :: "surface_t \<Rightarrow> rect_t option \<Rightarrow> surface_t \<Rightarrow> rect_t option \<Rightarrow> bool" where
  "blit_ok dst dst_rect src src_rect \<longleftrightarrow>
     surface_ok dst \<and> surface_ok src \<and> clip_ok dst \<and>
     (case dst_rect of None \<Rightarrow> True | Some r \<Rightarrow> coords_ok r) \<and>
     (case src_rect of None \<Rightarrow> True | Some r \<Rightarrow> coords_ok r)"

lemma clip_whole:
  assumes "coord_ok d" "uint n \<le> 536870911" "0 \<le> cx" "cx \<le> 536870911" "0 \<le> cw" "cw \<le> 536870911"
  obtains x' w' d' where "clip_target cx cw (0, uint n, d) = (x', w', d')" "x' - d' = - d"
    "\<And>u. d' \<le> u \<and> u < d' + w' \<longleftrightarrow> cx \<le> u \<and> u < cx + cw \<and> 0 \<le> u - d \<and> u - d < uint n"
proof -
  have b: "- 536870911 \<le> uint n" "- 536870911 \<le> d" "d \<le> 536870911"
    using uint_ge_0 [of n] assms(1) unfolding coord_ok_def by linarith+
  obtain x' w' d' where "clip_target cx cw (0, uint n, d) = (x', w', d')" "x' - d' = 0 - d"
    "\<And>u. d' \<le> u \<and> u < d' + w' \<longleftrightarrow> cx \<le> u \<and> u < cx + cw \<and> d \<le> u \<and> u < d + uint n"
    using clip_target_value [of 0 "uint n" d cx cw] b assms(2-6) by auto
  moreover have "d \<le> u \<longleftrightarrow> 0 \<le> u - d" "u < d + uint n \<longleftrightarrow> u - d < uint n" for u by linarith+
  ultimately show ?thesis using that [of x' w' d'] by (simp only: diff_0 simp_thms)
qed

lemma rect_points_axes:
  "(u, v) \<in> rect_points r \<longleftrightarrow> (rx r \<le> u \<and> u < rx r + rw r) \<and> (ry r \<le> v \<and> v < ry r + rh r)"
  by (auto simp: rect_points_def)

text \<open>One axis of the clipping, with and without a source rectangle.\<close>

definition axis_source :: "rect_t option \<Rightarrow> (rect_t \<Rightarrow> int) \<Rightarrow> (rect_t \<Rightarrow> int) \<Rightarrow> u32w \<Rightarrow> int \<Rightarrow> int \<times> int \<times> int" where
  "axis_source src_rect pos len n d =
     (case src_rect of Some r \<Rightarrow> clip_source (pos r) (len r) d n | None \<Rightarrow> (0, sint n, d))"

lemma axis_clip:
  assumes "(case src_rect of None \<Rightarrow> True | Some r \<Rightarrow> coord_ok (pos r) \<and> coord_ok (len r))" "coord_ok d"
    and "uint n \<le> 536870911" "sint n = uint n" "0 \<le> cx" "cx \<le> 536870911" "0 \<le> cw" "cw \<le> 536870911"
    and "p = (case src_rect of None \<Rightarrow> 0 | Some r \<Rightarrow> pos r)" "l = (case src_rect of None \<Rightarrow> uint n | Some r \<Rightarrow> len r)"
  obtains x' w' d' where "clip_target cx cw (axis_source src_rect pos len n d) = (x', w', d')" "x' - d' = p - d"
    "\<And>u. d' \<le> u \<and> u < d' + w' \<longleftrightarrow>
       cx \<le> u \<and> u < cx + cw \<and> p \<le> u - d + p \<and> u - d + p < p + l \<and> 0 \<le> u - d + p \<and> u - d + p < uint n"
proof (cases src_rect)
  case None
  obtain x' w' d' where t: "clip_target cx cw (0, uint n, d) = (x', w', d')" "x' - d' = - d"
    "\<And>u. d' \<le> u \<and> u < d' + w' \<longleftrightarrow> cx \<le> u \<and> u < cx + cw \<and> 0 \<le> u - d \<and> u - d < uint n"
    using clip_whole [OF assms(2,3,5-8)] by blast
  show ?thesis
    by (rule that [of x' w' d']) (use t None assms(4,9,10) in \<open>auto simp: axis_source_def\<close>)
next
  case (Some r)
  have c: "coord_ok (pos r)" "coord_ok (len r)" using assms(1) Some by simp_all
  obtain x' w' d' where t: "clip_target cx cw (clip_source (pos r) (len r) d n) = (x', w', d')" "x' - d' = pos r - d"
    "\<And>u. d' \<le> u \<and> u < d' + w' \<longleftrightarrow>
       cx \<le> u \<and> u < cx + cw \<and> pos r \<le> u - d + pos r \<and> u - d + pos r < pos r + len r \<and>
       0 \<le> u - d + pos r \<and> u - d + pos r < uint n"
    using clip_axis [OF c assms(2,3,5-8)] by blast
  have e: "p = pos r" "l = len r" using assms(9,10) Some by simp_all
  show ?thesis
    by (rule that [of x' w' d', unfolded e]) (use t Some in \<open>simp_all only: axis_source_def option.case\<close>)
qed

lemma blit_clip_axes:
  "blit_clip dst dst_rect src src_rect =
    (let (dx0, dy0) = blit_origin dst_rect;
         (x, w, dx) = clip_target (rx (s_clip dst)) (rw (s_clip dst)) (axis_source src_rect rx rw (s_w src) dx0);
         (y, h, dy) = clip_target (ry (s_clip dst)) (rh (s_clip dst)) (axis_source src_rect ry rh (s_h src) dy0)
     in if w > 0 \<and> h > 0
        then Some (\<lparr>rx = dx, ry = dy, rw = w, rh = h\<rparr>, \<lparr>rx = x, ry = y, rw = w, rh = h\<rparr>) else None)"
  by (cases dst_rect; cases src_rect) (simp_all add: blit_clip_def blit_origin_def axis_source_def)

lemma blit_clip_exact:
  assumes "blit_ok dst dst_rect src src_rect"
  shows "case blit_clip dst dst_rect src src_rect of
      None \<Rightarrow> blit_target dst dst_rect src src_rect = {}
    | Some (dr, sr) \<Rightarrow>
        rect_points dr = blit_target dst dst_rect src src_rect \<and> 0 < rw dr \<and> 0 < rh dr \<and>
        sr = \<lparr>rx = rx sr, ry = ry sr, rw = rw dr, rh = rh dr\<rparr> \<and>
        (\<forall>p. (fst p - rx dr + rx sr, snd p - ry dr + ry sr) = source_point src dst_rect src_rect p)"
proof -
  obtain dx0 dy0 where o: "blit_origin dst_rect = (dx0, dy0)" by fastforce
  define R where "R = blit_source src src_rect"
  have ok: "surface_ok src" "surface_ok dst" "clip_ok dst" using assms by (simp_all add: blit_ok_def)
  have n: "uint (s_w src) \<le> 536870911" "uint (s_h src) \<le> 536870911" using ok(1) by (simp_all add: surface_ok_def)
  have c: "0 \<le> rx (s_clip dst)" "rx (s_clip dst) \<le> 536870911" "0 \<le> rw (s_clip dst)" "rw (s_clip dst) \<le> 536870911"
    "0 \<le> ry (s_clip dst)" "ry (s_clip dst) \<le> 536870911" "0 \<le> rh (s_clip dst)" "rh (s_clip dst) \<le> 536870911"
    using ok(2,3) by (auto simp: clip_ok_def rect_within_def surface_ok_def)
  have d: "coord_ok dx0" "coord_ok dy0"
    using assms o by (auto simp: blit_ok_def blit_origin_def coords_ok_def coord_ok_def split: option.splits)
  have s: "case src_rect of None \<Rightarrow> True | Some r \<Rightarrow> coord_ok (rx r) \<and> coord_ok (rw r)"
    "case src_rect of None \<Rightarrow> True | Some r \<Rightarrow> coord_ok (ry r) \<and> coord_ok (rh r)"
    using assms by (auto simp: blit_ok_def coords_ok_def split: option.splits)
  have R: "rx R = (case src_rect of None \<Rightarrow> 0 | Some r \<Rightarrow> rx r)" "rw R = (case src_rect of None \<Rightarrow> uint (s_w src) | Some r \<Rightarrow> rw r)"
    "ry R = (case src_rect of None \<Rightarrow> 0 | Some r \<Rightarrow> ry r)" "rh R = (case src_rect of None \<Rightarrow> uint (s_h src) | Some r \<Rightarrow> rh r)"
    by (auto simp: R_def blit_source_def surface_rect_def split: option.splits)
  obtain x w dx where X: "clip_target (rx (s_clip dst)) (rw (s_clip dst)) (axis_source src_rect rx rw (s_w src) dx0) = (x, w, dx)"
    "x - dx = rx R - dx0"
    "\<And>u. dx \<le> u \<and> u < dx + w \<longleftrightarrow> rx (s_clip dst) \<le> u \<and> u < rx (s_clip dst) + rw (s_clip dst) \<and> rx R \<le> u - dx0 + rx R \<and>
       u - dx0 + rx R < rx R + rw R \<and> 0 \<le> u - dx0 + rx R \<and> u - dx0 + rx R < uint (s_w src)"
    using axis_clip [OF s(1) d(1) n(1) surface_sint(1) [OF ok(1)] c(1-4) R(1,2)] by blast
  obtain y h dy where Y: "clip_target (ry (s_clip dst)) (rh (s_clip dst)) (axis_source src_rect ry rh (s_h src) dy0) = (y, h, dy)"
    "y - dy = ry R - dy0"
    "\<And>u. dy \<le> u \<and> u < dy + h \<longleftrightarrow> ry (s_clip dst) \<le> u \<and> u < ry (s_clip dst) + rh (s_clip dst) \<and> ry R \<le> u - dy0 + ry R \<and>
       u - dy0 + ry R < ry R + rh R \<and> 0 \<le> u - dy0 + ry R \<and> u - dy0 + ry R < uint (s_h src)"
    using axis_clip [OF s(2) d(2) n(2) surface_sint(2) [OF ok(1)] c(5-8) R(3,4)] by blast
  have pts: "(u, v) \<in> blit_target dst dst_rect src src_rect \<longleftrightarrow> (dx \<le> u \<and> u < dx + w) \<and> (dy \<le> v \<and> v < dy + h)" for u v
    unfolding X(3) Y(3) blit_target_def source_point_def R_def [symmetric] o surface_rect_def
    by (auto simp: rect_points_axes)
  have all: "blit_target dst dst_rect src src_rect = rect_points \<lparr>rx = dx, ry = dy, rw = w, rh = h\<rparr>"
    by (auto simp: rect_points_axes pts)
  have shift: "(fst p - dx + x, snd p - dy + y) = source_point src dst_rect src_rect p" for p
    using X(2) Y(2) by (simp add: source_point_def R_def [symmetric] o)
  have clip: "blit_clip dst dst_rect src src_rect = (if w > 0 \<and> h > 0
      then Some (\<lparr>rx = dx, ry = dy, rw = w, rh = h\<rparr>, \<lparr>rx = x, ry = y, rw = w, rh = h\<rparr>) else None)"
    by (simp add: blit_clip_axes o X(1) Y(1))
  show ?thesis
    using clip all shift rect_points_empty [of "\<lparr>rx = dx, ry = dy, rw = w, rh = h\<rparr>"] by (auto simp: rect_is_empty_def)
qed

lemma blit_clip_within:
  assumes "blit_ok dst dst_rect src src_rect" "blit_clip dst dst_rect src src_rect = Some (dr, sr)"
  shows "rect_within dst dr" "rect_within src (sr\<lparr>rw := rw dr, rh := rh dr\<rparr>)" "0 < rw dr"
    "rect_points dr = blit_target dst dst_rect src src_rect"
    "(fst p - rx dr + rx sr, snd p - ry dr + ry sr) = source_point src dst_rect src_rect p"
proof -
  have e: "rect_points dr = blit_target dst dst_rect src src_rect" "0 < rw dr" "0 < rh dr"
    "(fst p - rx dr + rx sr, snd p - ry dr + ry sr) = source_point src dst_rect src_rect p" for p
    using blit_clip_exact [OF assms(1)] assms(2) by auto
  show "0 < rw dr" "rect_points dr = blit_target dst dst_rect src src_rect"
    "(fst p - rx dr + rx sr, snd p - ry dr + ry sr) = source_point src dst_rect src_rect p"
    using e by auto
  have corners: "(rx dr, ry dr) \<in> rect_points dr" "(rx dr + rw dr - 1, ry dr + rh dr - 1) \<in> rect_points dr"
    using e(2,3) by (auto simp: rect_points_def)
  then have "(rx dr, ry dr) \<in> rect_points (s_clip dst)" "(rx dr + rw dr - 1, ry dr + rh dr - 1) \<in> rect_points (s_clip dst)"
    using e(1) by (auto simp: blit_target_def)
  moreover have "clip_ok dst" using assms(1) by (simp add: blit_ok_def)
  ultimately show "rect_within dst dr" by (auto simp: clip_ok_def rect_within_def rect_points_def)
  from corners have "source_point src dst_rect src_rect (rx dr, ry dr) \<in> rect_points (surface_rect src)"
    "source_point src dst_rect src_rect (rx dr + rw dr - 1, ry dr + rh dr - 1) \<in> rect_points (surface_rect src)"
    using e(1) by (auto simp: blit_target_def)
  then show "rect_within src (sr\<lparr>rw := rw dr, rh := rh dr\<rparr>)"
    using e(4) [of "(rx dr, ry dr)", symmetric] e(4) [of "(rx dr + rw dr - 1, ry dr + rh dr - 1)", symmetric]
    by (auto simp: rect_within_def rect_points_def surface_rect_def)
qed

section \<open>Translucent copies as paintings\<close>

lemma write_read_same: "n \<le> 4294967296 \<Longrightarrow> write_bytes m p (read_bytes m p n) = m"
  by (rule ext) (simp add: write_bytes_at)

lemma set_same_pixel:
  assumes "bpp_ok s"
  shows "surface_sw_set_pixel s m x y (surface_sw_get_pixel s m x y) = m"
  unfolding set_pixel_store [OF bpp_okD [OF assms]] get_pixel_load [OF bpp_okD [OF assms]]
    store_load_le [OF bpp_okD(2) [OF assms]]
  by (rule write_read_same) (use bpp_okD(2) [OF assms] in simp)

text \<open>The value a translucent copy stores: an opaque source pixel is stored as it is.\<close>

definition alpha_pixel :: "surface_t \<Rightarrow> surface_t \<Rightarrow> u32w \<Rightarrow> u32w \<Rightarrow> u32w" where
  "alpha_pixel dst src sc dc =
     (let scol = unmap_pixel_color (s_info src) sc
      in if ca scol = 0xff then sc
         else if ca scol = 0 then dc
         else map_pixel_color (s_info dst) (blend_color scol (unmap_pixel_color (s_info dst) dc)))"

lemma blit_alpha_paint:
  assumes "surface_ok dst" "surface_ok src" "rect_within dst dr" "rect_within src (sr\<lparr>rw := rw dr, rh := rh dr\<rparr>)"
  shows "sw_blit_alpha dst dr src sr m =
    paint dst dr (\<lambda>x y m. alpha_pixel dst src (surface_sw_get_pixel src m (x - rx dr + rx sr) (y - ry dr + ry sr))
      (surface_sw_get_pixel dst m x y)) m"
proof -
  have ok: "bpp_ok dst" using surface_okD assms(1) by (simp add: bpp_ok_def)
  have b: "0 \<le> rx dr" "rx dr + rw dr \<le> 536870911" "0 \<le> ry dr" "ry dr + rh dr \<le> 536870911"
    "0 \<le> rx sr" "rx sr + rw dr \<le> 536870911" "0 \<le> ry sr" "ry sr + rh dr \<le> 536870911"
    using assms by (auto simp: surface_ok_def rect_within_def)
  have s: "s32 (v + int i) = v + int i" if "0 \<le> v" "v + n \<le> 536870911" "i < nat n" for v n i
    using that by (intro s32_id) (auto simp: in_s32_def)
  have e: "a + int i - a + c = c + int i" for a c i by simp
  show ?thesis
    unfolding sw_blit_alpha_def sw_blit_alpha_generic_def paint_def Let_def [of "rx _"] Let_def [of "ry _"] Let_def [of "rw _"] Let_def [of "rh _"]
    by (intro for_loop_cong)
      (simp only: s [OF b(1,2)] s [OF b(3,4)] s [OF b(5,6)] s [OF b(7,8)] e alpha_pixel_def Let_def,
       simp add: set_same_pixel [OF ok])
qed

text \<open>A picture of two by two pixels of 24 bits each, to be copied to the small screen.\<close>

definition small_logo :: surface_t where
  "small_logo = \<lparr>s_info = set_pixel_info some_info PIXEL_FORMAT_BGR_888, s_w = 2, s_h = 2, s_pitch = 8,
     s_flag = SURFACE_PIXELS_DONTFREE, s_pixels = 0x2000, s_clip = \<lparr>rx = 0, ry = 0, rw = 2, rh = 2\<rparr>,
     s_maps = surface_set_maps no_maps, s_priv = 0\<rparr>"

lemma small_logo_info: "s_info small_logo = set_pixel_info some_info PIXEL_FORMAT_BGR_888"
  by (simp add: small_logo_def)

lemma small_blit_ok: "blit_ok small_screen (Some \<lparr>rx = 2, ry = 1, rw = 0, rh = 0\<rparr>) small_logo None"
  using small_screen_ok small_screen_clip
  by (simp add: blit_ok_def coords_ok_def coord_ok_def surface_ok_def small_logo_def)

lemma small_separate: "separate small_screen small_logo"
  by (auto simp: separate_def footprint_def small_logo_def small_screen_def)

lemma small_target:
  "(u, v) \<in> blit_target small_screen r small_logo None \<longleftrightarrow>
   0 \<le> u \<and> u < 4 \<and> 0 \<le> v \<and> v < 3 \<and>
   (u - fst (blit_origin r), v - snd (blit_origin r)) \<in> rect_points \<lparr>rx = 0, ry = 0, rw = 2, rh = 2\<rparr>"
  by (auto simp: blit_target_def source_point_def blit_source_def surface_rect_def rect_points_def small_logo_def)

section \<open>Properties\<close>







end
