(* ===== verification/Transform.thy ===== *)
theory Transform
  imports Blit
begin

text \<open>
  Rotating, mirroring and scaling a rectangle of a surface into a new surface:
  \<^verbatim>\<open>sw_rotate.c\<close> and \<^verbatim>\<open>sw_scale.c\<close>.
\<close>

section \<open>Rotation\<close>

text \<open>
  The functions for 1, 2, 3 and 4 bytes differ only in how one pixel is copied from address \<open>q\<close> to
  address \<open>p\<close>: the 3-byte code copies byte by byte.  The two loop shapes of the source are the
  copy of whole lines (\<^verbatim>\<open>ROTATE_DEGREE_0\<close>, \<^verbatim>\<open>ROTATE_MIRROR_V\<close>) and the walk that moves the source
  pointer by \<open>qstep\<close> per pixel and by \<open>sstep\<close> per line.
\<close>

type_synonym pixel_copy = "mem \<Rightarrow> addr \<Rightarrow> addr \<Rightarrow> mem"

definition rotate_lines :: "surface_t \<Rightarrow> nat \<Rightarrow> addr \<Rightarrow> u32w \<Rightarrow> mem \<Rightarrow> mem" where
  "rotate_lines dst len sp sstep m =
     fst (for_loop (\<lambda>_ (m, dp, sp). (memcpy m dp sp len, dp + s_pitch dst, sp + sstep))
       (nat (sint (s_h dst))) (m, s_pixels dst, sp))"

definition rotate_walk :: "pixel_copy \<Rightarrow> nat \<Rightarrow> surface_t \<Rightarrow> addr \<Rightarrow> u32w \<Rightarrow> u32w \<Rightarrow> mem \<Rightarrow> mem" where
  "rotate_walk copy n dst sp qstep sstep m =
     fst (for_loop (\<lambda>_ (m, dp, sp).
            let (m, p, q) = for_loop (\<lambda>_ (m, p, q). (copy m p q, p + of_nat n, q + qstep))
                              (nat (sint (s_w dst))) (m, dp, sp)
            in (m, dp + s_pitch dst, sp + sstep))
       (nat (sint (s_h dst))) (m, s_pixels dst, sp))"

definition software_rotate :: "pixel_copy \<Rightarrow> nat \<Rightarrow> surface_t \<Rightarrow> surface_t \<Rightarrow> rect_t \<Rightarrow> rotate_type \<Rightarrow> mem \<Rightarrow> mem" where
  "software_rotate copy n dst src rect type m =
     (let dw = sint (s_w dst); dh = sint (s_h dst);
          spitch = s_pitch src;
          bpp = of_nat (bytes_per_pixel (s_info src)) :: u32w;
          len = unat (bpp * word_of_int dw)
      in case type of
           ROTATE_DEGREE_0 \<Rightarrow>
             (let sp = s_pixels src + word_of_int (ry rect) * spitch + word_of_int (rx rect) * bpp
              in rotate_lines dst len sp spitch m)
         | ROTATE_DEGREE_90 \<Rightarrow>
             (let sp = s_pixels src + word_of_int (ry rect) * spitch + word_of_int (rx rect + dh - 1) * bpp
              in rotate_walk copy n dst sp spitch (- bpp) m)
         | ROTATE_DEGREE_180 \<Rightarrow>
             (let sp = s_pixels src + word_of_int (ry rect + dh - 1) * spitch + word_of_int (rx rect + dw - 1) * bpp
              in rotate_walk copy n dst sp (- of_nat n) (- spitch) m)
         | ROTATE_DEGREE_270 \<Rightarrow>
             (let sp = s_pixels src + word_of_int (ry rect + dw - 1) * spitch + word_of_int (rx rect) * bpp
              in rotate_walk copy n dst sp (- spitch) bpp m)
         | ROTATE_MIRROR_H \<Rightarrow>
             (let sp = s_pixels src + word_of_int (ry rect) * spitch + word_of_int (rx rect + dw - 1) * bpp
              in rotate_walk copy n dst sp (- of_nat n) spitch m)
         | ROTATE_MIRROR_V \<Rightarrow>
             (let sp = s_pixels src + word_of_int (ry rect + dh - 1) * spitch + word_of_int (rx rect) * bpp
              in rotate_lines dst len sp (- spitch) m))"

definition software_rotate_1byte :: "surface_t \<Rightarrow> surface_t \<Rightarrow> rect_t \<Rightarrow> rotate_type \<Rightarrow> mem \<Rightarrow> mem" where
  "software_rotate_1byte = software_rotate (\<lambda>m p q. m(p := m q)) 1"

definition software_rotate_2byte :: "surface_t \<Rightarrow> surface_t \<Rightarrow> rect_t \<Rightarrow> rotate_type \<Rightarrow> mem \<Rightarrow> mem" where
  "software_rotate_2byte = software_rotate (\<lambda>m p q. store_le 2 m p (load_le 2 m q)) 2"

definition software_rotate_3byte :: "surface_t \<Rightarrow> surface_t \<Rightarrow> rect_t \<Rightarrow> rotate_type \<Rightarrow> mem \<Rightarrow> mem" where
  "software_rotate_3byte = software_rotate (\<lambda>m p q. copy_up m p q 3) 3"

definition software_rotate_4byte :: "surface_t \<Rightarrow> surface_t \<Rightarrow> rect_t \<Rightarrow> rotate_type \<Rightarrow> mem \<Rightarrow> mem" where
  "software_rotate_4byte = software_rotate (\<lambda>m p q. store_le 4 m p (load_le 4 m q)) 4"

text \<open>
  The rectangle is cut to the surface first; a new surface of the rotated size receives the pixels.
  The allocator's functions are arguments, as for \<^const>\<open>surface_alloc\<close>; \<open>xfree\<close> releases the new surface
  again when its pixel size is none of the four.
\<close>

definition clip_to_surface :: "surface_t \<Rightarrow> rect_t option \<Rightarrow> rect_t option" where
  "clip_to_surface s rect =
     (let full = \<lparr>rx = 0, ry = 0, rw = sint (s_w s), rh = sint (s_h s)\<rparr>
      in case rect of
           None \<Rightarrow> Some full
         | Some r \<Rightarrow> (let (some, clipped) = rect_intersect r full in if some then Some clipped else None))"

definition rotated_size :: "rect_t \<Rightarrow> rotate_type \<Rightarrow> u32w \<times> u32w" where
  "rotated_size rect type =
     (if type = ROTATE_DEGREE_90 \<or> type = ROTATE_DEGREE_270
      then (word_of_int (rh rect), word_of_int (rw rect))
      else (word_of_int (rw rect), word_of_int (rh rect)))"

definition rotate_dispatch :: "surface_t \<Rightarrow> surface_t \<Rightarrow> rect_t \<Rightarrow> rotate_type \<Rightarrow> mem \<Rightarrow> mem option" where
  "rotate_dispatch t s r type m =
     (if bytes_per_pixel (s_info s) = 1 then Some (software_rotate_1byte t s r type m)
      else if bytes_per_pixel (s_info s) = 2 then Some (software_rotate_2byte t s r type m)
      else if bytes_per_pixel (s_info s) = 3 then Some (software_rotate_3byte t s r type m)
      else if bytes_per_pixel (s_info s) = 4 then Some (software_rotate_4byte t s r type m)
      else None)"

definition map_software_rotate ::
  "('h \<Rightarrow> nat \<Rightarrow> addr \<times> 'h) \<Rightarrow> ('h \<Rightarrow> addr \<Rightarrow> 'h) \<Rightarrow> ('h \<Rightarrow> surface_t \<Rightarrow> 'h) \<Rightarrow> surface_t \<Rightarrow> 'h \<Rightarrow> mem \<Rightarrow>
   surface_t option \<Rightarrow> rect_t option \<Rightarrow> rotate_type \<Rightarrow> surface_t option \<times> 'h \<times> mem" where
  "map_software_rotate xmalloc free sfree fresh hp m surface rect type =
     (case surface of
        None \<Rightarrow> (None, hp, m)
      | Some s \<Rightarrow>
          if s_pixels s = 0 then (None, hp, m)
          else if bits_per_pixel (s_info s) < 8 then (None, hp, m)
          else
            (case clip_to_surface s rect of
               None \<Rightarrow> (None, hp, m)
             | Some r \<Rightarrow>
                 (let (w, h) = rotated_size r type
                  in case surface_alloc xmalloc free fresh hp m 0 w h (fmt (s_info s)) of
                       (None, hp, m) \<Rightarrow> (None, hp, m)
                     | (Some t, hp, m) \<Rightarrow>
                         (case rotate_dispatch t s r type m of
                            Some m \<Rightarrow> (Some t, hp, m)
                          | None \<Rightarrow> (None, sfree hp t, m)))))"

section \<open>Scaling\<close>

text \<open>
  Nearest neighbour in 16.16 fixed point: the source position advances by \<open>tx\<close> per pixel and by
  \<open>ty\<close> per line, in signed 32-bit arithmetic.
\<close>

definition scale_step :: "int \<Rightarrow> int \<Rightarrow> int" where
  "scale_step len d = s32 (s32 (push_bit 16 len) sdiv d)"

definition software_scale :: "pixel_copy \<Rightarrow> nat \<Rightarrow> surface_t \<Rightarrow> surface_t \<Rightarrow> rect_t \<Rightarrow> mem \<Rightarrow> mem" where
  "software_scale copy n dst src rect m =
     (let dw = sint (s_w dst); dh = sint (s_h dst);
          tx = scale_step (rw rect) dw; ty = scale_step (rh rect) dh;
          op = s_pixels src + word_of_int (ry rect) * s_pitch src
                 + word_of_int (rx rect) * of_nat (bytes_per_pixel (s_info src))
      in fst (for_loop (\<lambda>_ (m, dp, y).
           let tp = op + word_of_int (drop_bit 16 y) * s_pitch src;
               (m, x) = for_loop (\<lambda>dx (m, x).
                 let sp = tp + word_of_int (drop_bit 16 x) * of_nat n
                 in (copy m (dp + of_nat dx * of_nat n) sp, s32 (x + tx))) (nat dw) (m, 0)
           in (m, dp + s_pitch dst, s32 (y + ty))) (nat dh) (m, s_pixels dst, 0)))"

definition software_scale_1byte :: "surface_t \<Rightarrow> surface_t \<Rightarrow> rect_t \<Rightarrow> mem \<Rightarrow> mem" where
  "software_scale_1byte = software_scale (\<lambda>m p q. m(p := m q)) 1"

definition software_scale_2byte :: "surface_t \<Rightarrow> surface_t \<Rightarrow> rect_t \<Rightarrow> mem \<Rightarrow> mem" where
  "software_scale_2byte = software_scale (\<lambda>m p q. store_le 2 m p (load_le 2 m q)) 2"

definition software_scale_3byte :: "surface_t \<Rightarrow> surface_t \<Rightarrow> rect_t \<Rightarrow> mem \<Rightarrow> mem" where
  "software_scale_3byte = software_scale (\<lambda>m p q. copy_up m p q 3) 3"

definition software_scale_4byte :: "surface_t \<Rightarrow> surface_t \<Rightarrow> rect_t \<Rightarrow> mem \<Rightarrow> mem" where
  "software_scale_4byte = software_scale (\<lambda>m p q. store_le 4 m p (load_le 4 m q)) 4"

definition scale_dispatch :: "surface_t \<Rightarrow> surface_t \<Rightarrow> rect_t \<Rightarrow> mem \<Rightarrow> mem option" where
  "scale_dispatch t s r m =
     (if bytes_per_pixel (s_info s) = 1 then Some (software_scale_1byte t s r m)
      else if bytes_per_pixel (s_info s) = 2 then Some (software_scale_2byte t s r m)
      else if bytes_per_pixel (s_info s) = 3 then Some (software_scale_3byte t s r m)
      else if bytes_per_pixel (s_info s) = 4 then Some (software_scale_4byte t s r m)
      else None)"

definition map_software_scale ::
  "('h \<Rightarrow> nat \<Rightarrow> addr \<times> 'h) \<Rightarrow> ('h \<Rightarrow> addr \<Rightarrow> 'h) \<Rightarrow> ('h \<Rightarrow> surface_t \<Rightarrow> 'h) \<Rightarrow> surface_t \<Rightarrow> 'h \<Rightarrow> mem \<Rightarrow>
   surface_t option \<Rightarrow> rect_t option \<Rightarrow> u32w \<Rightarrow> u32w \<Rightarrow> surface_t option \<times> 'h \<times> mem" where
  "map_software_scale xmalloc free sfree fresh hp m surface rect w h =
     (if w \<le> 0 \<or> h \<le> 0 then (None, hp, m)
      else
        (case surface of
           None \<Rightarrow> (None, hp, m)
         | Some s \<Rightarrow>
             if s_pixels s = 0 then (None, hp, m)
             else if bits_per_pixel (s_info s) < 8 then (None, hp, m)
             else
               (case clip_to_surface s rect of
                  None \<Rightarrow> (None, hp, m)
                | Some r \<Rightarrow>
                    (case surface_alloc xmalloc free fresh hp m 0 w h (fmt (s_info s)) of
                       (None, hp, m) \<Rightarrow> (None, hp, m)
                     | (Some t, hp, m) \<Rightarrow>
                         (case scale_dispatch t s r m of
                            Some m \<Rightarrow> (Some t, hp, m)
                          | None \<Rightarrow> (None, sfree hp t, m))))))"

section \<open>The drawing interface\<close>

definition surface_rotate ::
  "('h \<Rightarrow> nat \<Rightarrow> addr \<times> 'h) \<Rightarrow> ('h \<Rightarrow> addr \<Rightarrow> 'h) \<Rightarrow> ('h \<Rightarrow> surface_t \<Rightarrow> 'h) \<Rightarrow> surface_t \<Rightarrow> 'h \<Rightarrow> mem \<Rightarrow>
   surface_t option \<Rightarrow> rect_t option \<Rightarrow> rotate_type \<Rightarrow> surface_t option \<times> 'h \<times> mem" where
  "surface_rotate xmalloc free sfree fresh hp m surface rect type =
     (case surface of
        None \<Rightarrow> (None, hp, m)
      | Some s \<Rightarrow> (case m_rotate (s_maps s) of
                     None \<Rightarrow> (None, hp, m)
                   | Some Map_software_rotate \<Rightarrow> map_software_rotate xmalloc free sfree fresh hp m surface rect type))"

definition surface_scale ::
  "('h \<Rightarrow> nat \<Rightarrow> addr \<times> 'h) \<Rightarrow> ('h \<Rightarrow> addr \<Rightarrow> 'h) \<Rightarrow> ('h \<Rightarrow> surface_t \<Rightarrow> 'h) \<Rightarrow> surface_t \<Rightarrow> 'h \<Rightarrow> mem \<Rightarrow>
   surface_t option \<Rightarrow> rect_t option \<Rightarrow> u32w \<Rightarrow> u32w \<Rightarrow> surface_t option \<times> 'h \<times> mem" where
  "surface_scale xmalloc free sfree fresh hp m surface rect w h =
     (case surface of
        None \<Rightarrow> (None, hp, m)
      | Some s \<Rightarrow> (case m_scale (s_maps s) of
                     None \<Rightarrow> (None, hp, m)
                   | Some Map_software_scale \<Rightarrow> map_software_scale xmalloc free sfree fresh hp m surface rect w h))"

section \<open>Where a rotated pixel comes from\<close>

definition rotate_source :: "rect_t \<Rightarrow> rotate_type \<Rightarrow> int \<times> int \<Rightarrow> int \<times> int" where
  "rotate_source r type p =
     (let (u, v) = p
      in case type of
           ROTATE_DEGREE_0 \<Rightarrow> (rx r + u, ry r + v)
         | ROTATE_DEGREE_90 \<Rightarrow> (rx r + rw r - 1 - v, ry r + u)
         | ROTATE_DEGREE_180 \<Rightarrow> (rx r + rw r - 1 - u, ry r + rh r - 1 - v)
         | ROTATE_DEGREE_270 \<Rightarrow> (rx r + v, ry r + rh r - 1 - u)
         | ROTATE_MIRROR_H \<Rightarrow> (rx r + rw r - 1 - u, ry r + v)
         | ROTATE_MIRROR_V \<Rightarrow> (rx r + u, ry r + rh r - 1 - v))"

definition scale_source :: "rect_t \<Rightarrow> int \<Rightarrow> int \<Rightarrow> int \<times> int \<Rightarrow> int \<times> int" where
  "scale_source r dw dh p =
     (rx r + fst p * (rw r * 65536 div dw) div 65536, ry r + snd p * (rh r * 65536 div dh) div 65536)"

section \<open>Copying single pixels\<close>

lemma int_less_uint: "i < unat (x :: u32w) \<longleftrightarrow> int i < uint x"
  unfolding unat_eq_nat_uint by (rule zless_nat_eq_int_zless)

text \<open>
  What the loops need of the pixel copy: between separate pixels it moves the \<open>n\<close> bytes.
\<close>

locale pixel_copier =
  fixes copy :: pixel_copy and n :: nat
  assumes copy_bytes: "region p n \<inter> region q n = {} \<Longrightarrow> copy m p q = write_bytes m p (read_bytes m q n)"
    and size_ok: "1 \<le> n" "n \<le> 4"
begin

lemma copy_pixel:
  assumes "separate dst src" "inside dst x y" "inside src x' y'"
    and "bytes_per_pixel (s_info dst) = n" "bytes_per_pixel (s_info src) = n"
  shows "copy m (surface_sw_get_pointer dst x y) (surface_sw_get_pointer src x' y') =
    surface_sw_set_pixel dst m x y (surface_sw_get_pixel src m x' y')"
proof -
  have "pixel_cell dst x y \<inter> pixel_cell src x' y' = {}"
    using cell_footprint [OF assms(2)] cell_footprint [OF assms(3)] assms(1) by (auto simp: separate_def)
  then have "region (surface_sw_get_pointer dst x y) n \<inter> region (surface_sw_get_pointer src x' y') n = {}"
    using region_cell [OF assms(2)] region_cell [OF assms(3)] assms(4,5) by simp
  then show ?thesis
    using copy_bytes size_ok assms(4,5) by (simp add: set_pixel_store get_pixel_load store_load_le)
qed

text \<open>A walk whose source moves by \<open>(ax, ay)\<close> per pixel and by \<open>(bx, by)\<close> per line.\<close>

lemma rotate_walk_paint:
  fixes ax ay bx by' sx sy :: int
  assumes "surface_ok dst" "surface_ok src" "separate dst src"
    and "bytes_per_pixel (s_info dst) = n" "bytes_per_pixel (s_info src) = n"
    and "sp = word_of_int (pixel_address src sx sy)"
    and "qstep = word_of_int (ay * uint (s_pitch src) + ax * int n)"
    and "sstep = word_of_int (by' * uint (s_pitch src) + bx * int n)"
    and "\<And>u v. inside dst u v \<Longrightarrow> inside src (sx + ax * u + bx * v) (sy + ay * u + by' * v)"
  shows "rotate_walk copy n dst sp qstep sstep m =
    paint dst (surface_rect dst)
      (\<lambda>u v m. surface_sw_get_pixel src m (sx + ax * u + bx * v) (sy + ay * u + by' * v)) m"
proof -
  let ?w = "nat (uint (s_w dst))" and ?h = "nat (uint (s_h dst))"
  have body: "(\<lambda>_ (m, dp, sp).
      let (m, p, q) = for_loop (\<lambda>_ (m, p, q). (copy m p q, p + of_nat n, q + qstep)) ?w (m, dp, sp)
      in (m, dp + s_pitch dst, sp + sstep)) =
    (\<lambda>_ (m, dp, sp). (for_loop (\<lambda>i m. copy m (dp + of_nat i * of_nat n) (sp + of_nat i * qstep)) ?w m,
      dp + s_pitch dst, sp + sstep))"
    unfolding for_loop_step2 by (simp add: fun_eq_iff)
  have "rotate_walk copy n dst sp qstep sstep m =
      for_loop (\<lambda>j. for_loop (\<lambda>i m. copy m (s_pixels dst + of_nat j * s_pitch dst + of_nat i * of_nat n)
        (sp + of_nat j * sstep + of_nat i * qstep)) ?w) ?h m"
    unfolding rotate_walk_def surface_sint [OF assms(1)] body
      for_loop_step2 [of "\<lambda>m dp sp. for_loop (\<lambda>i m. copy m (dp + of_nat i * of_nat n) (sp + of_nat i * qstep)) ?w m"] by simp
  also have "\<dots> = paint dst (surface_rect dst)
      (\<lambda>u v m. surface_sw_get_pixel src m (sx + ax * u + bx * v) (sy + ay * u + by' * v)) m"
    unfolding paint_def surface_rect_def rect_t.select_convs add_0
  proof (intro for_loop_cong)
    fix j i m
    assume "j < ?h" "i < ?w"
    then have i: "inside dst (int i) (int j)" using assms(1) by (simp add: inside_def int_less_uint)
    have p: "s_pixels dst + of_nat j * s_pitch dst + of_nat i * of_nat n = surface_sw_get_pointer dst (int i) (int j)"
      using get_pointer_address [OF surface_okD [OF assms(1)]] assms(4) by (simp add: pixel_address_def)
    have q: "sp + of_nat j * sstep + of_nat i * qstep =
        surface_sw_get_pointer src (sx + ax * int i + bx * int j) (sy + ay * int i + by' * int j)"
      unfolding assms(6-8) get_pointer_address [OF surface_okD [OF assms(2)]]
      by (simp add: pixel_address_def assms(5) algebra_simps)
    show "copy m (s_pixels dst + of_nat j * s_pitch dst + of_nat i * of_nat n) (sp + of_nat j * sstep + of_nat i * qstep) =
        surface_sw_set_pixel dst m (int i) (int j)
          (surface_sw_get_pixel src m (sx + ax * int i + bx * int j) (sy + ay * int i + by' * int j))"
      unfolding p q by (rule copy_pixel [OF assms(3) i assms(9) [OF i] assms(4,5)])
  qed
  finally show ?thesis .
qed

end

text \<open>Copying whole lines, upwards or downwards in the source.\<close>

lemma rotate_lines_paint:
  fixes by' sx sy :: int
  assumes "surface_ok dst" "surface_ok src" "separate dst src"
    and "bytes_per_pixel (s_info src) = bytes_per_pixel (s_info dst)"
    and "sp = word_of_int (pixel_address src sx sy)" "sstep = word_of_int (by' * uint (s_pitch src))"
    and "len = nat (uint (s_w dst)) * bytes_per_pixel (s_info dst)" "0 < uint (s_w dst)"
    and "\<And>u v. inside dst u v \<Longrightarrow> inside src (sx + u) (sy + by' * v)"
  shows "rotate_lines dst len sp sstep m =
    paint dst (surface_rect dst) (\<lambda>u v m. surface_sw_get_pixel src m (sx + u) (sy + by' * v)) m"
proof -
  let ?w = "nat (uint (s_w dst))" and ?h = "nat (uint (s_h dst))" and ?n = "bytes_per_pixel (s_info dst)"
  have ok: "1 \<le> ?n" "?n \<le> 4" using surface_okD [OF assms(1)] by auto
  have "uint (s_w dst) \<le> 536870911" using assms(1) by (simp add: surface_ok_def)
  from nat_mono [OF this] have "?w \<le> 536870911" by (simp only: nat_numeral)
  from mult_le_mono [OF this ok(2)] have "?w * ?n \<le> 536870911 * 4" .
  then have le: "?w * ?n \<le> 4294967296" by simp
  have "rotate_lines dst len sp sstep m =
      for_loop (\<lambda>j m. memcpy m (s_pixels dst + of_nat j * s_pitch dst) (sp + of_nat j * sstep) (?w * ?n)) ?h m"
    unfolding rotate_lines_def surface_sint [OF assms(1)] assms(7) for_loop_step2 by simp
  also have "\<dots> = paint dst (surface_rect dst) (\<lambda>u v m. surface_sw_get_pixel src m (sx + u) (sy + by' * v)) m"
    unfolding paint_def surface_rect_def rect_t.select_convs add_0
  proof (rule for_loop_cong)
    fix j m assume j: "j < ?h"
    let ?d = "s_pixels dst + of_nat j * s_pitch dst" and ?s = "sp + of_nat j * sstep"
    have i: "inside dst 0 (int j)" "inside dst (uint (s_w dst) - 1) (int j)"
      using j assms(1,8) by (auto simp: inside_def int_less_uint unat_eq_nat_uint [symmetric])
    have d: "?d = surface_sw_get_pointer dst 0 (int j)"
      using get_pointer_address [OF surface_okD [OF assms(1)]] by (simp add: pixel_address_def)
    have s: "?s = surface_sw_get_pointer src sx (sy + by' * int j)"
      unfolding assms(5,6) get_pointer_address [OF surface_okD [OF assms(2)]]
      by (simp add: pixel_address_def algebra_simps)
    have sr: "0 \<le> sx" "sx + uint (s_w dst) \<le> uint (s_w src)" "0 \<le> sy + by' * int j" "sy + by' * int j < uint (s_h src)"
      using assms(9) [OF i(1)] assms(9) [OF i(2)] by (auto simp: inside_def)
    have D: "region ?d (?w * ?n) \<subseteq> footprint dst"
      using row_region(2) [OF assms(1) _ assms(8) _ _ _ d refl] i by (simp add: inside_def)
    have S: "region ?s (?w * ?n) \<subseteq> footprint src"
      using row_region(2) [OF assms(2) sr(1) assms(8) sr(2-4) s refl] assms(4) by simp
    have safe: "upward_safe ?d ?s (?w * ?n)"
      by (rule disjoint_upward_safe) (use D S assms(3) in \<open>auto simp: separate_def\<close>)
    have p: "surface_sw_get_pointer dst (int i) (int j) = ?d + of_nat i * of_nat ?n"
      and q: "surface_sw_get_pointer src (sx + int i) (sy + by' * int j) = ?s + of_nat i * of_nat ?n" for i
      using pointer_step [OF surface_okD [OF assms(1)], of 0 i "int j" 0]
        pointer_step [OF surface_okD [OF assms(2)], of sx i "sy + by' * int j" 0] d s assms(4) by simp_all
    show "memcpy m ?d ?s (?w * ?n) =
        for_loop (\<lambda>i m. surface_sw_set_pixel dst m (int i) (int j)
          (surface_sw_get_pixel src m (sx + int i) (sy + by' * int j))) ?w m"
      unfolding memcpy_bytes [OF safe le] set_pixel_store [OF surface_okD [OF assms(1)]]
        get_pixel_load [OF surface_okD [OF assms(2)]] p q assms(4)
      by (rule copy_run [OF safe le ok(2), symmetric])
  qed
  finally show ?thesis .
qed

definition swaps_sides :: "rotate_type \<Rightarrow> bool" where
  "swaps_sides type \<longleftrightarrow> type = ROTATE_DEGREE_90 \<or> type = ROTATE_DEGREE_270"

definition rotate_ok :: "surface_t \<Rightarrow> surface_t \<Rightarrow> rect_t \<Rightarrow> rotate_type \<Rightarrow> bool" where
  "rotate_ok dst src r type \<longleftrightarrow>
     surface_ok dst \<and> surface_ok src \<and> separate dst src \<and>
     bytes_per_pixel (s_info dst) = bytes_per_pixel (s_info src) \<and>
     rect_within src r \<and> 0 < rw r \<and> 0 < rh r \<and>
     uint (s_w dst) = (if swaps_sides type then rh r else rw r) \<and>
     uint (s_h dst) = (if swaps_sides type then rw r else rh r)"

lemma rotate_source_inside:
  assumes "rotate_ok dst src r type" "inside dst u v"
  shows "case rotate_source r type (u, v) of (x, y) \<Rightarrow> inside src x y"
  using assms by (cases type) (auto simp: rotate_ok_def rotate_source_def inside_def rect_within_def swaps_sides_def)

lemma line_length:
  assumes "rotate_ok dst src r type"
  shows "unat (of_nat (bytes_per_pixel (s_info src)) * word_of_int (uint (s_w dst)) :: u32w) =
    nat (uint (s_w dst)) * bytes_per_pixel (s_info dst)"
proof -
  let ?n = "bytes_per_pixel (s_info dst)"
  have "surface_ok dst" using assms by (simp add: rotate_ok_def)
  then have "?n \<le> 4" "uint (s_w dst) \<le> 536870911" by (simp_all add: surface_ok_def)
  from mult_le_mono [OF nat_mono [OF this(2)] this(1)] have "nat (uint (s_w dst)) * ?n < 4294967296" by simp
  then have "unat (of_nat (nat (uint (s_w dst)) * ?n) :: u32w) = nat (uint (s_w dst)) * ?n"
    by (rule unat_of_nat_addr)
  moreover have "(of_nat (nat (uint (s_w dst)) * ?n) :: u32w) = of_nat (bytes_per_pixel (s_info src)) * word_of_int (uint (s_w dst))"
    using assms by (simp add: rotate_ok_def mult.commute)
  ultimately show ?thesis by simp
qed

context pixel_copier
begin

lemma software_rotate_paint:
  assumes "rotate_ok dst src r type" "bytes_per_pixel (s_info src) = n"
  shows "software_rotate copy n dst src r type m =
    paint dst (surface_rect dst)
      (\<lambda>u v m. surface_sw_get_pixel src m (fst (rotate_source r type (u, v))) (snd (rotate_source r type (u, v)))) m"
proof -
  have ok: "surface_ok dst" "surface_ok src" "separate dst src" "bytes_per_pixel (s_info dst) = n"
    "bytes_per_pixel (s_info src) = bytes_per_pixel (s_info dst)" "0 < uint (s_w dst)"
    using assms by (auto simp: rotate_ok_def)
  have d: "uint (s_w dst) = (if swaps_sides type then rh r else rw r)" "uint (s_h dst) = (if swaps_sides type then rw r else rh r)"
    using assms(1) by (simp_all add: rotate_ok_def)
  note walk = rotate_walk_paint [OF ok(1-4) assms(2)] and lines = rotate_lines_paint [OF ok(1-3,5)]
  note src = rotate_source_inside [OF assms(1)]
  note len = line_length [OF assms(1), unfolded d]
  note unf = software_rotate_def Let_def surface_sint [OF ok(1)] d
  show ?thesis
  proof (cases type)
    case ROTATE_DEGREE_0
    show ?thesis using lines [of _ "rx r" "ry r" _ 1, OF refl refl _ ok(6)] src len ROTATE_DEGREE_0
      by (simp add: unf rotate_source_def swaps_sides_def pixel_address_def)
  next
    case ROTATE_DEGREE_90
    show ?thesis using walk [of _ "rx r + rw r - 1" "ry r" _ 1 0 _ 0 "- 1", OF refl refl refl] src ROTATE_DEGREE_90
      by (simp add: unf rotate_source_def swaps_sides_def pixel_address_def assms(2))
  next
    case ROTATE_DEGREE_180
    show ?thesis using walk [of _ "rx r + rw r - 1" "ry r + rh r - 1" _ 0 "- 1" _ "- 1" 0, OF refl refl refl] src ROTATE_DEGREE_180
      by (simp add: unf rotate_source_def swaps_sides_def pixel_address_def assms(2))
  next
    case ROTATE_DEGREE_270
    show ?thesis using walk [of _ "rx r" "ry r + rh r - 1" _ "- 1" 0 _ 0 1, OF refl refl refl] src ROTATE_DEGREE_270
      by (simp add: unf rotate_source_def swaps_sides_def pixel_address_def assms(2))
  next
    case ROTATE_MIRROR_H
    show ?thesis using walk [of _ "rx r + rw r - 1" "ry r" _ 0 "- 1" _ 1 0, OF refl refl refl] src ROTATE_MIRROR_H
      by (simp add: unf rotate_source_def swaps_sides_def pixel_address_def assms(2))
  next
    case ROTATE_MIRROR_V
    show ?thesis using lines [of _ "rx r" "ry r + rh r - 1" _ "- 1", OF refl refl _ ok(6)] src len ROTATE_MIRROR_V
      by (simp add: unf rotate_source_def swaps_sides_def pixel_address_def)
  qed
qed

end

section \<open>Scaling samples inside the rectangle\<close>

definition scale_ok :: "surface_t \<Rightarrow> surface_t \<Rightarrow> rect_t \<Rightarrow> bool" where
  "scale_ok dst src r \<longleftrightarrow>
     surface_ok dst \<and> surface_ok src \<and> separate dst src \<and>
     bytes_per_pixel (s_info dst) = bytes_per_pixel (s_info src) \<and>
     rect_within src r \<and> 0 < rw r \<and> rw r < 32768 \<and> 0 < rh r \<and> rh r < 32768 \<and>
     0 < uint (s_w dst) \<and> 0 < uint (s_h dst)"

lemma scale_step_value:
  assumes "0 \<le> len" "len < 32768" "0 < d"
  shows "scale_step len d = len * 65536 div d"
proof -
  have "len * 65536 < 2147483648" using assms(2) by simp
  moreover have "push_bit 16 len = len * 65536" by (simp add: push_bit_eq_mult)
  moreover from this have "s32 (push_bit 16 len) = len * 65536" using assms calculation
    by (intro trans [OF s32_id]) (auto simp: in_s32_def)
  moreover have "(len * 65536) sdiv d = len * 65536 div d" using assms by (auto simp: signed_divide_int_def sgn_if)
  moreover have "0 \<le> len * 65536 div d" "len * 65536 div d \<le> len * 65536"
    using assms zdiv_mono2 [of "len * 65536" 1 d] by (simp_all add: pos_imp_zdiv_nonneg_iff)
  ultimately show ?thesis unfolding scale_step_def by (auto intro!: s32_id simp: in_s32_def)
qed

lemma scale_sample:
  fixes len d u :: int
  assumes "0 < len" "0 < d" "0 \<le> u" "u < d"
  shows "0 \<le> u * (len * 65536 div d) div 65536" "u * (len * 65536 div d) div 65536 < len"
    and "(u + 1) * (len * 65536 div d) \<le> len * 65536"
proof -
  let ?t = "len * 65536 div d"
  have t: "0 \<le> ?t" using assms by (simp add: pos_imp_zdiv_nonneg_iff)
  then show "0 \<le> u * ?t div 65536" using assms by (simp add: pos_imp_zdiv_nonneg_iff)
  have "d * ?t + len * 65536 mod d = len * 65536" by (rule mult_div_mod_eq)
  then have "d * ?t \<le> len * 65536" using pos_mod_sign [OF assms(2), of "len * 65536"] by linarith
  moreover have "(u + 1) * ?t \<le> d * ?t" using t assms(4) by (intro mult_right_mono) auto
  ultimately show le: "(u + 1) * ?t \<le> len * 65536" by linarith
  have "u * ?t < len * 65536"
  proof (cases "?t = 0")
    case True
    then show ?thesis using assms(1) by simp
  next
    case False
    then show ?thesis using le t by (simp add: algebra_simps)
  qed
  then show "u * ?t div 65536 < len" using zdiv_mono1 [of "u * ?t" "len * 65536 - 1" 65536]
    by (simp add: div_less_iff_less_mult mult.commute)
qed

lemma for_loop_accumulate:
  assumes "int n * t < 2147483648" "0 \<le> t"
  shows "for_loop (\<lambda>i (s, x). (g i s x, s32 (x + t))) n (s, 0) =
    (for_loop (\<lambda>i s. g i s (int i * t)) n s, int n * t)"
  using assms(1)
proof (induction n)
  case (Suc n)
  have "int n * t \<le> int (Suc n) * t" using assms(2) by (simp add: algebra_simps)
  then have "for_loop (\<lambda>i (s, x). (g i s x, s32 (x + t))) n (s, 0) = (for_loop (\<lambda>i s. g i s (int i * t)) n s, int n * t)"
    using Suc by simp
  moreover have "s32 (int n * t + t) = int (Suc n) * t"
  proof -
    have e: "int n * t + t = int (Suc n) * t" by (simp add: algebra_simps)
    have "0 \<le> int (Suc n) * t" using assms(2) by simp
    then show ?thesis unfolding e using Suc.prems by (intro s32_id) (simp add: in_s32_def)
  qed
  ultimately show ?case by simp
qed simp

text \<open>The same with a destination pointer that advances once per line.\<close>

lemma for_loop_accumulate2:
  fixes p :: u32w
  assumes "int n * t < 2147483648" "0 \<le> t"
  shows "for_loop (\<lambda>i (s, p, y). (g s p y, p + d, s32 (y + t))) n (s, p, 0) =
    (for_loop (\<lambda>i s. g s (p + of_nat i * d) (int i * t)) n s, p + of_nat n * d, int n * t)"
  using assms(1)
proof (induction n)
  case (Suc n)
  have "int n * t \<le> int (Suc n) * t" using assms(2) by (simp add: algebra_simps)
  then have "for_loop (\<lambda>i (s, p, y). (g s p y, p + d, s32 (y + t))) n (s, p, 0) =
      (for_loop (\<lambda>i s. g s (p + of_nat i * d) (int i * t)) n s, p + of_nat n * d, int n * t)"
    using Suc by simp
  moreover have "s32 (int n * t + t) = int (Suc n) * t"
  proof -
    have e: "int n * t + t = int (Suc n) * t" by (simp add: algebra_simps)
    have "0 \<le> int (Suc n) * t" using assms(2) by simp
    then show ?thesis unfolding e using Suc.prems by (intro s32_id) (simp add: in_s32_def)
  qed
  ultimately show ?case by (simp add: algebra_simps)
qed simp

context pixel_copier
begin

lemma software_scale_paint:
  assumes "scale_ok dst src r" "bytes_per_pixel (s_info src) = n"
  shows "software_scale copy n dst src r m =
    paint dst (surface_rect dst)
      (\<lambda>u v m. surface_sw_get_pixel src m (fst (scale_source r (uint (s_w dst)) (uint (s_h dst)) (u, v)))
                 (snd (scale_source r (uint (s_w dst)) (uint (s_h dst)) (u, v)))) m"
proof -
  have ok: "surface_ok dst" "surface_ok src" "separate dst src" "bytes_per_pixel (s_info dst) = n" "rect_within src r"
    and r: "0 < rw r" "rw r < 32768" "0 < rh r" "rh r < 32768" and d: "0 < uint (s_w dst)" "0 < uint (s_h dst)"
    using assms by (auto simp: scale_ok_def)
  let ?w = "nat (uint (s_w dst))" and ?h = "nat (uint (s_h dst))"
  define tx where "tx = rw r * 65536 div uint (s_w dst)"
  define ty where "ty = rh r * 65536 div uint (s_h dst)"
  have t: "scale_step (rw r) (uint (s_w dst)) = tx" "scale_step (rh r) (uint (s_h dst)) = ty" "0 \<le> tx" "0 \<le> ty"
    using r d by (simp_all add: scale_step_value tx_def ty_def pos_imp_zdiv_nonneg_iff)
  have b: "int ?w * tx < 2147483648" "int ?h * ty < 2147483648"
    using scale_sample(3) [OF r(1) d(1), of "uint (s_w dst) - 1"] scale_sample(3) [OF r(3) d(2), of "uint (s_h dst) - 1"] r d
    by (simp_all add: tx_def ty_def)
  define op where "op = s_pixels src + word_of_int (ry r) * s_pitch src + word_of_int (rx r) * of_nat n"
  let ?row = "\<lambda>m dp y. for_loop (\<lambda>i m. copy m (dp + of_nat i * of_nat n)
      (op + word_of_int (drop_bit 16 y) * s_pitch src + word_of_int (drop_bit 16 (int i * tx)) * of_nat n)) ?w m"
  have body: "(\<lambda>_ (m, dp, y).
      case for_loop (\<lambda>dx (m, x). (copy m (dp + of_nat dx * of_nat n)
             (op + word_of_int (drop_bit 16 y) * s_pitch src + word_of_int (drop_bit 16 x) * of_nat n), s32 (x + tx))) ?w (m, 0)
      of (m, x) \<Rightarrow> (m, dp + s_pitch dst, s32 (y + ty))) =
      (\<lambda>_ (m, dp, y). (?row m dp y, dp + s_pitch dst, s32 (y + ty)))"
    unfolding for_loop_accumulate [OF b(1) t(3)] by (simp add: fun_eq_iff)
  have "software_scale copy n dst src r m =
      fst (for_loop (\<lambda>_ (m, dp, y). (?row m dp y, dp + s_pitch dst, s32 (y + ty))) ?h (m, s_pixels dst, 0))"
    unfolding body [symmetric] software_scale_def Let_def surface_sint [OF ok(1)] t(1,2) op_def [symmetric] assms(2) ..
  also have "\<dots> = for_loop (\<lambda>j m. ?row m (s_pixels dst + of_nat j * s_pitch dst) (int j * ty)) ?h m"
    unfolding for_loop_accumulate2 [OF b(2) t(4), of ?row] by simp
  also have "\<dots> = paint dst (surface_rect dst)
      (\<lambda>u v m. surface_sw_get_pixel src m (fst (scale_source r (uint (s_w dst)) (uint (s_h dst)) (u, v)))
                 (snd (scale_source r (uint (s_w dst)) (uint (s_h dst)) (u, v)))) m"
    unfolding paint_def surface_rect_def rect_t.select_convs add_0
  proof (intro for_loop_cong)
    fix j i m
    assume "j < ?h" "i < ?w"
    then have ij: "int i < uint (s_w dst)" "int j < uint (s_h dst)" by (simp_all add: int_less_uint)
    let ?x = "rx r + int i * tx div 65536" and ?y = "ry r + int j * ty div 65536"
    have in_dst: "inside dst (int i) (int j)" using ij ok(1) by (simp add: inside_def)
    have in_src: "inside src ?x ?y"
      using scale_sample(1,2) [OF r(1) d(1) _ ij(1)] scale_sample(1,2) [OF r(3) d(2) _ ij(2)] ok(2,5)
      by (auto simp: inside_def rect_within_def tx_def ty_def)
    have p: "s_pixels dst + of_nat j * s_pitch dst + of_nat i * of_nat n = surface_sw_get_pointer dst (int i) (int j)"
      using get_pointer_address [OF surface_okD [OF ok(1)]] ok(4) by (simp add: pixel_address_def)
    have q: "op + word_of_int (drop_bit 16 (int j * ty)) * s_pitch src + word_of_int (drop_bit 16 (int i * tx)) * of_nat n =
        surface_sw_get_pointer src ?x ?y"
      unfolding op_def get_pointer_address [OF surface_okD [OF ok(2)]]
      by (simp add: pixel_address_def assms(2) drop_bit_eq_div algebra_simps)
    show "copy m (s_pixels dst + of_nat j * s_pitch dst + of_nat i * of_nat n)
          (op + word_of_int (drop_bit 16 (int j * ty)) * s_pitch src + word_of_int (drop_bit 16 (int i * tx)) * of_nat n) =
        surface_sw_set_pixel dst m (int i) (int j)
          (surface_sw_get_pixel src m (fst (scale_source r (uint (s_w dst)) (uint (s_h dst)) (int i, int j)))
            (snd (scale_source r (uint (s_w dst)) (uint (s_h dst)) (int i, int j))))"
      unfolding p q using copy_pixel [OF ok(3) in_dst in_src ok(4) assms(2)]
      by (simp add: scale_source_def tx_def ty_def)
  qed
  finally show ?thesis .
qed

end

interpretation copy1: pixel_copier "\<lambda>m p q. m(p := m q)" 1
  by unfold_locales simp_all

interpretation copy2: pixel_copier "\<lambda>m p q. store_le 2 m p (load_le 2 m q)" 2
  by unfold_locales (simp_all add: store_load_le)

interpretation copy3: pixel_copier "\<lambda>m p q. copy_up m p q 3" 3
  by unfold_locales (simp_all add: copy_up_bytes disjoint_upward_safe)

interpretation copy4: pixel_copier "\<lambda>m p q. store_le 4 m p (load_le 4 m q)" 4
  by unfold_locales (simp_all add: store_load_le)

section \<open>Correctness of the transformations\<close>

lemma fit_same_size:
  assumes "surface_ok src" "bytes_per_pixel (s_info dst) = bytes_per_pixel (s_info src)"
  shows "fit dst (surface_sw_get_pixel src m x y) = surface_sw_get_pixel src m x y"
  using assms by (simp add: fit_def get_pixel_load [OF surface_okD] load_take_bit)

lemma surface_rect_within: "rect_within s (surface_rect s)"
  by (simp add: rect_within_def surface_rect_def)

lemma inside_surface_rect: "inside s u v \<Longrightarrow> (u, v) \<in> rect_points (surface_rect s)"
  by (simp add: inside_def rect_points_def surface_rect_def)

text \<open>Painting a whole surface with pixels of a separate surface.\<close>

lemma paint_from:
  assumes "surface_ok dst" "surface_ok src" "separate dst src" "bytes_per_pixel (s_info dst) = bytes_per_pixel (s_info src)"
    and "\<And>x y. inside dst x y \<Longrightarrow> inside src (fst (g x y)) (snd (g x y))" "inside dst u v"
  shows "surface_sw_get_pixel dst
      (paint dst (surface_rect dst) (\<lambda>x y m. surface_sw_get_pixel src m (fst (g x y)) (snd (g x y))) m) u v =
    surface_sw_get_pixel src m (fst (g u v)) (snd (g u v))"
proof -
  have "surface_sw_get_pixel dst
      (paint dst (surface_rect dst) (\<lambda>x y m. surface_sw_get_pixel src m (fst (g x y)) (snd (g x y))) m) u v =
    (if (u, v) \<in> rect_points (surface_rect dst) then fit dst (surface_sw_get_pixel src m (fst (g u v)) (snd (g u v)))
     else surface_sw_get_pixel dst m u v)"
  proof (rule paint_get_pixel [OF assms(1) surface_rect_within assms(6)])
    fix x y m'
    assume "(x, y) \<in> rect_points (surface_rect dst)"
      and same: "\<And>t x' y'. separate dst t \<Longrightarrow> inside t x' y' \<Longrightarrow>
        surface_sw_get_pixel t m' x' y' = surface_sw_get_pixel t m x' y'"
    then have "inside dst x y" using assms(1) by (simp add: inside_def rect_points_def surface_rect_def)
    from same [OF assms(3) assms(5) [OF this]]
    show "surface_sw_get_pixel src m' (fst (g x y)) (snd (g x y)) = surface_sw_get_pixel src m (fst (g x y)) (snd (g x y))" .
  qed
  then show ?thesis using inside_surface_rect [OF assms(6)] fit_same_size [OF assms(2,4)] by simp
qed

lemma paint_separate:
  assumes "surface_ok dst" "separate dst t" "inside t u v"
  shows "surface_sw_get_pixel t (paint dst (surface_rect dst) f m) u v = surface_sw_get_pixel t m u v"
  unfolding paint_fold
  by (rule pixels.paint_apart [OF rect_list_inside [OF assms(1) surface_rect_within] assms(2,3)])

lemma bpp_cases:
  assumes "surface_ok s"
  obtains "bytes_per_pixel (s_info s) = 1" | "bytes_per_pixel (s_info s) = 2"
    | "bytes_per_pixel (s_info s) = 3" | "bytes_per_pixel (s_info s) = 4"
  using surface_okD [OF assms] by linarith

lemma rotate_dispatch_paint:
  assumes "rotate_ok dst src r type"
  shows "rotate_dispatch dst src r type m = Some (paint dst (surface_rect dst)
      (\<lambda>u v m. surface_sw_get_pixel src m (fst (rotate_source r type (u, v))) (snd (rotate_source r type (u, v)))) m)"
proof -
  have ok: "surface_ok src" using assms by (simp add: rotate_ok_def)
  show ?thesis
    using ok
  proof (cases rule: bpp_cases)
    case 1
    then show ?thesis using copy1.software_rotate_paint [OF assms] by (simp add: rotate_dispatch_def software_rotate_1byte_def)
  next
    case 2
    then show ?thesis using copy2.software_rotate_paint [OF assms] by (simp add: rotate_dispatch_def software_rotate_2byte_def)
  next
    case 3
    then show ?thesis using copy3.software_rotate_paint [OF assms] by (simp add: rotate_dispatch_def software_rotate_3byte_def)
  next
    case 4
    then show ?thesis using copy4.software_rotate_paint [OF assms] by (simp add: rotate_dispatch_def software_rotate_4byte_def)
  qed
qed

lemma scale_dispatch_paint:
  assumes "scale_ok dst src r"
  shows "scale_dispatch dst src r m = Some (paint dst (surface_rect dst)
      (\<lambda>u v m. surface_sw_get_pixel src m (fst (scale_source r (uint (s_w dst)) (uint (s_h dst)) (u, v)))
                 (snd (scale_source r (uint (s_w dst)) (uint (s_h dst)) (u, v)))) m)"
proof -
  have ok: "surface_ok src" using assms by (simp add: scale_ok_def)
  show ?thesis
    using ok
  proof (cases rule: bpp_cases)
    case 1
    then show ?thesis using copy1.software_scale_paint [OF assms] by (simp add: scale_dispatch_def software_scale_1byte_def)
  next
    case 2
    then show ?thesis using copy2.software_scale_paint [OF assms] by (simp add: scale_dispatch_def software_scale_2byte_def)
  next
    case 3
    then show ?thesis using copy3.software_scale_paint [OF assms] by (simp add: scale_dispatch_def software_scale_3byte_def)
  next
    case 4
    then show ?thesis using copy4.software_scale_paint [OF assms] by (simp add: scale_dispatch_def software_scale_4byte_def)
  qed
qed

lemma rotate_pixel:
  assumes "rotate_ok dst src r type" "inside dst u v" "rotate_dispatch dst src r type m = Some m'"
  shows "surface_sw_get_pixel dst m' u v =
    surface_sw_get_pixel src m (fst (rotate_source r type (u, v))) (snd (rotate_source r type (u, v)))"
proof -
  have ok: "surface_ok dst" "surface_ok src" "separate dst src" "bytes_per_pixel (s_info dst) = bytes_per_pixel (s_info src)"
    using assms(1) by (simp_all add: rotate_ok_def)
  have "inside src (fst (rotate_source r type (x, y))) (snd (rotate_source r type (x, y)))" if "inside dst x y" for x y
    using rotate_source_inside [OF assms(1) that] by (simp add: case_prod_beta)
  from paint_from [where g = "\<lambda>x y. rotate_source r type (x, y)" and m = m, OF ok this assms(2)]
  show ?thesis using assms(3) rotate_dispatch_paint [OF assms(1), of m] by simp
qed

lemma scale_source_inside:
  assumes "scale_ok dst src r" "inside dst u v"
  shows "inside src (fst (scale_source r (uint (s_w dst)) (uint (s_h dst)) (u, v)))
                    (snd (scale_source r (uint (s_w dst)) (uint (s_h dst)) (u, v)))"
proof -
  have "0 \<le> u * (rw r * 65536 div uint (s_w dst)) div 65536" "u * (rw r * 65536 div uint (s_w dst)) div 65536 < rw r"
    "0 \<le> v * (rh r * 65536 div uint (s_h dst)) div 65536" "v * (rh r * 65536 div uint (s_h dst)) div 65536 < rh r"
    using assms by (auto simp: scale_ok_def inside_def intro!: scale_sample)
  then show ?thesis using assms(1) by (auto simp: scale_ok_def inside_def rect_within_def scale_source_def)
qed

lemma scale_pixel:
  assumes "scale_ok dst src r" "inside dst u v" "scale_dispatch dst src r m = Some m'"
  shows "surface_sw_get_pixel dst m' u v =
    surface_sw_get_pixel src m (fst (scale_source r (uint (s_w dst)) (uint (s_h dst)) (u, v)))
      (snd (scale_source r (uint (s_w dst)) (uint (s_h dst)) (u, v)))"
proof -
  have ok: "surface_ok dst" "surface_ok src" "separate dst src" "bytes_per_pixel (s_info dst) = bytes_per_pixel (s_info src)"
    using assms(1) by (simp_all add: scale_ok_def)
  from paint_from [where g = "\<lambda>x y. scale_source r (uint (s_w dst)) (uint (s_h dst)) (x, y)" and m = m,
      OF ok scale_source_inside [OF assms(1)] assms(2)]
  show ?thesis using assms(3) scale_dispatch_paint [OF assms(1), of m] by simp
qed

text \<open>A new surface for the result: it is separate from the source when the allocator's block is.\<close>

definition blocks_apart :: "('h \<Rightarrow> nat \<Rightarrow> addr \<times> 'h) \<Rightarrow> surface_t \<Rightarrow> bool" where
  "blocks_apart xmalloc s \<longleftrightarrow>
     (\<forall>hp n p hp'. xmalloc hp n = (p, hp') \<longrightarrow> p \<noteq> 0 \<longrightarrow>
        uint p + int n \<le> 4294967296 \<and> region p n \<inter> footprint s = {})"

definition fits_memory :: "pixel_format \<Rightarrow> u32w \<Rightarrow> u32w \<Rightarrow> bool" where
  "fits_memory f w h \<longleftrightarrow> uint w \<le> 536870911 \<and> uint h \<le> 536870911 \<and> w \<noteq> 0 \<and>
     uint h * ((uint w * int (bytes_per_pixel (set_pixel_info some_info f)) + 3) div 4 * 4) < 4294967296"

lemma bytes_per_pixel_format:
  "f \<noteq> PIXEL_FORMAT_GENERIC \<Longrightarrow> bytes_per_pixel (set_pixel_info i f) = bytes_per_pixel (set_pixel_info j f)"
  by (cases f) (simp_all add: set_pixel_info_def put_layout_def)

lemma format_bits:
  "f \<noteq> PIXEL_FORMAT_GENERIC \<Longrightarrow> 8 \<le> bits_per_pixel (set_pixel_info i f)"
  by (cases f) (simp_all add: set_pixel_info_def put_layout_def)

lemma new_surface:
  assumes "surface_ok s" "s_info s = set_pixel_info i f" "f \<noteq> PIXEL_FORMAT_GENERIC"
    and "surface_alloc xmalloc free fresh hp m 0 w h f = (Some t, hp', m')" "blocks_apart xmalloc s" "fits_memory f w h"
  shows "surface_ok t" "separate t s" "bytes_per_pixel (s_info t) = bytes_per_pixel (s_info s)" "s_w t = w" "s_h t = h"
    and "inside s x y \<Longrightarrow> surface_sw_get_pixel s m' x y = surface_sw_get_pixel s m x y"
proof -
  have w: "w \<noteq> 0" using assms(6) by (simp add: fits_memory_def)
  note new = surface_alloc_new [OF assms(4,3) w]
  obtain hp1 px hp2 where t: "s_info t = set_pixel_info (s_info fresh) f" "s_w t = w" "s_h t = h"
    "s_pixels t = px" "px \<noteq> 0" "xmalloc hp1 (unat (h * s_pitch t)) = (px, hp2)"
    "m' = memset m px 0xff (unat (h * s_pitch t))"
    using surface_alloc_parts [OF assms(4) w] by blast
  show ok: "surface_ok t"
  proof (rule new(1))
    have "bytes_per_pixel (set_pixel_info (s_info fresh) f) = bytes_per_pixel (set_pixel_info some_info f)"
      by (rule bytes_per_pixel_format [OF assms(3)])
    then show "uint h * ((uint w * int (bytes_per_pixel (set_pixel_info (s_info fresh) f)) + 3) div 4 * 4) < 4294967296"
      using assms(6) by (simp only: fits_memory_def)
  qed (use assms(5,6) in \<open>auto simp: fits_memory_def blocks_apart_def\<close>)
  show "bytes_per_pixel (s_info t) = bytes_per_pixel (s_info s)" "s_w t = w" "s_h t = h"
    using t assms(2) bytes_per_pixel_format [OF assms(3)] by auto
  have block: "uint px + int (unat (h * s_pitch t)) \<le> 4294967296" "region px (unat (h * s_pitch t)) \<inter> footprint s = {}"
    using assms(5) t(5,6) unfolding blocks_apart_def by blast+
  have size: "uint h * uint (s_pitch t) < 4294967296"
  proof -
    have "0 \<le> uint h * uint (s_pitch t)" "uint (s_pixels t) + uint h * uint (s_pitch t) \<le> 4294967296" "0 < uint (s_pixels t)"
      using ok t(3,4,5) uint_0_iff [of px] uint_ge_0 [of px] by (auto simp: surface_ok_def order_less_le)
    then show ?thesis by linarith
  qed
  then have len: "int (unat (h * s_pitch t)) = uint h * uint (s_pitch t)" by (simp add: uint_word_ariths)
  have fp: "footprint t = region px (unat (h * s_pitch t))"
    using region_range [OF block(1)] len t(3,4) by (auto simp: footprint_def)
  then show "separate t s" using block(2) by (simp add: separate_def)
  assume i: "inside s x y"
  show "surface_sw_get_pixel s m' x y = surface_sw_get_pixel s m x y"
  proof (rule get_pixel_cong [OF i])
    fix a assume "a \<in> pixel_cell s x y"
    then have "a \<notin> region px (unat (h * s_pitch t))" using cell_footprint [OF i] block(2) by auto
    then show "m' a = m a" using t(7) by (simp add: memset_bytes write_bytes_at region_def unat_bound less_imp_le)
  qed
qed

lemma clip_to_surface_within:
  assumes "surface_ok s" "case rect of None \<Rightarrow> 0 < uint (s_w s) \<and> 0 < uint (s_h s) | Some r \<Rightarrow> rect_ok r" "clip_to_surface s rect = Some r"
  shows "rect_within s r" "0 < rw r" "0 < rh r"
    "rect_points r = (case rect of None \<Rightarrow> rect_points (surface_rect s) | Some r' \<Rightarrow> rect_points r' \<inter> rect_points (surface_rect s))"
proof -
  have full: "\<lparr>rx = 0, ry = 0, rw = sint (s_w s), rh = sint (s_h s)\<rparr> = surface_rect s"
    by (simp add: surface_rect_def surface_sint [OF assms(1)])
  have ok: "rect_ok (surface_rect s)"
  proof -
    have "- 1073741823 \<le> uint (s_w s)" "- 1073741823 \<le> uint (s_h s)"
      using uint_ge_0 [of "s_w s"] uint_ge_0 [of "s_h s"] by linarith+
    then show ?thesis using assms(1) by (simp add: rect_ok_def edge_ok_def surface_rect_def surface_ok_def)
  qed
  have "rect_within s r \<and> 0 < rw r \<and> 0 < rh r \<and>
    rect_points r = (case rect of None \<Rightarrow> rect_points (surface_rect s) | Some r' \<Rightarrow> rect_points r' \<inter> rect_points (surface_rect s))"
  proof (cases rect)
    case None
    then show ?thesis using assms(2,3) surface_rect_within by (auto simp: clip_to_surface_def full) (auto simp: surface_rect_def)
  next
    case (Some r')
    then have "rect_intersect r' (surface_rect s) = (True, r)"
      using assms(3) by (auto simp: clip_to_surface_def full split: prod.splits if_splits)
    from intersect_within [OF _ surface_rect_within ok this] show ?thesis using assms(2) Some by simp
  qed
  then show "rect_within s r" "0 < rw r" "0 < rh r"
    "rect_points r = (case rect of None \<Rightarrow> rect_points (surface_rect s) | Some r' \<Rightarrow> rect_points r' \<inter> rect_points (surface_rect s))"
    by auto
qed

text \<open>A concrete allocator, for the examples: it hands out the 32 kilobytes from \<open>0x8000\<close> in order.\<close>

definition bump_alloc :: "nat \<Rightarrow> nat \<Rightarrow> addr \<times> nat" where
  "bump_alloc hp n = (if 0x8000 \<le> hp \<and> hp + n \<le> 0x10000 then (word_of_nat hp, hp + n) else (0, hp))"

lemma bump_blocks_apart: "blocks_apart bump_alloc small_logo"
proof -
  have "uint (word_of_nat hp :: addr) + int n \<le> 4294967296 \<and> region (word_of_nat hp) n \<inter> footprint small_logo = {}"
    if "0x8000 \<le> hp" "hp + n \<le> 0x10000" for hp n
  proof -
    have "uint (word_of_nat hp :: addr) = int hp" using that by (simp add: uint_nat unat_of_nat)
    then show ?thesis
      using that region_range [of "word_of_nat hp" n] by (auto simp: footprint_def small_logo_def)
  qed
  then show ?thesis by (auto simp: blocks_apart_def bump_alloc_def split: if_splits)
qed

definition small_copy :: surface_t where
  "small_copy = \<lparr>s_info = set_pixel_info some_info PIXEL_FORMAT_BGR_888, s_w = 2, s_h = 2, s_pitch = 8,
     s_flag = SURFACE_PIXELS_NEEDFREE, s_pixels = 0x8054, s_clip = \<lparr>rx = 0, ry = 0, rw = 2, rh = 2\<rparr>,
     s_maps = surface_set_maps no_maps, s_priv = 0\<rparr>"

lemma small_copy_alloc:
  "surface_alloc bump_alloc (\<lambda>hp _. hp) small_logo 0x8000 m 0 2 2 PIXEL_FORMAT_BGR_888 =
   (Some small_copy, 0x8064, memset m 0x8054 0xff 16)"
proof -
  have "line_pitch (set_pixel_info some_info PIXEL_FORMAT_BGR_888) 2 = 8" by code_simp
  then show ?thesis
    by (simp add: surface_alloc_def bump_alloc_def sizeof_surface_def surface_set_clip_rect_def Let_def small_logo_def small_copy_def)
      (simp add: set_pixel_info_def put_layout_def some_info_def)
qed

lemma small_copy_inside: "0 \<le> u \<Longrightarrow> u < 2 \<Longrightarrow> 0 \<le> v \<Longrightarrow> v < 2 \<Longrightarrow> inside small_copy u v"
  by (simp add: inside_def surface_ok_def small_copy_def)

lemma small_copy_fits: "fits_memory PIXEL_FORMAT_BGR_888 2 2"
  by (simp add: fits_memory_def)

lemma small_logo_ok: "surface_ok small_logo" "0 < uint (s_w small_logo) \<and> 0 < uint (s_h small_logo)"
  "clip_to_surface small_logo None = Some \<lparr>rx = 0, ry = 0, rw = 2, rh = 2\<rparr>"
  by (simp_all add: surface_ok_def small_logo_def clip_to_surface_def)

section \<open>Properties\<close>



text \<open>C27: Rotating by 90 degrees and the result by 270 degrees gives back the rectangle.\<close>

theorem rotate_back:
  assumes "rotate_ok d src r ROTATE_DEGREE_90" "rotate_ok e d (surface_rect d) ROTATE_DEGREE_270"
    and "rotate_dispatch d src r ROTATE_DEGREE_90 m = Some m1"
    and "rotate_dispatch e d (surface_rect d) ROTATE_DEGREE_270 m1 = Some m2" "inside e u v"
  shows "surface_sw_get_pixel e m2 u v = surface_sw_get_pixel src m (rx r + u) (ry r + v)"
proof -
  obtain x y where xy: "rotate_source (surface_rect d) ROTATE_DEGREE_270 (u, v) = (x, y)" by fastforce
  have "inside d x y" using rotate_source_inside [OF assms(2,5)] xy by simp
  moreover have "x = v" "y = uint (s_h d) - 1 - u" using xy by (simp_all add: rotate_source_def surface_rect_def)
  moreover have "uint (s_h d) = rw r" using assms(1) by (simp add: rotate_ok_def swaps_sides_def)
  ultimately show ?thesis
    using rotate_pixel [OF assms(2,5,4)] rotate_pixel [OF assms(1) _ assms(3), of x y] xy
    by (simp add: rotate_source_def)
qed

lemma rotate_back_witness:
  "let d = small_logo\<lparr>s_pixels := 0x3000, s_w := 1\<rparr>; e = small_logo\<lparr>s_pixels := 0x4000, s_h := 1\<rparr>;
       r = \<lparr>rx = 0, ry = 1, rw = 2, rh = 1\<rparr>; m = (\<lambda>a. ucast a);
       m1 = the (rotate_dispatch d small_logo r ROTATE_DEGREE_90 m);
       m2 = the (rotate_dispatch e d (surface_rect d) ROTATE_DEGREE_270 m1)
   in surface_sw_get_pixel e m2 1 0 = surface_sw_get_pixel small_logo m 1 1"
proof -
  define d e r m m1 m2 where defs: "d = small_logo\<lparr>s_pixels := 0x3000, s_w := 1\<rparr>" "e = small_logo\<lparr>s_pixels := 0x4000, s_h := 1\<rparr>"
    "r = \<lparr>rx = 0, ry = 1, rw = 2, rh = 1\<rparr>" "m = (\<lambda>a::addr. ucast a :: u8)"
    "m1 = the (rotate_dispatch d small_logo r ROTATE_DEGREE_90 m)"
    "m2 = the (rotate_dispatch e d (surface_rect d) ROTATE_DEGREE_270 m1)"
  have ok: "rotate_ok d small_logo r ROTATE_DEGREE_90" "rotate_ok e d (surface_rect d) ROTATE_DEGREE_270"
    by (auto simp: defs rotate_ok_def surface_ok_def separate_def footprint_def rect_within_def surface_rect_def swaps_sides_def small_logo_def)
  have "rotate_dispatch d small_logo r ROTATE_DEGREE_90 m = Some m1"
    "rotate_dispatch e d (surface_rect d) ROTATE_DEGREE_270 m1 = Some m2"
    using rotate_dispatch_paint [OF ok(1), of m] rotate_dispatch_paint [OF ok(2), of m1] by (simp_all add: defs(5,6))
  from rotate_back [OF ok this, of 1 0] show ?thesis
    unfolding Let_def defs(1-4) [symmetric] defs(5,6) [symmetric]
    using ok(2) by (simp add: defs(3)) (simp add: inside_def rotate_ok_def defs(2) small_logo_def)
qed






end
