(* ===== verification/Malloc.thy ===== *)
theory Malloc
  imports Memory "HOL-Library.Monad_Syntax"
begin

text \<open>
  The allocator of the board, \<^verbatim>\<open>malloc.c\<close> in \<^verbatim>\<open>board/samsung/x4412\<close>: a heap of 16 megabytes whose blocks are linked in two
  cyclic lists, all blocks in the order of their addresses and the free blocks in the order of their release.  The headers
  of the blocks are a store with one function per field; the links of the free list of a block in use, which overlap the
  caller's data, are never read.
\<close>

section \<open>The heap\<close>

datatype arena_type = ARENA_TYPE_USED | ARENA_TYPE_FREE | ARENA_TYPE_HEAD

record arena =
  heap :: addr
  malloc_head :: addr
  current_brk :: addr
  a_type :: "addr \<Rightarrow> arena_type"
  a_size :: "addr \<Rightarrow> u32w"
  a_next :: "addr \<Rightarrow> addr"
  a_prev :: "addr \<Rightarrow> addr"
  next_free :: "addr \<Rightarrow> addr"
  prev_free :: "addr \<Rightarrow> addr"

abbreviation SZ_16M :: u32w where "SZ_16M \<equiv> 0x1000000"
abbreviation SZ_64K :: u32w where "SZ_64K \<equiv> 0x10000"

definition align_up :: "addr \<Rightarrow> u32w \<Rightarrow> addr" where
  "align_up p a = (p + a - 1) AND NOT (a - 1)"

text \<open>\<^verbatim>\<open>__brk\<close>: the failure is the pointer \<open>-1\<close>.\<close>

definition brk_at :: "arena \<Rightarrow> addr \<Rightarrow> addr" where
  "brk_at s e =
     (if e = 0 then heap s
      else if sint e < sint (heap s) \<or> s32 (0x1000000 + sint (heap s)) \<le> sint e then -1
      else e)"

definition sbrk :: "arena \<Rightarrow> u32w \<Rightarrow> addr \<times> arena" where
  "sbrk s increment =
     (let s = (if current_brk s = 0 then s\<lparr>current_brk := brk_at s 0\<rparr> else s);
        start = align_up (current_brk s) 32; e = start + increment; new_brk = brk_at s e
      in if new_brk = -1 then (-1, s)
         else if new_brk < e then (-1, s)
         else (start, s\<lparr>current_brk := new_brk\<rparr>))"

definition brk :: "arena \<Rightarrow> addr \<Rightarrow> int \<times> arena" where
  "brk s end_data_segment =
     (let new_brk = brk_at s end_data_segment
      in if new_brk \<noteq> end_data_segment then (-1, s) else (0, s\<lparr>current_brk := new_brk\<rparr>))"

section \<open>Blocks\<close>

definition remove_from_main_chain :: "arena \<Rightarrow> addr \<Rightarrow> arena" where
  "remove_from_main_chain s ah =
     (let ap = a_prev s ah; an = a_next s ah
      in s\<lparr>a_next := (a_next s)(ap := an), a_prev := (a_prev s)(an := ap)\<rparr>)"

definition remove_from_free_chain :: "arena \<Rightarrow> addr \<Rightarrow> arena" where
  "remove_from_free_chain s ah =
     (let ap = prev_free s ah; an = next_free s ah
      in s\<lparr>next_free := (next_free s)(ap := an), prev_free := (prev_free s)(an := ap)\<rparr>)"

definition remove_from_chains :: "arena \<Rightarrow> addr \<Rightarrow> arena" where
  "remove_from_chains s ah = remove_from_main_chain (remove_from_free_chain s ah) ah"

text \<open>Both headers take 16 bytes of a block in use, and 24 of a free one.\<close>

definition malloc_from_block :: "arena \<Rightarrow> addr \<Rightarrow> u32w \<Rightarrow> addr \<times> arena" where
  "malloc_from_block s fp sz =
     (let fsize = a_size s fp
      in if sz + 2 * 16 \<le> fsize then
           (let nfp = fp + sz; na = a_next s fp;
              s = s\<lparr>a_type := (a_type s)(nfp := ARENA_TYPE_FREE, fp := ARENA_TYPE_USED),
                    a_size := (a_size s)(nfp := fsize - sz, fp := sz)\<rparr>;
              s = s\<lparr>a_prev := (a_prev s)(nfp := fp, na := nfp), a_next := (a_next s)(nfp := na, fp := nfp)\<rparr>;
              fpn = next_free s fp; fpp = prev_free s fp;
              s = s\<lparr>next_free := (next_free s)(nfp := fpn, fpp := nfp), prev_free := (prev_free s)(nfp := fpp, fpn := nfp)\<rparr>
            in (fp + 16, s))
         else (fp + 16, remove_from_free_chain (s\<lparr>a_type := (a_type s)(fp := ARENA_TYPE_USED)\<rparr>) fp))"

text \<open>The two halves of \<^verbatim>\<open>__free_block\<close>: the block before, and the block after.\<close>

definition free_first :: "arena \<Rightarrow> addr \<Rightarrow> addr \<times> arena" where
  "free_first s ah =
     (let pah = a_prev s ah; nah = a_next s ah
      in if a_type s pah = ARENA_TYPE_FREE \<and> pah + a_size s pah = ah then
           (pah, s\<lparr>a_size := (a_size s)(pah := a_size s pah + a_size s ah),
                   a_next := (a_next s)(pah := nah), a_prev := (a_prev s)(nah := pah)\<rparr>)
         else
           (let hd' = malloc_head s; fn = next_free s hd';
              nf = (next_free s)(ah := fn, hd' := ah)
            in (ah, s\<lparr>a_type := (a_type s)(ah := ARENA_TYPE_FREE), next_free := nf,
                     prev_free := (prev_free s)(ah := hd', nf ah := ah)\<rparr>)))"

definition free_block :: "arena \<Rightarrow> addr \<Rightarrow> addr \<times> arena" where
  "free_block s ah =
     (let nah = a_next s ah; (ah, s) = free_first s ah
      in if a_type s nah = ARENA_TYPE_FREE \<and> ah + a_size s ah = nah
         then (ah, remove_from_chains (s\<lparr>a_size := (a_size s)(ah := a_size s ah + a_size s nah)\<rparr>) nah)
         else (ah, s))"

section \<open>The interface\<close>

text \<open>The search of the free list, and of the list of all blocks from its end; both end at the head of the list.\<close>

partial_function (option) find_fit :: "arena \<Rightarrow> u32w \<Rightarrow> addr \<Rightarrow> addr option option" where
  "find_fit s sz fp =
     (if a_type s fp = ARENA_TYPE_HEAD then Some None
      else if sz \<le> a_size s fp then Some (Some fp)
      else find_fit s sz (next_free s fp))"

partial_function (option) find_pred :: "arena \<Rightarrow> addr \<Rightarrow> addr \<Rightarrow> addr option" where
  "find_pred s fp pah =
     (if a_type s pah = ARENA_TYPE_HEAD \<or> pah < fp then Some pah else find_pred s fp (a_prev s pah))"

definition block_size :: "u32w \<Rightarrow> u32w" where
  "block_size sz = (sz + 2 * 16 - 1) AND NOT (16 - 1)"

definition chunk_size :: "u32w \<Rightarrow> u32w" where
  "chunk_size sz = (sz + (SZ_64K - 1)) AND NOT (SZ_64K - 1)"

definition add_chunk :: "arena \<Rightarrow> addr \<Rightarrow> addr \<Rightarrow> arena" where
  "add_chunk s fp pah =
     (let n = (a_next s)(fp := a_next s pah, pah := fp)
      in s\<lparr>a_next := n, a_prev := (a_prev s)(fp := pah, n fp := fp)\<rparr>)"

definition xmalloc :: "arena \<Rightarrow> u32w \<Rightarrow> (addr \<times> arena) option" where
  "xmalloc s sz =
     (if sz = 0 then Some (0, s)
      else
        do {
          let sz = block_size sz;
          fit \<leftarrow> find_fit s sz (next_free s (malloc_head s));
          (case fit of
             Some fp \<Rightarrow> Some (malloc_from_block s fp sz)
           | None \<Rightarrow>
               (let fsize = chunk_size sz;
                  (fp, s) = sbrk s fsize
                in if fp = -1 then Some (0, s)
                   else
                     do {
                       let s = s\<lparr>a_type := (a_type s)(fp := ARENA_TYPE_FREE), a_size := (a_size s)(fp := fsize)\<rparr>;
                       pah \<leftarrow> find_pred s fp (a_prev s (malloc_head s));
                       let (fp, s) = free_block (add_chunk s fp pah) fp;
                       Some (malloc_from_block s fp sz)
                     }))
        })"

definition xfree :: "arena \<Rightarrow> addr \<Rightarrow> arena" where
  "xfree s ptr =
     (if ptr = 0 then s
      else
        (let (ah, s) = free_block s (ptr - 16)
         in if SZ_64K \<le> a_size s ah \<and> ah + a_size s ah = current_brk s
            then snd (brk (remove_from_chains s ah) ah)
            else s))"

text \<open>\<^verbatim>\<open>xrealloc\<close> and \<^verbatim>\<open>xcalloc\<close> take their memory from \<^verbatim>\<open>malloc\<close>, the other allocator, which is an argument with its state.\<close>

definition xrealloc :: "('m \<Rightarrow> u32w \<Rightarrow> addr \<times> 'm) \<Rightarrow> ('m \<Rightarrow> addr \<Rightarrow> 'm) \<Rightarrow> arena \<Rightarrow> 'm \<Rightarrow> mem \<Rightarrow> addr \<Rightarrow> u32w \<Rightarrow> addr \<times> 'm \<times> mem" where
  "xrealloc malloc free s hp m ptr sz =
     (if ptr = 0 then (let (p, hp) = malloc hp sz in (p, hp, m))
      else if sz = 0 then (0, free hp ptr, m)
      else
        (let sz = block_size sz; ah = ptr - 16
         in if sz \<le> a_size s ah \<and> drop_bit 2 (a_size s ah) \<le> sz then (ptr, hp, m)
            else
              (let oldsize = a_size s ah - 16; (newptr, hp) = malloc hp sz;
                 m = memcpy m newptr ptr (unat (if sz < oldsize then sz else oldsize))
               in (newptr, free hp ptr, m))))"

definition xcalloc :: "('m \<Rightarrow> u32w \<Rightarrow> addr \<times> 'm) \<Rightarrow> 'm \<Rightarrow> mem \<Rightarrow> u32w \<Rightarrow> u32w \<Rightarrow> addr \<times> 'm \<times> mem" where
  "xcalloc malloc hp m nmemb sz =
     (let (ptr, hp) = malloc hp (nmemb * sz)
      in (ptr, hp, if ptr \<noteq> 0 then memset m ptr 0 (unat (nmemb * sz)) else m))"

section \<open>Cyclic lists\<close>

text \<open>The links along a list of nodes, and the cyclic list of the nodes \<open>xs\<close> with the head \<open>h\<close>.\<close>

fun path :: "('a \<Rightarrow> 'a) \<Rightarrow> ('a \<Rightarrow> 'a) \<Rightarrow> 'a list \<Rightarrow> bool" where
  "path nx pv (x # y # zs) \<longleftrightarrow> nx x = y \<and> pv y = x \<and> path nx pv (y # zs)"
| "path nx pv _ \<longleftrightarrow> True"

definition chain :: "('a \<Rightarrow> 'a) \<Rightarrow> ('a \<Rightarrow> 'a) \<Rightarrow> 'a \<Rightarrow> 'a list \<Rightarrow> bool" where
  "chain nx pv h xs \<longleftrightarrow> path nx pv (h # xs @ [h]) \<and> distinct (h # xs)"

text \<open>The neighbours of a place in the list.\<close>

definition before :: "'a \<Rightarrow> 'a list \<Rightarrow> 'a" where
  "before h as = last (h # as)"

definition after :: "'a \<Rightarrow> 'a list \<Rightarrow> 'a" where
  "after h bs = hd (bs @ [h])"

lemma before_simps [simp]: "before h [] = h" "before h (as @ [x]) = x"
  by (simp_all add: before_def)

lemma after_simps [simp]: "after h [] = h" "after h (x # bs) = x"
  by (simp_all add: after_def)

lemma before_in: "before h as \<in> set (h # as)"
  unfolding before_def by (rule last_in_set) simp

lemma after_in: "after h bs \<in> set (h # bs)"
  by (cases bs) simp_all

lemma path_cong: "(\<And>x. x \<in> set (butlast zs) \<Longrightarrow> nx x = nx' x) \<Longrightarrow> (\<And>x. x \<in> set (tl zs) \<Longrightarrow> pv x = pv' x) \<Longrightarrow> path nx pv zs = path nx' pv' zs"
  by (induction nx pv zs rule: path.induct) auto

lemma path_other: "x \<notin> set zs \<Longrightarrow> path (nx(x := u)) (pv(x := v)) zs = path nx pv zs"
  by (induction nx pv zs rule: path.induct) auto

lemma path_join: "path nx pv (zs @ ws) \<longleftrightarrow> path nx pv zs \<and> path nx pv ws \<and> (zs \<noteq> [] \<longrightarrow> ws \<noteq> [] \<longrightarrow> nx (last zs) = hd ws \<and> pv (hd ws) = last zs)"
  by (induction zs rule: induct_list012) (cases ws; auto)+

lemma chain_split:
  "chain nx pv h (as @ bs) \<longleftrightarrow> path nx pv (h # as) \<and> path nx pv (bs @ [h]) \<and> distinct (h # as @ bs) \<and>
    nx (before h as) = after h bs \<and> pv (after h bs) = before h as"
  using path_join [of nx pv "h # as" "bs @ [h]"] by (auto simp: chain_def before_def after_def simp del: last.simps)

lemma before_out: "distinct (h # as @ bs) \<Longrightarrow> before h as \<notin> set bs \<and> before h as \<notin> set (butlast (h # as))"
proof -
  assume d: "distinct (h # as @ bs)"
  then have "distinct (h # as)" by auto
  then have "before h as \<notin> set (butlast (h # as))"
    unfolding before_def by (metis append_butlast_last_id distinct_butlast list.distinct(1) not_distinct_conv_prefix)
  then show ?thesis using d before_in [of h as] by auto
qed

lemma after_out: "distinct (h # as @ bs) \<Longrightarrow> after h bs \<notin> set as \<and> after h bs \<notin> set (tl (bs @ [h]))"
  by (cases bs) auto

lemma outer_paths:
  assumes "distinct (h # as @ bs)"
  shows "path (nx(before h as := u)) (pv(after h bs := v)) (h # as) = path nx pv (h # as)"
    "path (nx(before h as := u)) (pv(after h bs := v)) (bs @ [h]) = path nx pv (bs @ [h])"
  using before_out [OF assms] after_out [OF assms] by (auto intro!: path_cong simp: butlast_append)

lemma chain_remove:
  assumes "chain nx pv h (as @ x # bs)"
  shows "nx x = after h bs" "pv x = before h as"
    "chain (nx(before h as := after h bs)) (pv(after h bs := before h as)) h (as @ bs)"
proof -
  have c: "path nx pv (h # as)" "path nx pv (x # bs @ [h])" "distinct (h # as @ x # bs)" "nx (before h as) = x" "pv x = before h as"
    using assms chain_split [of nx pv h as "x # bs"] by auto
  then show n: "nx x = after h bs" "pv x = before h as" by (cases bs; simp)+
  have "path nx pv (bs @ [h])" "distinct (h # as @ bs)" using c(2,3) by (cases bs; auto)+
  then show "chain (nx(before h as := after h bs)) (pv(after h bs := before h as)) h (as @ bs)"
    unfolding chain_split using c(1) outer_paths [of h as bs] by auto
qed

lemma chain_insert:
  assumes "chain nx pv h (as @ bs)" "x \<notin> set (h # as @ bs)"
  shows "chain (nx(x := after h bs, before h as := x)) (pv(x := before h as, after h bs := x)) h (as @ x # bs)"
proof -
  let ?nx = "nx(x := after h bs, before h as := x)" and ?pv = "pv(x := before h as, after h bs := x)"
  have c: "path nx pv (h # as)" "path nx pv (bs @ [h])" "distinct (h # as @ bs)" using assms(1) chain_split [of nx pv h as bs] by auto
  have "path (nx(x := after h bs)) (pv(x := before h as)) (h # as)" "path (nx(x := after h bs)) (pv(x := before h as)) (bs @ [h])"
    using c(1,2) assms(2) path_other [of x "h # as"] path_other [of x "bs @ [h]"] by auto
  then have p: "path ?nx ?pv (h # as)" "path ?nx ?pv (bs @ [h])" using outer_paths [OF c(3)] by auto
  have ends: "before h as \<noteq> x" "after h bs \<noteq> x" using assms(2) before_in [of h as] after_in [of h bs] by auto
  then have "path ?nx ?pv (x # bs @ [h])" using p(2) by (cases bs) auto
  then show ?thesis unfolding chain_split [of _ _ _ as "x # bs"] using p(1) c(3) assms(2) ends by auto
qed

lemma chain_replace:
  assumes "chain nx pv h (as @ x # bs)" "y \<notin> set (h # as @ x # bs)"
  shows "chain (nx(y := after h bs, before h as := y)) (pv(y := before h as, after h bs := y)) h (as @ y # bs)"
proof -
  have "chain (nx(before h as := after h bs)) (pv(after h bs := before h as)) h (as @ bs)" by (rule chain_remove(3) [OF assms(1)])
  from chain_insert [OF this, of y] have "chain (nx(before h as := after h bs, y := after h bs, before h as := y))
      (pv(after h bs := before h as, y := before h as, after h bs := y)) h (as @ y # bs)" using assms(2) by auto
  moreover have "y \<noteq> before h as" "y \<noteq> after h bs" using assms(2) before_in [of h as] after_in [of h bs] by auto
  ultimately show ?thesis by (simp add: fun_upd_twist)
qed

lemma chain_ends: "chain nx pv h xs \<Longrightarrow> nx h = after h xs \<and> pv h = before h xs"
  using chain_split [of nx pv h "[]" xs] chain_split [of nx pv h xs "[]"] by simp

lemma chain_distinct: "chain nx pv h xs \<Longrightarrow> distinct (h # xs)"
  by (simp add: chain_def)

section \<open>The invariant\<close>

text \<open>The blocks lie in the order of the list between two addresses and do not overlap; sizes and addresses are multiples of 16.\<close>

fun laid :: "(addr \<Rightarrow> u32w) \<Rightarrow> int \<Rightarrow> addr list \<Rightarrow> int \<Rightarrow> bool" where
  "laid sz lo [] hi \<longleftrightarrow> lo \<le> hi"
| "laid sz lo (x # xs) hi \<longleftrightarrow> lo \<le> uint x \<and> 32 \<le> uint (sz x) \<and> 16 dvd uint x \<and> 16 dvd uint (sz x) \<and> laid sz (uint x + uint (sz x)) xs hi"

text \<open>No two neighbours are free and touch each other.\<close>

fun coalesced :: "(addr \<Rightarrow> arena_type) \<Rightarrow> (addr \<Rightarrow> u32w) \<Rightarrow> addr list \<Rightarrow> bool" where
  "coalesced ty sz (x # y # xs) \<longleftrightarrow>
     \<not> (ty x = ARENA_TYPE_FREE \<and> ty y = ARENA_TYPE_FREE \<and> uint x + uint (sz x) = uint y) \<and> coalesced ty sz (y # xs)"
| "coalesced ty sz _ \<longleftrightarrow> True"

definition place_ok :: "arena \<Rightarrow> bool" where
  "place_ok s \<longleftrightarrow> 0 < uint (heap s) \<and>
     (uint (heap s) + 0x1000000 < 0x80000000 \<or> 0x80000000 \<le> uint (heap s) \<and> uint (heap s) + 0x1000000 \<le> 0xf0000000) \<and>
     uint (current_brk s) < uint (heap s) + 0x1000000 \<and>
     (uint (malloc_head s) < uint (heap s) \<or> uint (heap s) + 0x1000000 \<le> uint (malloc_head s))"

definition arena_core :: "arena \<Rightarrow> addr list \<Rightarrow> addr list \<Rightarrow> bool" where
  "arena_core s xs fs \<longleftrightarrow>
     chain (a_next s) (a_prev s) (malloc_head s) xs \<and> chain (next_free s) (prev_free s) (malloc_head s) fs \<and>
     set fs = {x\<in>set xs. a_type s x = ARENA_TYPE_FREE} \<and> (\<forall>x\<in>set xs. a_type s x \<noteq> ARENA_TYPE_HEAD) \<and>
     a_type s (malloc_head s) = ARENA_TYPE_HEAD \<and> laid (a_size s) (uint (heap s)) xs (uint (current_brk s)) \<and>
     place_ok s"

definition arena_inv :: "arena \<Rightarrow> addr list \<Rightarrow> addr list \<Rightarrow> bool" where
  "arena_inv s xs fs \<longleftrightarrow> arena_core s xs fs \<and> coalesced (a_type s) (a_size s) xs"

text \<open>The blocks in use with their sizes.\<close>

definition allocated :: "arena \<Rightarrow> addr list \<Rightarrow> addr \<rightharpoonup> u32w" where
  "allocated s xs x = (if x \<in> set xs \<and> a_type s x = ARENA_TYPE_USED then Some (a_size s x) else None)"

lemma laid_append: "laid sz lo (as @ x # bs) hi \<longleftrightarrow> laid sz lo as (uint x) \<and> laid sz (uint x) (x # bs) hi"
  by (induction as arbitrary: lo) auto

lemma laid_le: "laid sz lo xs hi \<Longrightarrow> lo \<le> hi"
  by (induction xs arbitrary: lo) fastforce+

lemma laid_range:
  "laid sz lo xs hi \<Longrightarrow> x \<in> set xs \<Longrightarrow>
   lo \<le> uint x \<and> uint x + uint (sz x) \<le> hi \<and> 32 \<le> uint (sz x) \<and> 16 dvd uint x \<and> 16 dvd uint (sz x)"
  by (induction xs arbitrary: lo) (fastforce dest: laid_le)+

lemma laid_cong: "(\<And>x. x \<in> set xs \<Longrightarrow> sz x = sz' x) \<Longrightarrow> laid sz lo xs hi = laid sz' lo xs hi"
  by (induction xs arbitrary: lo) auto

lemma laid_upd [simp]: "x \<notin> set xs \<Longrightarrow> laid (sz(x := k)) lo xs hi = laid sz lo xs hi"
  by (rule laid_cong; fastforce)

lemma laid_up: "laid sz lo xs hi \<Longrightarrow> hi \<le> hi' \<Longrightarrow> laid sz lo xs hi'"
  by (induction xs arbitrary: lo) auto

lemma laid_down: "laid sz lo xs hi \<Longrightarrow> lo' \<le> lo \<Longrightarrow> laid sz lo' xs hi"
  by (cases xs) auto

lemma coalesced_cong:
  "(\<And>x. x \<in> set xs \<Longrightarrow> ty x = ty' x \<and> sz x = sz' x) \<Longrightarrow> coalesced ty sz xs = coalesced ty' sz' xs"
  by (induction ty sz xs rule: coalesced.induct) auto

lemma coalesced_append:
  "coalesced ty sz (as @ x # bs) \<longleftrightarrow> coalesced ty sz (as @ [x]) \<and> coalesced ty sz (x # bs)"
  by (induction as rule: induct_list012) auto

lemma coalesced_prefix: "coalesced ty sz (as @ bs) \<Longrightarrow> coalesced ty sz as \<and> coalesced ty sz bs"
proof (induction as)
  case (Cons a as)
  then show ?case by (cases as; cases bs) auto
qed simp

lemma coalesced_snoc:
  "coalesced ty sz (as @ [y, x]) \<longleftrightarrow>
     coalesced ty sz (as @ [y]) \<and> \<not> (ty y = ARENA_TYPE_FREE \<and> ty x = ARENA_TYPE_FREE \<and> uint y + uint (sz y) = uint x)"
  using coalesced_append [of ty sz as y "[x]"] by simp

lemma coalesced_Cons:
  "coalesced ty sz (x # bs) \<longleftrightarrow>
     coalesced ty sz bs \<and> (bs \<noteq> [] \<longrightarrow> \<not> (ty x = ARENA_TYPE_FREE \<and> ty (hd bs) = ARENA_TYPE_FREE \<and> uint x + uint (sz x) = uint (hd bs)))"
  by (cases bs) auto

lemma coalesced_used: "ty x \<noteq> ARENA_TYPE_FREE \<Longrightarrow> coalesced ty sz (as @ x # bs) \<longleftrightarrow> coalesced ty sz as \<and> coalesced ty sz bs"
proof (induction as)
  case (Cons a as)
  then show ?case by (cases as) (auto simp: coalesced_Cons)
qed (simp add: coalesced_Cons)

lemma coalesced_upd [simp]:
  "x \<notin> set xs \<Longrightarrow> coalesced (ty(x := t)) sz xs = coalesced ty sz xs" "x \<notin> set xs \<Longrightarrow> coalesced ty (sz(x := k)) xs = coalesced ty sz xs"
  by (rule coalesced_cong; fastforce)+

lemma coalesced_last:
  "(\<And>z. z \<in> set as \<Longrightarrow> ty z = ty' z \<and> sz z = sz' z) \<Longrightarrow> ty x = ty' x \<Longrightarrow> coalesced ty sz (as @ [x]) = coalesced ty' sz' (as @ [x])"
proof (induction as)
  case (Cons a as)
  then show ?case by (cases as) (auto simp: coalesced_Cons)
qed simp

text \<open>Two blocks are apart.\<close>

lemma laid_apart:
  assumes "laid sz lo xs hi" "x \<in> set xs" "y \<in> set xs" "x \<noteq> y"
  shows "uint x + uint (sz x) \<le> uint y \<or> uint y + uint (sz y) \<le> uint x"
  using assms by (induction xs arbitrary: lo) (auto dest: laid_range)

lemma uint_add: "uint (x :: u32w) + uint w < 4294967296 \<Longrightarrow> uint (x + w) = uint x + uint w"
  by (simp add: uint_word_ariths)

lemma uint_sub: "uint (w :: u32w) \<le> uint x \<Longrightarrow> uint (x - w) = uint x - uint w"
  by (simp add: uint_sub_lem)

lemma dvd_gap: "16 dvd (x :: int) \<Longrightarrow> 16 dvd y \<Longrightarrow> y < x + 32 \<Longrightarrow> y \<le> x + 16"
  by (elim dvdE) presburger

lemma dvd_above: "16 dvd (x :: int) \<Longrightarrow> 16 < x \<Longrightarrow> 32 \<le> x"
  by (elim dvdE) presburger

lemma arena_block:
  assumes "arena_core s xs fs" "x \<in> set xs"
  shows "uint (heap s) \<le> uint x" "uint x + uint (a_size s x) \<le> uint (current_brk s)" "32 \<le> uint (a_size s x)"
    "16 dvd uint x" "16 dvd uint (a_size s x)" "uint (a_size s x) < 0x1000000" "x \<noteq> malloc_head s"
    "uint (x + a_size s x) = uint x + uint (a_size s x)"
proof -
  show r: "uint (heap s) \<le> uint x" "uint x + uint (a_size s x) \<le> uint (current_brk s)" "32 \<le> uint (a_size s x)"
    "16 dvd uint x" "16 dvd uint (a_size s x)"
    using assms laid_range by (auto simp: arena_core_def)
  have "uint (current_brk s) < uint (heap s) + 0x1000000" using assms(1) by (auto simp: arena_core_def place_ok_def)
  then show "uint (a_size s x) < 0x1000000" using r(1,2) by linarith
  show "x \<noteq> malloc_head s" using assms by (auto simp: arena_core_def chain_def)
  show "uint (x + a_size s x) = uint x + uint (a_size s x)" 
    using r(2) unsigned_less [where ?'a = int, of "current_brk s"] by (intro uint_add) simp
qed

lemma arena_free: "arena_core s xs fs \<Longrightarrow> x \<in> set fs \<longleftrightarrow> x \<in> set xs \<and> a_type s x = ARENA_TYPE_FREE"
  by (auto simp: arena_core_def)

lemma arena_between:
  assumes "arena_core s xs fs" "x \<in> set xs" "uint x < uint y" "uint y < uint x + uint (a_size s x)"
  shows "y \<notin> set xs" "y \<noteq> malloc_head s"
proof -
  have "laid (a_size s) (uint (heap s)) xs (uint (current_brk s))" "place_ok s" using assms(1) by (auto simp: arena_core_def)
  then show "y \<notin> set xs" using laid_apart [of "a_size s" "uint (heap s)" xs _ x y] laid_range [of "a_size s" "uint (heap s)" xs _ y] assms(2-4)
    by fastforce
  show "y \<noteq> malloc_head s" using arena_block [OF assms(1,2)] assms(3,4) \<open>place_ok s\<close> by (auto simp: place_ok_def)
qed

text \<open>Splitting a free block leaves the rest free in its place of the free list.\<close>

lemma malloc_split:
  assumes "arena_inv s (as @ fp # bs) (cs @ fp # ds)" "sz + 2 * 16 \<le> a_size s fp" "sz \<le> a_size s fp" "16 dvd uint sz" "32 \<le> uint sz"
  shows "\<exists>s'. malloc_from_block s fp sz = (fp + 16, s') \<and> arena_inv s' (as @ fp # (fp + sz) # bs) (cs @ (fp + sz) # ds) \<and>
    allocated s' (as @ fp # (fp + sz) # bs) = (allocated s (as @ fp # bs))(fp \<mapsto> sz) \<and> heap s' = heap s"
proof -
  let ?n = "fp + sz" and ?h = "malloc_head s" and ?sz = "(a_size s)(fp + sz := a_size s fp - sz, fp := sz)"
    and ?ty = "(a_type s)(fp + sz := ARENA_TYPE_FREE, fp := ARENA_TYPE_USED)"
  have fp: "fp \<in> set (as @ fp # bs)" by simp
  have core: "arena_core s (as @ fp # bs) (cs @ fp # ds)" using assms(1) by (simp add: arena_inv_def)
  note blk = arena_block [OF core fp]
  have small: "uint sz \<le> uint (a_size s fp)" "uint (a_size s fp) < 0x1000000" using assms(3) blk(2,6) by (simp_all add: word_le_def)
  have "uint sz + 32 \<le> uint (a_size s fp)"
    using assms(2) small uint_add [of sz 32] by (simp add: word_le_def)
  then have rest: "uint (a_size s fp - sz) = uint (a_size s fp) - uint sz" "32 \<le> uint (a_size s fp) - uint sz"
    using uint_sub [of sz "a_size s fp"] small by simp_all
  have n: "uint ?n = uint fp + uint sz"
    using blk(2) small(1) unsigned_less [where ?'a = int, of "current_brk s"] by (intro uint_add) simp
  have fresh: "?n \<notin> set (as @ fp # bs)" "?n \<noteq> ?h" "?n \<noteq> fp"
    using arena_between [OF core fp, of ?n] n rest assms(5) by auto
  have main: "chain (a_next s) (a_prev s) ?h (as @ fp # bs)" "chain (next_free s) (prev_free s) ?h (cs @ fp # ds)"
    and free: "set (cs @ fp # ds) = {x\<in>set (as @ fp # bs). a_type s x = ARENA_TYPE_FREE}"
    and laid: "laid (a_size s) (uint (heap s)) (as @ fp # bs) (uint (current_brk s))"
    and coal: "coalesced (a_type s) (a_size s) (as @ fp # bs)"
    and other: "\<forall>x\<in>set (as @ fp # bs). a_type s x \<noteq> ARENA_TYPE_HEAD" "a_type s ?h = ARENA_TYPE_HEAD" "place_ok s"
    using assms(1) by (auto simp: arena_inv_def arena_core_def)
  have d: "distinct (?h # as @ fp # bs)" "distinct (?h # cs @ fp # ds)" using main by (auto simp: chain_def)
  have links: "a_next s fp = after ?h bs" "next_free s fp = after ?h ds" "prev_free s fp = before ?h cs"
    using chain_remove [OF main(1)] chain_remove [OF main(2)] by auto
  define s' where "s' = s\<lparr>a_type := ?ty, a_size := ?sz, a_prev := (a_prev s)(?n := fp, after ?h bs := ?n), a_next := (a_next s)(?n := after ?h bs, fp := ?n),
    next_free := (next_free s)(?n := after ?h ds, before ?h cs := ?n), prev_free := (prev_free s)(?n := before ?h cs, after ?h ds := ?n)\<rparr>"
  have step: "malloc_from_block s fp sz = (fp + 16, s')"
    using assms(2) links by (simp add: malloc_from_block_def s'_def Let_def)
  have "chain (a_next s') (a_prev s') ?h (as @ fp # ?n # bs)"
    using chain_insert [of "a_next s" "a_prev s" ?h "as @ [fp]" bs ?n] main(1) fresh by (auto simp: s'_def)
  moreover have "?n \<notin> set (?h # cs @ fp # ds)" using fresh free by auto
  then have "chain (next_free s') (prev_free s') ?h (cs @ ?n # ds)"
    using chain_replace [OF main(2), of ?n] by (simp add: s'_def)
  moreover have "set (cs @ ?n # ds) = {x\<in>set (as @ fp # ?n # bs). a_type s' x = ARENA_TYPE_FREE}"
    using free d fresh by (auto simp: s'_def)
  moreover have "laid ?sz (uint (heap s)) as (uint fp) = laid (a_size s) (uint (heap s)) as (uint fp)"
    "laid ?sz (uint fp + uint (a_size s fp)) bs (uint (current_brk s)) = laid (a_size s) (uint fp + uint (a_size s fp)) bs (uint (current_brk s))"
    using d fresh by (auto intro!: laid_cong)
  then have "laid (a_size s') (uint (heap s')) (as @ fp # ?n # bs) (uint (current_brk s'))"
    using laid n rest assms(4,5) blk(4,5) fresh by (auto simp: laid_append s'_def)
  moreover have "coalesced (a_type s') (a_size s') (as @ fp # ?n # bs)"
  proof -
    have "coalesced (a_type s) (a_size s) as" "coalesced (a_type s) (a_size s) (fp # bs)"
      using coalesced_prefix [OF coal] by auto
    moreover have "a_type s fp = ARENA_TYPE_FREE" using free by auto
    moreover have "coalesced ?ty ?sz as = coalesced (a_type s) (a_size s) as" "coalesced ?ty ?sz bs = coalesced (a_type s) (a_size s) bs"
      using d fresh by (auto intro!: coalesced_cong)
    moreover have "bs \<noteq> [] \<Longrightarrow> hd bs \<in> set bs" by simp
    ultimately show ?thesis using d fresh n rest by (auto simp: s'_def coalesced_used coalesced_Cons)
  qed
  ultimately have "arena_inv s' (as @ fp # ?n # bs) (cs @ ?n # ds)"
    using other d fresh by (auto simp: arena_inv_def arena_core_def s'_def place_ok_def)
  moreover have "allocated s' (as @ fp # ?n # bs) = (allocated s (as @ fp # bs))(fp \<mapsto> sz)"
    using d fresh by (auto simp: allocated_def s'_def fun_eq_iff)
  ultimately show ?thesis using step by (auto simp: s'_def)
qed

text \<open>A block that is not much larger than the request is taken as it is.\<close>

lemma malloc_whole:
  assumes "arena_inv s (as @ fp # bs) (cs @ fp # ds)" "\<not> sz + 2 * 16 \<le> a_size s fp"
  shows "\<exists>s'. malloc_from_block s fp sz = (fp + 16, s') \<and> arena_inv s' (as @ fp # bs) (cs @ ds) \<and>
    allocated s' (as @ fp # bs) = (allocated s (as @ fp # bs))(fp \<mapsto> a_size s fp) \<and> heap s' = heap s"
proof -
  let ?h = "malloc_head s" and ?ty = "(a_type s)(fp := ARENA_TYPE_USED)"
  have main: "chain (a_next s) (a_prev s) ?h (as @ fp # bs)" "chain (next_free s) (prev_free s) ?h (cs @ fp # ds)"
    and free: "set (cs @ fp # ds) = {x\<in>set (as @ fp # bs). a_type s x = ARENA_TYPE_FREE}"
    and coal: "coalesced (a_type s) (a_size s) (as @ fp # bs)"
    and other: "\<forall>x\<in>set (as @ fp # bs). a_type s x \<noteq> ARENA_TYPE_HEAD" "a_type s ?h = ARENA_TYPE_HEAD" "place_ok s"
      "laid (a_size s) (uint (heap s)) (as @ fp # bs) (uint (current_brk s))"
    using assms(1) by (auto simp: arena_inv_def arena_core_def)
  have d: "distinct (?h # as @ fp # bs)" "distinct (?h # cs @ fp # ds)" using main by (auto simp: chain_def)
  note rem = chain_remove [OF main(2)]
  define s' where "s' = s\<lparr>a_type := ?ty, next_free := (next_free s)(before ?h cs := after ?h ds), prev_free := (prev_free s)(after ?h ds := before ?h cs)\<rparr>"
  have step: "malloc_from_block s fp sz = (fp + 16, s')"
    using assms(2) rem(1,2) by (simp add: malloc_from_block_def remove_from_free_chain_def s'_def Let_def)
  have "coalesced (a_type s) (a_size s) as" "coalesced (a_type s) (a_size s) bs"
    using coalesced_prefix [OF coal] by (auto simp: coalesced_Cons)
  moreover have "coalesced ?ty (a_size s) as = coalesced (a_type s) (a_size s) as" "coalesced ?ty (a_size s) bs = coalesced (a_type s) (a_size s) bs"
    using d by (auto intro!: coalesced_cong)
  ultimately have "coalesced ?ty (a_size s) (as @ fp # bs)" by (simp add: coalesced_used)
  moreover have "set (cs @ ds) = {x\<in>set (as @ fp # bs). ?ty x = ARENA_TYPE_FREE}" using free d by auto
  ultimately have "arena_inv s' (as @ fp # bs) (cs @ ds)"
    using other main(1) rem(3) d by (auto simp: arena_inv_def arena_core_def s'_def place_ok_def)
  moreover have "allocated s' (as @ fp # bs) = (allocated s (as @ fp # bs))(fp \<mapsto> a_size s fp)"
    by (auto simp: allocated_def s'_def fun_eq_iff)
  ultimately show ?thesis using step by (auto simp: s'_def)
qed

text \<open>Either way one block is in use that was not, of at least the wanted size and at most 31 bytes more.\<close>

lemma malloc_from_block_inv:
  assumes inv: "arena_inv s xs fs" and "fp \<in> set fs" "sz \<le> a_size s fp" "16 dvd uint sz" "32 \<le> uint sz"
  shows "\<exists>s' xs' fs' k. malloc_from_block s fp sz = (fp + 16, s') \<and> arena_inv s' xs' fs' \<and> allocated s xs fp = None \<and>
    allocated s' xs' = (allocated s xs)(fp \<mapsto> k) \<and> uint sz \<le> uint k \<and> uint k \<le> uint sz + 16 \<and> heap s' = heap s"
proof -
  have core: "arena_core s xs fs" using inv by (simp add: arena_inv_def)
  have fp: "fp \<in> set xs" "a_type s fp = ARENA_TYPE_FREE" using arena_free [OF core] assms(2) by auto
  obtain as bs where xs: "xs = as @ fp # bs" using split_list [OF fp(1)] by blast
  obtain cs ds where fs: "fs = cs @ fp # ds" using split_list [OF assms(2)] by blast
  have none: "allocated s xs fp = None" using fp by (simp add: allocated_def)
  note blk = arena_block [OF core fp(1)]
  show ?thesis
  proof (cases "sz + 2 * 16 \<le> a_size s fp")
    case True
    then show ?thesis using malloc_split [OF inv [unfolded xs fs] True assms(3-5)] none xs by force
  next
    case False
    have "uint (a_size s fp) < uint (sz + 32)" using False by (simp add: word_le_def)
    moreover have "uint sz \<le> uint (a_size s fp)" using assms(3) by (simp add: word_le_def)
    moreover have "uint (sz + 32) = uint sz + 32" using uint_add [of sz 32] blk(6) calculation(2) by simp
    ultimately have "uint sz \<le> uint (a_size s fp)" "uint (a_size s fp) \<le> uint sz + 16"
      using dvd_gap [of "uint sz" "uint (a_size s fp)"] blk(5) assms(4) by auto
    then show ?thesis using malloc_whole [OF inv [unfolded xs fs] False] none xs by blast
  qed
qed

text \<open>A block that is released is appended to the free block before it, or else becomes the first of the free list.\<close>

abbreviation used :: "arena \<Rightarrow> addr \<Rightarrow> arena" where
  "used s ah \<equiv> s\<lparr>a_type := (a_type s)(ah := ARENA_TYPE_USED)\<rparr>"

lemma free_merge_prev:
  assumes "arena_core (used s ah) (as @ pah # ah # bs) fs" "pah \<in> set fs" "uint pah + uint (a_size s pah) = uint ah"
    and s': "s' = s\<lparr>a_size := (a_size s)(pah := a_size s pah + a_size s ah),
       a_next := (a_next s)(pah := after (malloc_head s) bs), a_prev := (a_prev s)(after (malloc_head s) bs := pah)\<rparr>"
  shows "arena_core s' (as @ pah # bs) fs" "allocated s' (as @ pah # bs) = (allocated (used s ah) (as @ pah # ah # bs))(ah := None)"
    "uint (a_size s' pah) = uint (a_size s pah) + uint (a_size s ah)"
proof -
  let ?h = "malloc_head s"
  have blk: "uint (a_size s ah) < 0x1000000" "uint (a_size s pah) < 0x1000000"
    using arena_block(6) [OF assms(1), of ah] arena_block(6) [OF assms(1), of pah] by auto
  then show sum: "uint (a_size s' pah) = uint (a_size s pah) + uint (a_size s ah)" unfolding s' by (simp add: uint_add)
  have main: "chain (a_next s) (a_prev s) ?h ((as @ [pah]) @ ah # bs)"
    and free: "set fs = {x\<in>set (as @ pah # ah # bs). ((a_type s)(ah := ARENA_TYPE_USED)) x = ARENA_TYPE_FREE}"
    and laid: "laid (a_size s) (uint (heap s)) (as @ pah # ah # bs) (uint (current_brk s))"
    and other: "chain (next_free s) (prev_free s) ?h fs" "\<forall>x\<in>set (as @ pah # bs). a_type s x \<noteq> ARENA_TYPE_HEAD \<or> x = ah"
      "a_type s ?h = ARENA_TYPE_HEAD \<or> ?h = ah" "place_ok s"
    using assms(1) by (auto simp: arena_core_def place_ok_def split: if_splits)
  have d: "distinct (?h # as @ pah # ah # bs)" using chain_distinct [OF main] by simp
  have "chain (a_next s') (a_prev s') ?h (as @ pah # bs)" using chain_remove(3) [OF main] by (simp add: s')
  moreover have "laid (a_size s') (uint (heap s)) as (uint pah) = laid (a_size s) (uint (heap s)) as (uint pah)"
    "laid (a_size s') (uint ah + uint (a_size s ah)) bs (uint (current_brk s)) = laid (a_size s) (uint ah + uint (a_size s ah)) bs (uint (current_brk s))"
    using d by (auto intro!: laid_cong simp: s')
  then have "laid (a_size s') (uint (heap s)) (as @ pah # bs) (uint (current_brk s))"
    using laid sum assms(3) by (auto simp: laid_append [of _ _ as pah] add.assoc [symmetric])
  ultimately show "arena_core s' (as @ pah # bs) fs"
    using other d free assms(2) by (auto simp: arena_core_def s' place_ok_def)
  have "a_type s pah \<noteq> ARENA_TYPE_USED" using assms(2) free d by auto
  then show "allocated s' (as @ pah # bs) = (allocated (used s ah) (as @ pah # ah # bs))(ah := None)"
    using d by (auto simp: allocated_def s' fun_eq_iff)
qed

lemma free_add:
  assumes "arena_core (used s ah) xs fs" "ah \<in> set xs"
    and s': "s' = s\<lparr>a_type := (a_type s)(ah := ARENA_TYPE_FREE), next_free := (next_free s)(ah := after (malloc_head s) fs, malloc_head s := ah),
       prev_free := (prev_free s)(ah := malloc_head s, after (malloc_head s) fs := ah)\<rparr>"
  shows "arena_core s' xs (ah # fs)" "allocated s' xs = (allocated (used s ah) xs)(ah := None)"
proof -
  let ?h = "malloc_head s"
  have main: "chain (next_free s) (prev_free s) ?h ([] @ fs)" "chain (a_next s) (a_prev s) ?h xs"
    and free: "set fs = {x\<in>set xs. ((a_type s)(ah := ARENA_TYPE_USED)) x = ARENA_TYPE_FREE}"
    using assms(1) by (auto simp: arena_core_def)
  have "ah \<noteq> ?h" "ah \<notin> set fs" using free assms(2) chain_distinct [OF main(2)] by auto
  then have "chain (next_free s') (prev_free s') ?h (ah # fs)" using chain_insert [OF main(1), of ah] by (simp add: s')
  then show "arena_core s' xs (ah # fs)" using assms(1,2) \<open>ah \<noteq> ?h\<close> by (auto simp: arena_core_def s' place_ok_def)
  show "allocated s' xs = (allocated (used s ah) xs)(ah := None)" by (auto simp: allocated_def s' fun_eq_iff)
qed

lemma free_merge_next:
  assumes "arena_core s (as @ x # y # bs) fs" "x \<in> set fs" "y \<in> set fs" "uint x + uint (a_size s x) = uint y"
    and s': "s' = remove_from_chains (s\<lparr>a_size := (a_size s)(x := a_size s x + a_size s y)\<rparr>) y"
  shows "\<exists>fs'. arena_core s' (as @ x # bs) fs' \<and> x \<in> set fs'" "allocated s' (as @ x # bs) = allocated s (as @ x # y # bs)"
    "uint (a_size s' x) = uint (a_size s x) + uint (a_size s y)"
    "\<And>z. z \<noteq> x \<Longrightarrow> a_size s' z = a_size s z" "a_type s' = a_type s" "heap s' = heap s" "current_brk s' = current_brk s" "malloc_head s' = malloc_head s"
proof -
  let ?h = "malloc_head s"
  obtain cs ds where fs: "fs = cs @ y # ds" using split_list [OF assms(3)] by blast
  have main: "chain (a_next s) (a_prev s) ?h ((as @ [x]) @ y # bs)" "chain (next_free s) (prev_free s) ?h (cs @ y # ds)"
    and free: "set (cs @ y # ds) = {z\<in>set (as @ x # y # bs). a_type s z = ARENA_TYPE_FREE}"
    and laid: "laid (a_size s) (uint (heap s)) (as @ x # y # bs) (uint (current_brk s))"
    using assms(1) by (auto simp: arena_core_def fs)
  have d: "distinct (?h # as @ x # y # bs)" "distinct (cs @ y # ds)" using chain_distinct [OF main(1)] chain_distinct [OF main(2)] by simp_all
  note m = chain_remove [OF main(1)] and f = chain_remove [OF main(2)]
  have eq: "s' = s\<lparr>a_size := (a_size s)(x := a_size s x + a_size s y),
      next_free := (next_free s)(before ?h cs := after ?h ds), prev_free := (prev_free s)(after ?h ds := before ?h cs),
      a_next := (a_next s)(x := after ?h bs), a_prev := (a_prev s)(after ?h bs := x)\<rparr>"
    unfolding s' remove_from_chains_def remove_from_main_chain_def remove_from_free_chain_def using m(1,2) f(1,2) by (simp add: Let_def)
  then show "\<And>z. z \<noteq> x \<Longrightarrow> a_size s' z = a_size s z" "a_type s' = a_type s" "heap s' = heap s" "current_brk s' = current_brk s" "malloc_head s' = malloc_head s"
    by simp_all
  have "uint (a_size s x) < 0x1000000" "uint (a_size s y) < 0x1000000"
    using arena_block(6) [OF assms(1), of x] arena_block(6) [OF assms(1), of y] by auto
  then show sum: "uint (a_size s' x) = uint (a_size s x) + uint (a_size s y)" unfolding eq by (simp add: uint_add)
  have "laid (a_size s') (uint (heap s)) as (uint x) = laid (a_size s) (uint (heap s)) as (uint x)"
    "laid (a_size s') (uint y + uint (a_size s y)) bs (uint (current_brk s)) = laid (a_size s) (uint y + uint (a_size s y)) bs (uint (current_brk s))"
    using d by (auto intro!: laid_cong simp: eq)
  then have "laid (a_size s') (uint (heap s)) (as @ x # bs) (uint (current_brk s))"
    using laid sum assms(4) by (auto simp: laid_append [of _ _ as x] add.assoc [symmetric])
  moreover have rest: "set (cs @ ds) = set (cs @ y # ds) - {y}" using d(2) by auto
  have "set (cs @ ds) = {z\<in>set (as @ x # bs). a_type s z = ARENA_TYPE_FREE}" unfolding rest free using d(1) by auto
  moreover have "x \<in> set (cs @ ds)" unfolding rest using assms(2) d(1) fs by simp
  ultimately show "\<exists>fs'. arena_core s' (as @ x # bs) fs' \<and> x \<in> set fs'"
    using assms(1) m(3) f(3) by (intro exI [of _ "cs @ ds"]) (auto simp: arena_core_def eq place_ok_def)
  have "a_type s y = ARENA_TYPE_FREE" "a_type s x = ARENA_TYPE_FREE" using free assms(2) fs by auto
  then show "allocated s' (as @ x # bs) = allocated s (as @ x # y # bs)" by (auto simp: allocated_def eq fun_eq_iff)
qed

lemma free_first_inv:
  assumes inv: "arena_inv (used s ah) (as @ ah # bs) fs"
  shows "\<exists>x s' as' fs'. free_first s ah = (x, s') \<and> arena_core s' (as' @ x # bs) fs' \<and> x \<in> set fs' \<and> coalesced (a_type s') (a_size s') (as' @ [x]) \<and>
    coalesced (a_type s') (a_size s') bs \<and> allocated s' (as' @ x # bs) = (allocated (used s ah) (as @ ah # bs))(ah := None) \<and>
    uint (a_size s ah) \<le> uint (a_size s' x) \<and> heap s' = heap s \<and> current_brk s' = current_brk s \<and> malloc_head s' = malloc_head s"
proof -
  let ?h = "malloc_head s" and ?p = "before (malloc_head s) as"
  have core: "arena_core (used s ah) (as @ ah # bs) fs" using inv by (simp add: arena_inv_def)
  then have main: "chain (a_next s) (a_prev s) ?h (as @ ah # bs)" "chain (next_free s) (prev_free s) ?h fs" and head: "a_type s ?h \<noteq> ARENA_TYPE_FREE"
    by (auto simp: arena_core_def split: if_splits)
  have d: "distinct (?h # as @ ah # bs)" using chain_distinct [OF main(1)] .
  have links: "a_prev s ah = ?p" "a_next s ah = after ?h bs" "next_free s ?h = after ?h fs"
    using chain_remove [OF main(1)] chain_ends [OF main(2)] by auto
  have coal: "coalesced (a_type (used s ah)) (a_size s) as" "coalesced (a_type (used s ah)) (a_size s) bs"
    using inv coalesced_used [of "a_type (used s ah)" ah "a_size s" as bs] by (auto simp: arena_inv_def)
  then have sep: "coalesced (a_type s) (a_size s) as" "coalesced (a_type s) (a_size s) bs" using d by auto
  show ?thesis
  proof (cases "a_type s ?p = ARENA_TYPE_FREE \<and> ?p + a_size s ?p = ah")
    case True
    then obtain cs p where as: "as = cs @ [p]" using head by (cases as rule: rev_cases) auto
    define s' where "s' = s\<lparr>a_size := (a_size s)(p := a_size s p + a_size s ah),
       a_next := (a_next s)(p := after ?h bs), a_prev := (a_prev s)(after ?h bs := p)\<rparr>"
    have p: "p \<in> set fs" using arena_free [OF core, of p] True d by (auto simp: as)
    have "uint p + uint (a_size s p) = uint ah" using arena_block(8) [OF core, of p] True by (simp add: as)
    note m = free_merge_prev [OF core [unfolded as append_assoc append_Cons append_Nil] p this s'_def]
    have "free_first s ah = (p, s')" using True links by (simp add: free_first_def as s'_def Let_def)
    moreover have "coalesced (a_type s') (a_size s') (cs @ [p])"
      using sep(1) d by (subst coalesced_last [where ty' = "a_type s" and sz' = "a_size s"]) (auto simp: as s'_def)
    moreover have "coalesced (a_type s') (a_size s') bs" using sep(2) d by (simp add: as s'_def)
    ultimately show ?thesis using m p by (intro exI [of _ p] exI [of _ s'] exI [of _ cs] exI [of _ fs]) (simp add: as s'_def)
  next
    case False
    define s' where "s' = s\<lparr>a_type := (a_type s)(ah := ARENA_TYPE_FREE), next_free := (next_free s)(ah := after ?h fs, ?h := ah),
       prev_free := (prev_free s)(ah := ?h, after ?h fs := ah)\<rparr>"
    note m = free_add [OF core _ s'_def]
    have "free_first s ah = (ah, s')" using False links d by (auto simp: free_first_def s'_def Let_def)
    moreover have "coalesced (a_type s') (a_size s') (as @ [ah])"
    proof (cases as rule: rev_cases)
      case (snoc cs p)
      then have "uint (p + a_size s p) = uint p + uint (a_size s p)" using arena_block(8) [OF core, of p] by simp
      then have "uint p + uint (a_size s p) = uint ah \<longleftrightarrow> p + a_size s p = ah" by (simp add: word_uint_eq_iff)
      then show ?thesis using sep(1) d False snoc by (auto simp: s'_def coalesced_snoc)
    qed (simp add: s'_def)
    moreover have "coalesced (a_type s') (a_size s') bs" using sep(2) d by (simp add: s'_def)
    ultimately show ?thesis using m by (intro exI [of _ ah] exI [of _ s'] exI [of _ as] exI [of _ "ah # fs"]) (simp add: s'_def)
  qed
qed

text \<open>Releasing a block keeps the invariant and changes the blocks in use only by that block.\<close>

lemma free_block_inv:
  assumes inv: "arena_inv (used s ah) xs fs" and "ah \<in> set xs"
  shows "\<exists>x s' xs' fs'. free_block s ah = (x, s') \<and> arena_inv s' xs' fs' \<and> x \<in> set fs' \<and>
    allocated s' xs' = (allocated (used s ah) xs)(ah := None) \<and> uint (a_size s ah) \<le> uint (a_size s' x) \<and>
    heap s' = heap s \<and> current_brk s' = current_brk s \<and> malloc_head s' = malloc_head s"
proof -
  obtain as bs where xs: "xs = as @ ah # bs" using split_list [OF assms(2)] by blast
  obtain x s1 cs gs where first: "free_first s ah = (x, s1)" and core: "arena_core s1 (cs @ x # bs) gs" and x: "x \<in> set gs"
    and coal: "coalesced (a_type s1) (a_size s1) (cs @ [x])" "coalesced (a_type s1) (a_size s1) bs"
    and alloc: "allocated s1 (cs @ x # bs) = (allocated (used s ah) xs)(ah := None)"
    and rest: "uint (a_size s ah) \<le> uint (a_size s1 x)" "heap s1 = heap s" "current_brk s1 = current_brk s" "malloc_head s1 = malloc_head s"
    using free_first_inv [OF inv [unfolded xs]] xs by blast
  have main: "chain (a_next s) (a_prev s) (malloc_head s) (as @ ah # bs)" using inv by (simp add: arena_inv_def arena_core_def xs)
  have n: "a_next s ah = after (malloc_head s) bs" using chain_remove(1) [OF main] .
  have head: "a_type s1 (malloc_head s) \<noteq> ARENA_TYPE_FREE" using core rest(4) by (auto simp: arena_core_def)
  have sum: "uint (x + a_size s1 x) = uint x + uint (a_size s1 x)" using arena_block(8) [OF core, of x] by simp
  have tx: "a_type s1 x = ARENA_TYPE_FREE" using arena_free [OF core, of x] x by simp
  show ?thesis
  proof (cases "a_type s1 (after (malloc_head s) bs) = ARENA_TYPE_FREE \<and> x + a_size s1 x = after (malloc_head s) bs")
    case True
    then obtain y ds where bs: "bs = y # ds" using head by (cases bs) auto
    define s' where "s' = remove_from_chains (s1\<lparr>a_size := (a_size s1)(x := a_size s1 x + a_size s1 y)\<rparr>) y"
    have y: "y \<in> set gs" "uint x + uint (a_size s1 x) = uint y"
      using True bs arena_free [OF core, of y] sum by auto
    note m = free_merge_next [OF core [unfolded bs] x y s'_def]
    obtain gs' where g: "arena_core s' (cs @ x # ds) gs'" "x \<in> set gs'" using m(1) by blast
    have d: "distinct (cs @ x # y # ds)" using core by (auto simp: arena_core_def bs dest!: chain_distinct)
    have "coalesced (a_type s') (a_size s') (cs @ [x])"
      using coal(1) d m(4,5) by (subst coalesced_last [where ty' = "a_type s1" and sz' = "a_size s1"]) (auto intro!: m(4))
    moreover have "coalesced (a_type s') (a_size s') ds = coalesced (a_type s1) (a_size s1) ds"
      using d m(5) by (intro coalesced_cong) (auto intro!: m(4))
    then have "coalesced (a_type s') (a_size s') (x # ds)"
      using coal(2) y(2) m(3,5) True by (auto simp: coalesced_Cons bs)
    ultimately have "arena_inv s' (cs @ x # ds) gs'"
      using g(1) coalesced_append [of "a_type s'" "a_size s'" cs x ds] by (simp add: arena_inv_def)
    moreover have "free_block s ah = (x, s')" using True first by (simp add: free_block_def n bs s'_def Let_def)
    moreover have "allocated s' (cs @ x # ds) = (allocated (used s ah) xs)(ah := None)" using m(2) alloc bs by simp
    moreover have "uint (a_size s ah) \<le> uint (a_size s' x)" using rest(1) m(3) unsigned_greater_eq [where ?'a = int, of "a_size s1 y"] by linarith
    moreover have "heap s' = heap s" "current_brk s' = current_brk s" "malloc_head s' = malloc_head s" using rest(2-4) m(6-8) by simp_all
    ultimately show ?thesis using g(2) by blast
  next
    case False
    have touch: "uint x + uint (a_size s1 x) = uint y \<longleftrightarrow> x + a_size s1 x = y" for y using sum by (simp add: word_uint_eq_iff)
    have "coalesced (a_type s1) (a_size s1) (x # bs)"
    proof (cases bs)
      case (Cons y ds)
      then have "\<not> (a_type s1 y = ARENA_TYPE_FREE \<and> x + a_size s1 x = y)" using False by simp
      then show ?thesis using coal(2) Cons touch [of y] by simp
    qed simp
    then have "arena_inv s1 (cs @ x # bs) gs"
      using core coal(1) coalesced_append [of "a_type s1" "a_size s1" cs x bs] by (simp add: arena_inv_def)
    moreover have "free_block s ah = (x, s1)" unfolding free_block_def n first by (simp only: Let_def prod.case if_not_P [OF False])
    ultimately show ?thesis using x alloc rest by (intro exI conjI)
  qed
qed

section \<open>Requests\<close>

lemma find_fit_value:
  assumes "path (next_free s) (prev_free s) (ys @ [h])" "a_type s h = ARENA_TYPE_HEAD" "\<And>y. y \<in> set ys \<Longrightarrow> a_type s y \<noteq> ARENA_TYPE_HEAD"
  shows "find_fit s sz (after h ys) = Some (find (\<lambda>x. sz \<le> a_size s x) ys)"
  using assms
proof (induction ys)
  case Nil
  then show ?case by (subst find_fit.simps) simp
next
  case (Cons y ys)
  then have "next_free s y = after h ys" "path (next_free s) (prev_free s) (ys @ [h])" by (cases ys; simp)+
  then show ?case using Cons by (subst find_fit.simps) simp
qed

lemma block_size_value: "uint sz + 31 < 4294967296 \<Longrightarrow> uint (block_size sz) = (uint sz + 31) div 16 * 16"
  using uint_and_not_mask [of "sz + 31" 4] by (simp add: block_size_def mask_eq_exp_minus_1 uint_add add.commute [of _ sz])

lemma block_size_bounds:
  assumes "uint sz + 31 < 4294967296"
  shows "16 dvd uint (block_size sz)" "uint sz + 16 \<le> uint (block_size sz)" "uint (block_size sz) \<le> uint sz + 31"
  using assms div_mult_mod_eq [of "uint sz + 31" 16] pos_mod_bound [of 16 "uint sz + 31"] pos_mod_sign [of 16 "uint sz + 31"]
  by (simp_all add: block_size_value) 

lemma chunk_size_bounds:
  assumes "uint sz + 65535 < 4294967296"
  shows "16 dvd uint (chunk_size sz)" "uint sz \<le> uint (chunk_size sz)" "uint (chunk_size sz) \<le> uint sz + 65535"
proof -
  have "uint (chunk_size sz) = (uint sz + 65535) div 65536 * 65536"
    using uint_and_not_mask [of "sz + 65535" 16] assms by (simp add: chunk_size_def mask_eq_exp_minus_1 uint_add)
  moreover have "(16 :: int) dvd k * 65536" for k by (rule dvd_mult) simp
  ultimately show "16 dvd uint (chunk_size sz)" "uint sz \<le> uint (chunk_size sz)" "uint (chunk_size sz) \<le> uint sz + 65535"
    using div_mult_mod_eq [of "uint sz + 65535" 65536] pos_mod_bound [of 65536 "uint sz + 65535"] pos_mod_sign [of 65536 "uint sz + 65535"]
    by simp_all
qed

lemma align_up_bounds:
  assumes "uint p + 31 < 4294967296"
  shows "16 dvd uint (align_up p 32)" "uint p \<le> uint (align_up p 32)" "uint (align_up p 32) \<le> uint p + 31"
proof -
  have "uint (align_up p 32) = (uint p + 31) div 32 * 32"
    using uint_and_not_mask [of "p + 31" 5] assms by (simp add: align_up_def mask_eq_exp_minus_1 uint_add add.commute [of _ p])
  moreover have "(16 :: int) dvd k * 32" for k by (rule dvd_mult) simp
  ultimately show "16 dvd uint (align_up p 32)" "uint p \<le> uint (align_up p 32)" "uint (align_up p 32) \<le> uint p + 31"
    using div_mult_mod_eq [of "uint p + 31" 32] pos_mod_bound [of 32 "uint p + 31"] pos_mod_sign [of 32 "uint p + 31"]
    by simp_all
qed

lemma sint_value: "sint (x :: u32w) = (if uint x < 2147483648 then uint x else uint x - 4294967296)"
proof -
  have "sint x = (uint x + 2147483648) mod 4294967296 - 2147483648"
    by (simp add: sint_uint signed_take_bit_eq_take_bit_shift take_bit_eq_mod)
  moreover have "(uint x + 2147483648) mod 4294967296 = uint x - 2147483648" if "\<not> uint x < 2147483648"
  proof -
    have "(uint x - 2147483648 + 4294967296) mod 4294967296 = (uint x - 2147483648) mod 4294967296" by (rule mod_add_self2)
    also have "\<dots> = uint x - 2147483648" using that unsigned_less [where ?'a = int, of x] by (intro mod_pos_pos_trivial) simp_all
    finally show ?thesis by (simp add: add.commute)
  qed
  ultimately show ?thesis by simp
qed

text \<open>The signed comparisons of \<^verbatim>\<open>__brk\<close> are right because the heap does not cross the middle of the address space.\<close>

lemma signed_range:
  assumes "0 \<le> (e :: int)" "e < 4294967296" "h + 0x1000000 < 0x80000000 \<or> 0x80000000 \<le> h \<and> h + 0x1000000 \<le> 0xf0000000" "0 < h"
  shows "(if e < 2147483648 then e else e - 4294967296) < (if h < 2147483648 then h else h - 4294967296) \<or>
    0x1000000 + (if h < 2147483648 then h else h - 4294967296) \<le> (if e < 2147483648 then e else e - 4294967296) \<longleftrightarrow>
    \<not> (h \<le> e \<and> e < h + 0x1000000)"
  using assms by (cases "h < 2147483648"; cases "e < 2147483648") auto

lemma brk_at_value:
  assumes "place_ok s" "e \<noteq> 0"
  shows "brk_at s e = (if uint (heap s) \<le> uint e \<and> uint e < uint (heap s) + 0x1000000 then e else -1)"
proof -
  have "s32 (0x1000000 + sint (heap s)) = 0x1000000 + sint (heap s)"
    using assms(1) by (intro s32_id) (auto simp: in_s32_def place_ok_def sint_value)
  moreover have "sint e < sint (heap s) \<or> 0x1000000 + sint (heap s) \<le> sint e \<longleftrightarrow> \<not> (uint (heap s) \<le> uint e \<and> uint e < uint (heap s) + 0x1000000)"
    unfolding sint_value using assms(1) unsigned_less [where ?'a = int, of e] by (intro signed_range) (auto simp: place_ok_def)
  ultimately show ?thesis using assms(2) by (simp add: brk_at_def)
qed

text \<open>An increment whose end does not wrap extends the heap at its end, or fails.\<close>

lemma sbrk_value:
  assumes "place_ok s" "uint (heap s) \<le> uint (current_brk s)" "uint inc \<le> 0xf010020"
  shows "sbrk s inc =
    (if uint (align_up (current_brk s) 32) + uint inc < uint (heap s) + 0x1000000
     then (align_up (current_brk s) 32, s\<lparr>current_brk := align_up (current_brk s) 32 + inc\<rparr>) else (-1, s))"
proof -
  let ?a = "align_up (current_brk s) 32"
  have p: "0 < uint (heap s)" "uint (heap s) + 0x1000000 \<le> 0xf0000000" "uint (current_brk s) < uint (heap s) + 0x1000000"
    using assms(1) by (auto simp: place_ok_def)
  note a = align_up_bounds [of "current_brk s"]
  have i: "0 \<le> uint inc" by simp
  have e: "uint (?a + inc) = uint ?a + uint inc" using p a assms(3) by (intro uint_add) simp
  then have "0 < uint (?a + inc)" using p a assms(2) i by linarith
  then have z: "current_brk s \<noteq> 0" "?a + inc \<noteq> 0" using p assms(2) by auto
  have "uint (-1 :: u32w) = 4294967295" by (simp add: unsigned_minus_1_eq_mask mask_eq_exp_minus_1)
  then have "uint (?a + inc) < uint (-1 :: u32w)" using e p a assms(3) by simp
  then have "?a + inc \<noteq> -1" by auto
  moreover have "uint (heap s) \<le> uint (?a + inc)" using e a p assms(2) i by linarith
  then have "brk_at s (?a + inc) = (if uint ?a + uint inc < uint (heap s) + 0x1000000 then ?a + inc else -1)"
    using brk_at_value [OF assms(1) z(2)] e by simp
  ultimately show ?thesis using z(1) by (simp add: sbrk_def Let_def)
qed

lemma find_pred_last: "a_type s pah = ARENA_TYPE_HEAD \<or> pah < fp \<Longrightarrow> find_pred s fp pah = Some pah"
  by (subst find_pred.simps) simp

text \<open>The new chunk is the last block; it is taken as a block in use that is released at once.\<close>

lemma laid_snoc: "laid sz lo xs hi \<Longrightarrow> hi \<le> uint x \<Longrightarrow> 32 \<le> uint (sz x) \<Longrightarrow> 16 dvd uint x \<Longrightarrow> 16 dvd uint (sz x) \<Longrightarrow>
   uint x + uint (sz x) \<le> e \<Longrightarrow> laid sz lo (xs @ [x]) e"
  by (induction xs arbitrary: lo) auto

lemma add_chunk_inv:
  assumes inv: "arena_inv s xs fs" and fp: "uint (current_brk s) \<le> uint fp" "16 dvd uint fp" "16 dvd uint n" "32 \<le> uint n"
    and top: "uint fp + uint n < uint (heap s) + 0x1000000"
    and s1: "s1 = s\<lparr>current_brk := fp + n, a_type := (a_type s)(fp := ARENA_TYPE_FREE), a_size := (a_size s)(fp := n)\<rparr>"
  shows "find_pred s1 fp (a_prev s1 (malloc_head s1)) = Some (before (malloc_head s) xs)"
    "arena_inv (used (add_chunk s1 fp (before (malloc_head s) xs)) fp) (xs @ [fp]) fs"
    "allocated (used (add_chunk s1 fp (before (malloc_head s) xs)) fp) (xs @ [fp]) = (allocated s xs)(fp \<mapsto> n)" "fp \<notin> set xs"
    "a_size (add_chunk s1 fp (before (malloc_head s) xs)) fp = n"
proof -
  let ?h = "malloc_head s" and ?p = "before (malloc_head s) xs" and ?s = "add_chunk s1 fp (before (malloc_head s) xs)"
  have core: "arena_core s xs fs" and coal: "coalesced (a_type s) (a_size s) xs" using inv by (auto simp: arena_inv_def)
  have below: "uint x < uint fp" if "x \<in> set xs" for x using arena_block [OF core that] fp(1) by linarith
  then show new: "fp \<notin> set xs" by auto
  have place: "place_ok s" and main: "chain (a_next s) (a_prev s) ?h xs" "chain (next_free s) (prev_free s) ?h fs"
    and free: "set fs = {x\<in>set xs. a_type s x = ARENA_TYPE_FREE}" and laid: "laid (a_size s) (uint (heap s)) xs (uint (current_brk s))"
    and head: "a_type s ?h = ARENA_TYPE_HEAD" "\<forall>x\<in>set xs. a_type s x \<noteq> ARENA_TYPE_HEAD"
    using core by (auto simp: arena_core_def)
  have heap: "uint (heap s) \<le> uint (current_brk s)" using laid_le [OF laid] .
  have "uint fp < uint (heap s) + 0x1000000" using top unsigned_greater_eq [where ?'a = int, of n] by linarith
  then have h: "fp \<noteq> ?h" using place fp(1) heap by (auto simp: place_ok_def)
  have brk: "uint (fp + n) = uint fp + uint n" using top place by (intro uint_add) (auto simp: place_ok_def)
  have p: "?p = ?h \<or> ?p \<in> set xs" using before_in [of ?h xs] by auto
  show "find_pred s1 fp (a_prev s1 (malloc_head s1)) = Some ?p"
    using chain_ends [OF main(1)] p below head h by (auto simp: s1 word_less_def intro!: find_pred_last)
  show "a_size ?s fp = n" by (simp add: add_chunk_def s1 Let_def)
  have "chain (a_next ?s) (a_prev ?s) ?h (xs @ [fp])"
    using chain_insert [of "a_next s" "a_prev s" ?h xs "[]" fp] chain_split [of "a_next s" "a_prev s" ?h xs "[]"] main(1) new h p
    by (auto simp: add_chunk_def s1 Let_def)
  moreover have "laid (a_size ?s) (uint (heap s)) (xs @ [fp]) (uint (fp + n))"
  proof (rule laid_snoc)
    show "laid (a_size ?s) (uint (heap s)) xs (uint (current_brk s))"
      using laid new by (simp add: add_chunk_def s1 Let_def)
  qed (use fp brk in \<open>simp_all add: add_chunk_def s1 Let_def\<close>)
  moreover have "place_ok (used ?s fp)" using place top brk by (auto simp: place_ok_def add_chunk_def s1 Let_def)
  ultimately have "arena_core (used ?s fp) (xs @ [fp]) fs"
    using main(2) free head new h by (auto simp: arena_core_def add_chunk_def s1 Let_def)
  moreover have "coalesced ((a_type s)(fp := ARENA_TYPE_USED)) ((a_size s)(fp := n)) (xs @ [fp])"
    using coal new by (simp add: coalesced_used)
  ultimately show "arena_inv (used ?s fp) (xs @ [fp]) fs" by (simp add: arena_inv_def add_chunk_def s1 Let_def)
  show "allocated (used ?s fp) (xs @ [fp]) = (allocated s xs)(fp \<mapsto> n)"
    using new by (auto simp: allocated_def add_chunk_def s1 Let_def fun_eq_iff)
qed

text \<open>A request is served if a free block is large enough or the heap can grow by a chunk.\<close>

definition served :: "arena \<Rightarrow> addr list \<Rightarrow> u32w \<Rightarrow> bool" where
  "served s fs sz \<longleftrightarrow>
     (\<exists>x\<in>set fs. block_size sz \<le> a_size s x) \<or>
     uint (align_up (current_brk s) 32) + uint (chunk_size (block_size sz)) < uint (heap s) + 0x1000000"

lemma first_fit:
  assumes "arena_inv s xs fs"
  shows "find_fit s n (next_free s (malloc_head s)) = Some (find (\<lambda>x. n \<le> a_size s x) fs)"
proof -
  have c: "chain (next_free s) (prev_free s) (malloc_head s) fs" and t: "a_type s (malloc_head s) = ARENA_TYPE_HEAD"
    "set fs \<subseteq> set xs" "\<forall>x\<in>set xs. a_type s x \<noteq> ARENA_TYPE_HEAD"
    using assms by (auto simp: arena_inv_def arena_core_def)
  have "path (next_free s) (prev_free s) (fs @ [malloc_head s])" using c chain_split [of "next_free s" "prev_free s" "malloc_head s" "[]" fs] by simp
  then show ?thesis using find_fit_value [of s fs "malloc_head s" n] t chain_ends [OF c] by auto
qed

text \<open>The three ways a request ends.\<close>

lemma xmalloc_fit:
  assumes inv: "arena_inv s xs fs" and "sz \<noteq> 0" "find (\<lambda>x. block_size sz \<le> a_size s x) fs = Some fp"
  shows "xmalloc s sz = Some (malloc_from_block s fp (block_size sz))"
  using assms(2,3) first_fit [OF inv] by (simp add: xmalloc_def Let_def)

lemma xmalloc_full:
  assumes inv: "arena_inv s xs fs" and "sz \<noteq> 0" "find (\<lambda>x. block_size sz \<le> a_size s x) fs = None"
    "sbrk s (chunk_size (block_size sz)) = (-1, s')"
  shows "xmalloc s sz = Some (0, s')"
  using assms(2-4) first_fit [OF inv] by (simp add: xmalloc_def Let_def)

lemma xmalloc_grow:
  assumes inv: "arena_inv s xs fs" and "sz \<noteq> 0" "find (\<lambda>x. block_size sz \<le> a_size s x) fs = None"
    and "sbrk s (chunk_size (block_size sz)) = (fp, s1)" "fp \<noteq> -1"
    and "s2 = s1\<lparr>a_type := (a_type s1)(fp := ARENA_TYPE_FREE), a_size := (a_size s1)(fp := chunk_size (block_size sz))\<rparr>"
    and "find_pred s2 fp (a_prev s2 (malloc_head s2)) = Some pah" "free_block (add_chunk s2 fp pah) fp = (x, s3)"
  shows "xmalloc s sz = Some (malloc_from_block s3 x (block_size sz))"
  using assms(2-8) first_fit [OF inv] by (simp add: xmalloc_def Let_def)

lemma block_size_ok:
  assumes "sz \<noteq> 0" "uint sz \<le> 0xf000000"
  shows "16 dvd uint (block_size sz)" "32 \<le> uint (block_size sz)" "uint sz + 16 \<le> uint (block_size sz)" "uint (block_size sz) \<le> uint sz + 31"
proof -
  show n: "16 dvd uint (block_size sz)" "uint sz + 16 \<le> uint (block_size sz)" "uint (block_size sz) \<le> uint sz + 31"
    using block_size_bounds [of sz] assms(2) by auto
  have "uint sz \<noteq> 0" using assms(1) by (simp add: unsigned_eq_0_iff)
  then have "0 < uint sz" using unsigned_greater_eq [where ?'a = int, of sz] by linarith
  then show "32 \<le> uint (block_size sz)" using n(1,2) by (intro dvd_above) auto
qed

lemma xmalloc_chunk:
  assumes inv: "arena_inv s xs fs" and sz: "sz \<noteq> 0" "uint sz \<le> 0xf000000" and none: "find (\<lambda>x. block_size sz \<le> a_size s x) fs = None"
    and room: "uint (align_up (current_brk s) 32) + uint (chunk_size (block_size sz)) < uint (heap s) + 0x1000000"
  shows "\<exists>x s' xs' fs'. xmalloc s sz = Some (malloc_from_block s' x (block_size sz)) \<and> arena_inv s' xs' fs' \<and> x \<in> set fs' \<and>
    block_size sz \<le> a_size s' x \<and> allocated s' xs' = allocated s xs \<and> heap s' = heap s"
proof -
  let ?c = "chunk_size (block_size sz)" and ?a = "align_up (current_brk s) 32" and ?p = "before (malloc_head s) xs"
  note n = block_size_ok [OF sz]
  have c: "16 dvd uint ?c" "uint (block_size sz) \<le> uint ?c" "uint ?c \<le> 0xf010020"
    using chunk_size_bounds [of "block_size sz"] n(4) sz(2) by auto
  have place: "place_ok s" and laid: "laid (a_size s) (uint (heap s)) xs (uint (current_brk s))" using inv by (auto simp: arena_inv_def arena_core_def)
  then have p: "uint (current_brk s) < 0xf0000000" "uint (heap s) \<le> uint (current_brk s)" using laid_le by (auto simp: place_ok_def)
  note a = align_up_bounds [of "current_brk s"]
  have sb: "sbrk s ?c = (?a, s\<lparr>current_brk := ?a + ?c\<rparr>)" using sbrk_value [OF place p(2) c(3)] room by simp
  have "uint ?a < uint (-1 :: u32w)" using a p by (simp add: unsigned_minus_1_eq_mask mask_eq_exp_minus_1)
  then have nz: "?a \<noteq> -1" by auto
  define s2 where "s2 = s\<lparr>current_brk := ?a + ?c, a_type := (a_type s)(?a := ARENA_TYPE_FREE), a_size := (a_size s)(?a := ?c)\<rparr>"
  have ad: "find_pred s2 ?a (a_prev s2 (malloc_head s2)) = Some ?p" "arena_inv (used (add_chunk s2 ?a ?p) ?a) (xs @ [?a]) fs"
    "allocated (used (add_chunk s2 ?a ?p) ?a) (xs @ [?a]) = (allocated s xs)(?a \<mapsto> ?c)" "?a \<notin> set xs" "a_size (add_chunk s2 ?a ?p) ?a = ?c"
    using add_chunk_inv [OF inv _ _ _ _ room s2_def] a p c n(2) by auto
  have hs: "heap (add_chunk s2 ?a ?p) = heap s" by (simp add: add_chunk_def s2_def Let_def)
  obtain x s3 xs3 fs3 where f: "free_block (add_chunk s2 ?a ?p) ?a = (x, s3)" "arena_inv s3 xs3 fs3" "x \<in> set fs3"
      "allocated s3 xs3 = ((allocated s xs)(?a \<mapsto> ?c))(?a := None)" "uint ?c \<le> uint (a_size s3 x)" "heap s3 = heap s"
    using free_block_inv [OF ad(2)] unfolding ad(3,5) hs by auto
  have "xmalloc s sz = Some (malloc_from_block s3 x (block_size sz))"
    using xmalloc_grow [OF inv sz(1) none sb nz _ _ f(1)] ad(1) by (simp add: s2_def)
  moreover have "allocated s3 xs3 = allocated s xs" using f(4) ad(4) by (auto simp: fun_eq_iff allocated_def)
  moreover have "block_size sz \<le> a_size s3 x" using f(5) c(2) by (simp add: word_le_def)
  ultimately show ?thesis using f(2,3,6) by (intro exI conjI)
qed

text \<open>A request of up to 240 megabytes is served exactly when it can be, with a block that was not in use.\<close>

lemma xmalloc_inv:
  assumes inv: "arena_inv s xs fs" and sz: "sz \<noteq> 0" "uint sz \<le> 0xf000000"
  shows "served s fs sz \<Longrightarrow> \<exists>x k s' xs' fs'. xmalloc s sz = Some (x + 16, s') \<and> arena_inv s' xs' fs' \<and> allocated s xs x = None \<and>
      allocated s' xs' = (allocated s xs)(x \<mapsto> k) \<and> uint sz + 16 \<le> uint k \<and> uint k \<le> uint sz + 47 \<and> heap s' = heap s"
    "\<not> served s fs sz \<Longrightarrow> xmalloc s sz = Some (0, s)"
proof -
  let ?n = "block_size sz"
  note n = block_size_ok [OF sz]
  have place: "place_ok s" and laid: "laid (a_size s) (uint (heap s)) xs (uint (current_brk s))" using inv by (auto simp: arena_inv_def arena_core_def)
  assume "served s fs sz"
  have "\<exists>x s' xs' fs'. xmalloc s sz = Some (malloc_from_block s' x ?n) \<and> arena_inv s' xs' fs' \<and> x \<in> set fs' \<and>
    ?n \<le> a_size s' x \<and> allocated s' xs' = allocated s xs \<and> heap s' = heap s"
  proof (cases "find (\<lambda>x. ?n \<le> a_size s x) fs")
    case None
    then show ?thesis using xmalloc_chunk [OF inv sz None] \<open>served s fs sz\<close> by (auto simp: served_def find_None_iff)
  next
    case (Some fp)
    then have "fp \<in> set fs" "?n \<le> a_size s fp" by (auto simp: find_Some_iff)
    then show ?thesis using inv xmalloc_fit [OF inv sz(1) Some] by blast
  qed
  then obtain x s1 xs1 fs1 where x: "xmalloc s sz = Some (malloc_from_block s1 x ?n)" "arena_inv s1 xs1 fs1" "x \<in> set fs1" "?n \<le> a_size s1 x"
    "allocated s1 xs1 = allocated s xs" "heap s1 = heap s" by blast
  show "\<exists>x k s' xs' fs'. xmalloc s sz = Some (x + 16, s') \<and> arena_inv s' xs' fs' \<and> allocated s xs x = None \<and>
      allocated s' xs' = (allocated s xs)(x \<mapsto> k) \<and> uint sz + 16 \<le> uint k \<and> uint k \<le> uint sz + 47 \<and> heap s' = heap s"
    using malloc_from_block_inv [OF x(2-4) n(1,2)] x(1) n(3,4) unfolding x(5,6) by force
next
  have place: "place_ok s" and laid: "laid (a_size s) (uint (heap s)) xs (uint (current_brk s))" using inv by (auto simp: arena_inv_def arena_core_def)
  assume no: "\<not> served s fs sz"
  have "uint (chunk_size (block_size sz)) \<le> 0xf010020"
    using chunk_size_bounds(3) [of "block_size sz"] block_size_ok(4) [OF sz] sz(2) by auto
  then have "sbrk s (chunk_size (block_size sz)) = (-1, s)" using sbrk_value [OF place laid_le [OF laid]] no by (simp add: served_def)
  then show "xmalloc s sz = Some (0, s)" using xmalloc_full [OF inv sz(1)] no by (auto simp: served_def find_None_iff)
qed

text \<open>A large free block at the end of the heap is given back.\<close>

lemma give_back:
  assumes inv: "arena_inv s xs fs" and x: "x \<in> set fs" "x + a_size s x = current_brk s"
    and s': "s' = snd (brk (remove_from_chains s x) x)"
  shows "\<exists>xs' fs'. arena_inv s' xs' fs' \<and> allocated s' xs' = allocated s xs \<and> heap s' = heap s"
proof -
  let ?h = "malloc_head s"
  have core: "arena_core s xs fs" using inv by (simp add: arena_inv_def)
  have tx: "x \<in> set xs" "a_type s x = ARENA_TYPE_FREE" using arena_free [OF core] x(1) by auto
  obtain as bs where xs: "xs = as @ x # bs" using split_list [OF tx(1)] by blast
  obtain cs ds where fs: "fs = cs @ x # ds" using split_list [OF x(1)] by blast
  note blk = arena_block [OF core tx(1)]
  have laid: "laid (a_size s) (uint (heap s)) (as @ x # bs) (uint (current_brk s))" and place: "place_ok s"
    and main: "chain (a_next s) (a_prev s) ?h (as @ x # bs)" "chain (next_free s) (prev_free s) ?h (cs @ x # ds)"
    and free: "set (cs @ x # ds) = {z\<in>set (as @ x # bs). a_type s z = ARENA_TYPE_FREE}"
    using core by (auto simp: arena_core_def xs fs)
  have top: "laid (a_size s) (uint (current_brk s)) bs (uint (current_brk s))" using laid blk(8) x(2) by (simp add: laid_append)
  have bs: "bs = []"
  proof (cases bs)
    case (Cons y ys)
    then show ?thesis using laid_range [OF top, of y] by auto
  qed simp
  have "x \<noteq> 0" using blk(1) place by (auto simp: place_ok_def)
  moreover have "uint x < uint (heap s) + 0x1000000" using blk(2,3) place by (auto simp: place_ok_def)
  ultimately have b: "brk_at s x = x" using brk_at_value [OF place] blk(1) by simp
  have "heap (remove_from_chains s x) = heap s"
    by (simp add: remove_from_chains_def remove_from_main_chain_def remove_from_free_chain_def Let_def)
  then have "brk_at (remove_from_chains s x) x = brk_at s x" by (simp only: brk_at_def)
  then have sb: "s' = (remove_from_chains s x)\<lparr>current_brk := x\<rparr>" using b by (simp add: s' brk_def)
  note m = chain_remove [OF main(1)] and f = chain_remove [OF main(2)]
  have eq: "s' = s\<lparr>next_free := (next_free s)(before ?h cs := after ?h ds), prev_free := (prev_free s)(after ?h ds := before ?h cs),
      a_next := (a_next s)(before ?h as := ?h), a_prev := (a_prev s)(?h := before ?h as), current_brk := x\<rparr>"
    unfolding sb remove_from_chains_def remove_from_main_chain_def remove_from_free_chain_def using m(1,2) f(1,2) by (simp add: bs Let_def)
  have d: "distinct (as @ [x])" "distinct (cs @ x # ds)" using chain_distinct [OF main(1)] chain_distinct [OF main(2)] bs by simp_all
  have rest: "set (cs @ ds) = set (cs @ x # ds) - {x}" using d(2) by auto
  have "set (cs @ ds) = {z\<in>set as. a_type s z = ARENA_TYPE_FREE}" unfolding rest free bs using d(1) by auto
  moreover have "place_ok s'" using place blk(1,2,3) by (auto simp: place_ok_def eq)
  moreover have "laid (a_size s) (uint (heap s)) as (uint x)" using laid by (simp add: laid_append)
  ultimately have "arena_core s' as (cs @ ds)" using core m(3) f(3) by (auto simp: arena_core_def eq xs bs)
  moreover have "coalesced (a_type s') (a_size s') as" using inv coalesced_prefix [of "a_type s" "a_size s" as "x # bs"] by (simp add: arena_inv_def xs eq)
  moreover have "allocated s' as = allocated s xs" using tx(2) by (auto simp: allocated_def xs bs eq fun_eq_iff)
  moreover have "heap s' = heap s" by (simp add: eq)
  ultimately show ?thesis unfolding arena_inv_def by (intro exI conjI)
qed

lemma allocated_block:
  assumes "arena_inv s xs fs" "allocated s xs x = Some k"
  shows "x \<in> set xs" "a_type s x = ARENA_TYPE_USED" "k = a_size s x" "uint (heap s) \<le> uint x" "uint x + uint k \<le> uint (current_brk s)"
    "16 dvd uint x" "uint (x + 16) = uint x + 16" "x + 16 \<noteq> 0"
proof -
  show x: "x \<in> set xs" "a_type s x = ARENA_TYPE_USED" "k = a_size s x" using assms(2) by (auto simp: allocated_def split: if_splits)
  have "arena_core s xs fs" using assms(1) by (simp add: arena_inv_def)
  note blk = arena_block [OF this x(1)]
  show "uint (heap s) \<le> uint x" "uint x + uint k \<le> uint (current_brk s)" "16 dvd uint x" using blk x(3) by auto
  show h: "uint (x + 16) = uint x + 16" using blk(2,3) unsigned_less [where ?'a = int, of "current_brk s"] uint_add [of x 16] by simp
  have "0 < uint (x + 16)" using h unsigned_greater_eq [where ?'a = int, of x] by linarith
  then show "x + 16 \<noteq> 0" by auto
qed

text \<open>Releasing a block in use takes just that block out of use.\<close>

lemma xfree_inv:
  assumes inv: "arena_inv s xs fs" and x: "allocated s xs x = Some k"
  shows "\<exists>xs' fs'. arena_inv (xfree s (x + 16)) xs' fs' \<and> allocated (xfree s (x + 16)) xs' = (allocated s xs)(x := None) \<and> heap (xfree s (x + 16)) = heap s"
proof -
  note tx = allocated_block [OF inv x]
  have u: "used s x = s" using tx(2) by (metis arena.surjective arena.update_convs(4) fun_upd_triv)
  obtain y s1 xs1 fs1 where f: "free_block s x = (y, s1)" "arena_inv s1 xs1 fs1" "y \<in> set fs1"
      "allocated s1 xs1 = (allocated s xs)(x := None)" "heap s1 = heap s"
    using free_block_inv [of s x xs fs] inv tx(1) unfolding u by blast
  show ?thesis
  proof (cases "SZ_64K \<le> a_size s1 y \<and> y + a_size s1 y = current_brk s1")
    case True
    then have "xfree s (x + 16) = snd (brk (remove_from_chains s1 y) y)" using tx(8) f(1) by (simp add: xfree_def)
    then show ?thesis using give_back [OF f(2,3) _ refl] True f(4,5) by metis
  next
    case False
    then have "xfree s (x + 16) = s1" using tx(8) f(1) by (auto simp: xfree_def)
    then show ?thesis using f by metis
  qed
qed

section \<open>Sequences of requests\<close>

text \<open>The heap as the linker places it: no block, and the head of the lists linked to itself.\<close>

definition arena_init :: "addr \<Rightarrow> addr \<Rightarrow> arena" where
  "arena_init hp hd' =
     \<lparr>heap = hp, malloc_head = hd', current_brk = hp, a_type = (\<lambda>_. ARENA_TYPE_USED)(hd' := ARENA_TYPE_HEAD), a_size = \<lambda>_. 0,
      a_next = (\<lambda>_. 0)(hd' := hd'), a_prev = (\<lambda>_. 0)(hd' := hd'), next_free = (\<lambda>_. 0)(hd' := hd'), prev_free = (\<lambda>_. 0)(hd' := hd')\<rparr>"

text \<open>The states a caller can reach, with the table of the pointers it holds and the sizes it asked for.\<close>

inductive arena_run :: "addr \<Rightarrow> addr \<Rightarrow> arena \<Rightarrow> (addr \<rightharpoonup> u32w) \<Rightarrow> bool" for hp hd' where
  init: "arena_run hp hd' (arena_init hp hd') Map.empty"
| malloc: "arena_run hp hd' s t \<Longrightarrow> uint sz \<le> 0xf000000 \<Longrightarrow> xmalloc s sz = Some (p, s') \<Longrightarrow>
    arena_run hp hd' s' (if p = 0 then t else t(p \<mapsto> sz))"
| free: "arena_run hp hd' s t \<Longrightarrow> p = 0 \<or> t p \<noteq> None \<Longrightarrow> arena_run hp hd' (xfree s p) (t(p := None))"

text \<open>Every pointer of the table is the data of a block in use that is large enough.\<close>

definition held_ok :: "arena \<Rightarrow> addr list \<Rightarrow> (addr \<rightharpoonup> u32w) \<Rightarrow> bool" where
  "held_ok s xs t \<longleftrightarrow> (\<forall>p sz. t p = Some sz \<longrightarrow> (\<exists>k. allocated s xs (p - 16) = Some k \<and> uint sz + 16 \<le> uint k))"

lemma arena_init_inv: "place_ok (arena_init hp hd') \<Longrightarrow> arena_inv (arena_init hp hd') [] []"
  by (simp add: arena_inv_def arena_core_def chain_def arena_init_def)

lemma xmalloc_cases:
  assumes "arena_inv s xs fs" "uint sz \<le> 0xf000000"
  shows "xmalloc s sz = Some (0, s) \<or> (\<exists>x k s' xs' fs'. xmalloc s sz = Some (x + 16, s') \<and> arena_inv s' xs' fs' \<and> allocated s xs x = None \<and>
      allocated s' xs' = (allocated s xs)(x \<mapsto> k) \<and> uint sz + 16 \<le> uint k \<and> uint k \<le> uint sz + 47 \<and> heap s' = heap s)"
proof (cases "sz = 0")
  case True
  then show ?thesis by (simp add: xmalloc_def)
next
  case False
  then show ?thesis using xmalloc_inv [OF assms(1) False assms(2)] by (cases "served s fs sz") auto
qed

lemma arena_run_inv:
  assumes "arena_run hp hd' s t" "place_ok (arena_init hp hd')"
  shows "heap s = hp \<and> t 0 = None \<and> (\<exists>xs fs. arena_inv s xs fs \<and> held_ok s xs t)"
  using assms
proof induction
  case init
  then show ?case using arena_init_inv by (auto simp: held_ok_def arena_init_def)
next
  case (malloc s t sz p s')
  then obtain xs fs where inv: "arena_inv s xs fs" and tab: "held_ok s xs t" and hp: "heap s = hp" "t 0 = None" by blast
  consider "p = 0" "s' = s" | x k xs' fs' where "p = x + 16" "arena_inv s' xs' fs'" "allocated s xs x = None" "allocated s' xs' = (allocated s xs)(x \<mapsto> k)"
      "uint sz + 16 \<le> uint k" "heap s' = heap s"
    using xmalloc_cases [OF inv malloc.hyps(2)] malloc.hyps(3) by auto
  then show ?case
  proof cases
    case 1
    then show ?thesis using inv tab hp by auto
  next
    case 2
    have "p \<noteq> 0" using allocated_block(8) [OF 2(2), of x k] 2(1,4) by simp
    moreover have "held_ok s' xs' (t(p \<mapsto> sz))"
      unfolding held_ok_def
    proof (intro allI impI)
      fix q l
      assume q: "(t(p \<mapsto> sz)) q = Some l"
      show "\<exists>k. allocated s' xs' (q - 16) = Some k \<and> uint l + 16 \<le> uint k"
      proof (cases "q = p")
        case True
        then show ?thesis using q 2(1,4,5) by simp
      next
        case False
        then obtain k' where "allocated s xs (q - 16) = Some k'" "uint l + 16 \<le> uint k'" using q tab by (auto simp: held_ok_def)
        then show ?thesis using 2(3,4) by auto
      qed
    qed
    moreover have "(t(p \<mapsto> sz)) 0 = None" using calculation(1) hp(2) by simp
    ultimately show ?thesis using 2(2,6) hp(1) by (simp del: fun_upd_apply) blast
  qed
next
  case (free s t p)
  then obtain xs fs where inv: "arena_inv s xs fs" and tab: "held_ok s xs t" and hp: "heap s = hp" "t 0 = None" by blast
  show ?case
  proof (cases "p = 0")
    case True
    then show ?thesis using inv tab hp by (auto simp: xfree_def fun_upd_idem)
  next
    case False
    then obtain sz where "t p = Some sz" using free.hyps(2) by auto
    then obtain k where k: "allocated s xs (p - 16) = Some k" using tab by (auto simp: held_ok_def)
    obtain xs' fs' where f: "arena_inv (xfree s p) xs' fs'" "allocated (xfree s p) xs' = (allocated s xs)(p - 16 := None)" "heap (xfree s p) = hp"
      using xfree_inv [OF inv k] hp by auto
    have "held_ok (xfree s p) xs' (t(p := None))" using tab unfolding held_ok_def f(2) by auto
    moreover have "(t(p := None)) 0 = None" using hp(2) by simp
    ultimately show ?thesis using f(1,3) by (simp del: fun_upd_apply) blast
  qed
qed

text \<open>Two blocks of the list of all blocks are apart, and so are a block in use and the headers of all others.\<close>

lemma blocks_apart:
  assumes "arena_inv s xs fs" "allocated s xs x = Some k" "y \<in> set xs" "y \<noteq> x"
  shows "uint x + uint k \<le> uint y \<or> uint y + uint (a_size s y) \<le> uint x" "32 \<le> uint (a_size s y)"
proof -
  have l: "laid (a_size s) (uint (heap s)) xs (uint (current_brk s))" using assms(1) by (simp add: arena_inv_def arena_core_def)
  show "uint x + uint k \<le> uint y \<or> uint y + uint (a_size s y) \<le> uint x"
    using laid_apart [OF l, of x y] allocated_block(1,3) [OF assms(1,2)] assms(3,4) by auto
  show "32 \<le> uint (a_size s y)" using laid_range [OF l assms(3)] by simp
qed

lemma arena_run_data:
  assumes "arena_run hp hd' s t" "place_ok (arena_init hp hd')"
  shows "\<exists>xs fs. arena_inv s xs fs \<and>
    (\<forall>p sz. t p = Some sz \<longrightarrow>
      16 dvd uint p \<and> uint hp + 16 \<le> uint p \<and> uint p + uint sz \<le> uint (current_brk s) \<and> uint (current_brk s) < uint hp + 0x1000000 \<and>
      (\<forall>q l. t q = Some l \<and> q \<noteq> p \<longrightarrow> uint p + uint sz \<le> uint q \<or> uint q + uint l \<le> uint p) \<and>
      (\<forall>x\<in>set xs. uint p + uint sz \<le> uint x \<or> uint x + (if a_type s x = ARENA_TYPE_FREE then 24 else 16) \<le> uint p))"
proof -
  from arena_run_inv [OF assms] obtain xs fs where inv: "arena_inv s xs fs" and tab: "held_ok s xs t" and hp: "heap s = hp" by blast
  have brk: "uint (current_brk s) < uint hp + 0x1000000" using inv hp by (auto simp: arena_inv_def arena_core_def place_ok_def)
  have main: "16 dvd uint p \<and> uint hp + 16 \<le> uint p \<and> uint p + uint sz \<le> uint (current_brk s) \<and>
      (\<forall>q l. t q = Some l \<and> q \<noteq> p \<longrightarrow> uint p + uint sz \<le> uint q \<or> uint q + uint l \<le> uint p) \<and>
      (\<forall>x\<in>set xs. uint p + uint sz \<le> uint x \<or> uint x + (if a_type s x = ARENA_TYPE_FREE then 24 else 16) \<le> uint p)" if p: "t p = Some sz" for p sz
  proof -
    obtain k where k: "allocated s xs (p - 16) = Some k" "uint sz + 16 \<le> uint k" using tab p by (auto simp: held_ok_def)
    note b = allocated_block [OF inv k(1)]
    have pp: "uint p = uint (p - 16) + 16" using b(7) by simp
    have "uint p + uint sz \<le> uint q \<or> uint q + uint l \<le> uint p" if q: "t q = Some l" "q \<noteq> p" for q l
    proof -
      obtain j where j: "allocated s xs (q - 16) = Some j" "uint l + 16 \<le> uint j" using tab q by (auto simp: held_ok_def)
      note c = allocated_block [OF inv j(1)]
      have "q - 16 \<noteq> p - 16" using q(2) by simp
      then show ?thesis using blocks_apart(1) [OF inv k(1) c(1)] c(3,7) j(2) k(2) pp by auto
    qed
    moreover have "uint p + uint sz \<le> uint x \<or> uint x + (if a_type s x = ARENA_TYPE_FREE then 24 else 16) \<le> uint p" if x: "x \<in> set xs" for x
      using blocks_apart [OF inv k(1) x] b(2) pp k(2) by (cases "x = p - 16") auto
    moreover have "16 dvd uint p" unfolding pp using b(6) by (rule dvd_add) simp
    ultimately show ?thesis using b(4,5) pp k(2) hp by auto
  qed
  then show ?thesis using inv brk by blast
qed

text \<open>A pointer that is returned is not held yet.\<close>

lemma arena_run_fresh:
  assumes "arena_run hp hd' s t" "place_ok (arena_init hp hd')" "uint sz \<le> 0xf000000" "xmalloc s sz = Some (p, s')" "p \<noteq> 0"
  shows "t p = None"
proof (rule ccontr)
  assume "t p \<noteq> None"
  then obtain l where l: "t p = Some l" by blast
  obtain xs fs where inv: "arena_inv s xs fs" and tab: "held_ok s xs t" using arena_run_inv [OF assms(1,2)] by blast
  have "allocated s xs (p - 16) = None" using xmalloc_cases [OF inv assms(3)] assms(4,5) by auto
  then show False using tab l unfolding held_ok_def by fastforce
qed

lemma arena_run_apart:
  assumes "arena_run hp hd' s t" "place_ok (arena_init hp hd')" "t p = Some l"
  shows "uint p + uint l \<le> uint (current_brk s)" "t q = Some k \<Longrightarrow> q \<noteq> p \<Longrightarrow> uint p + uint l \<le> uint q \<or> uint q + uint k \<le> uint p"
proof -
  obtain xs where d: "uint p + uint l \<le> uint (current_brk s) \<and> (\<forall>q k. t q = Some k \<and> q \<noteq> p \<longrightarrow> uint p + uint l \<le> uint q \<or> uint q + uint k \<le> uint p)"
    using arena_run_data [OF assms(1,2)] assms(3) by blast
  show "uint p + uint l \<le> uint (current_brk s)" using d by simp
  show "t q = Some k \<Longrightarrow> q \<noteq> p \<Longrightarrow> uint p + uint l \<le> uint q \<or> uint q + uint k \<le> uint p" using d by blast
qed

lemma arena_run_room:
  assumes "arena_run hp hd' s t" "place_ok (arena_init hp hd')" "uint sz \<le> 0xf000000"
  shows "\<exists>p s'. xmalloc s sz = Some (p, s') \<and>
    (sz \<noteq> 0 \<and> uint (current_brk s) + uint sz + 0x10040 \<le> uint hp + 0x1000000 \<longrightarrow> p \<noteq> 0)"
proof -
  from arena_run_inv [OF assms(1,2)] obtain xs fs where inv: "arena_inv s xs fs" and hp: "heap s = hp" by blast
  have "uint (current_brk s) + 31 < 4294967296" using inv by (auto simp: arena_inv_def arena_core_def place_ok_def)
  then have a: "uint (align_up (current_brk s) 32) \<le> uint (current_brk s) + 31" by (rule align_up_bounds(3))
  show ?thesis
  proof (cases "sz \<noteq> 0 \<and> uint (current_brk s) + uint sz + 0x10040 \<le> uint hp + 0x1000000")
    case True
    then have "uint (chunk_size (block_size sz)) \<le> uint sz + 31 + 65535"
      using chunk_size_bounds(3) [of "block_size sz"] block_size_ok(4) [OF _ assms(3)] assms(3) by auto
    then have "served s fs sz" using True a hp by (auto simp: served_def)
    then obtain x k s' xs' fs' where r: "xmalloc s sz = Some (x + 16, s')" "arena_inv s' xs' fs'" "allocated s' xs' = (allocated s xs)(x \<mapsto> k)"
      using xmalloc_inv(1) [OF inv _ assms(3)] True by blast
    then show ?thesis using allocated_block(8) [OF r(2), of x k] by auto
  next
    case False
    then show ?thesis using xmalloc_cases [OF inv assms(3)] by auto
  qed
qed

text \<open>A request raises the end of the heap by no more than its chunk.\<close>

lemma block_brk [simp]: "current_brk (snd (malloc_from_block s fp sz)) = current_brk s" "current_brk (snd (free_block s ah)) = current_brk s"
    "current_brk (add_chunk s fp pah) = current_brk s"
  by (simp_all add: malloc_from_block_def free_block_def free_first_def add_chunk_def remove_from_chains_def remove_from_main_chain_def
      remove_from_free_chain_def Let_def split: prod.splits)

lemma xmalloc_brk:
  assumes "xmalloc s sz = Some (p, s')" "place_ok s" "uint (heap s) \<le> uint (current_brk s)" "uint sz \<le> 0xf000000"
  shows "uint (current_brk s') \<le> uint (current_brk s) + uint sz + 0x10040"
proof (cases "sz = 0")
  case True
  then show ?thesis using assms(1) by (simp add: xmalloc_def)
next
  case False
  let ?n = "block_size sz" and ?c = "chunk_size (block_size sz)"
  obtain fp s1 where sb: "sbrk s ?c = (fp, s1)" by fastforce
  have c: "uint ?c \<le> uint sz + 65566" "uint ?c \<le> 0xf010020"
    using chunk_size_bounds(3) [of ?n] block_size_ok(4) [OF False assms(4)] assms(4) by auto
  have b: "uint (current_brk s) < 0xf0000000" using assms(2) by (auto simp: place_ok_def)
  then have a: "uint (align_up (current_brk s) 32) \<le> uint (current_brk s) + 31" by (intro align_up_bounds(3)) simp
  then have "uint (align_up (current_brk s) 32 + ?c) = uint (align_up (current_brk s) 32) + uint ?c" using b c(2) by (intro uint_add) simp
  then have s1: "uint (current_brk s1) \<le> uint (current_brk s) + uint sz + 0x10040"
    using sbrk_value [OF assms(2,3) c(2)] sb a c(1) unsigned_greater_eq [where ?'a = int, of sz] by (auto split: if_splits)
  obtain fit where fit: "find_fit s ?n (next_free s (malloc_head s)) = Some fit"
    using assms(1) False by (cases "find_fit s ?n (next_free s (malloc_head s))") (auto simp: xmalloc_def Let_def)
  show ?thesis
  proof (cases fit)
    case None
    define s2 where "s2 = s1\<lparr>a_type := (a_type s1)(fp := ARENA_TYPE_FREE), a_size := (a_size s1)(fp := ?c)\<rparr>"
    have "current_brk s' = current_brk s1"
    proof (cases "fp = -1")
      case True
      then show ?thesis using assms(1) False fit sb None by (simp add: xmalloc_def Let_def)
    next
      case fp: False
      obtain pah where pah: "find_pred s2 fp (a_prev s2 (malloc_head s2)) = Some pah"
        using assms(1) False fit sb None fp by (cases "find_pred s2 fp (a_prev s2 (malloc_head s2))") (auto simp: xmalloc_def Let_def s2_def)
      obtain x s3 where fb: "free_block (add_chunk s2 fp pah) fp = (x, s3)" by fastforce
      then have "current_brk s3 = current_brk s1" using block_brk(2) [of "add_chunk s2 fp pah" fp] by (simp add: s2_def)
      moreover have "malloc_from_block s3 x ?n = (p, s')"
        using assms(1) False fit sb None fp pah fb by (simp add: xmalloc_def Let_def s2_def)
      ultimately show ?thesis using block_brk(1) [of s3 x ?n] by simp
    qed
    then show ?thesis using s1 by simp
  next
    case (Some x)
    then have "s' = snd (malloc_from_block s x ?n)" using assms(1) False fit by (simp add: xmalloc_def Let_def)
    then show ?thesis using unsigned_greater_eq [where ?'a = int, of sz] by simp
  qed
qed

lemma region_bounds: "uint p + int n \<le> 4294967296 \<Longrightarrow> b \<in> region p n \<Longrightarrow> uint p \<le> uint b \<and> uint b < uint p + int n"
proof -
  assume n: "uint p + int n \<le> 4294967296" "b \<in> region p n"
  then have "int (unat (b - p)) < int n" by (simp only: region_def mem_Collect_eq of_nat_less_iff)
  then have k: "uint (b - p) < int n" by (simp only: of_nat_unat)
  then have "uint (p + (b - p)) = uint p + uint (b - p)" using n(1) by (intro uint_add) simp
  then show ?thesis using k unsigned_greater_eq [where ?'a = int, of "b - p"] by simp
qed

lemma region_apart:
  assumes "uint p + int n \<le> 4294967296" "uint q + int k \<le> 4294967296" "uint p + int n \<le> uint q \<or> uint q + int k \<le> uint p"
  shows "region p n \<inter> region q k = {}"
  using region_bounds [OF assms(1)] region_bounds [OF assms(2)] assms(3) by fastforce

section \<open>The contract\<close>

text \<open>What a client relies on, with the table of the pointers that are held: a new pointer is not held yet, and what is held ends within the
  address space and is apart.  \<^verbatim>\<open>xmalloc\<close> keeps the contract along every sequence of requests and releases.\<close>

locale allocator =
  fixes held :: "'h \<Rightarrow> (addr \<rightharpoonup> u32w) \<Rightarrow> bool" and alloc :: "'h \<Rightarrow> nat \<Rightarrow> addr \<times> 'h"
  assumes held_new: "held h t \<Longrightarrow> n \<le> 0xf000000 \<Longrightarrow> alloc h n = (p, h') \<Longrightarrow> p \<noteq> 0 \<Longrightarrow> held h' (t(p \<mapsto> of_nat n)) \<and> t p = None"
    and held_top: "held h t \<Longrightarrow> t p = Some l \<Longrightarrow> uint p + uint l \<le> 4294967296"
    and held_apart: "held h t \<Longrightarrow> t p = Some l \<Longrightarrow> t q = Some k \<Longrightarrow> q \<noteq> p \<Longrightarrow> uint p + uint l \<le> uint q \<or> uint q + uint k \<le> uint p"
begin

lemma held_regions:
  assumes "held h t" "t p = Some l" "t q = Some k" "q \<noteq> p"
  shows "region p (unat l) \<inter> region q (unat k) = {}"
  using held_top [OF assms(1,2)] held_top [OF assms(1,3)] held_apart [OF assms] by (intro region_apart) simp_all

text \<open>Filling a block leaves the bytes of every other block.\<close>

lemma fill_frame:
  assumes "held h t" "t p = Some l" "t q = Some k" "q \<noteq> p"
  shows "read_bytes (memset m p c (unat l)) q (unat k) = read_bytes m q (unat k)"
  using held_regions [OF assms] unsigned_less [where ?'a = nat, of l] unsigned_less [where ?'a = nat, of k]
  unfolding memset_bytes by (intro read_write_disjoint) simp_all

end

definition board_malloc :: "arena \<Rightarrow> nat \<Rightarrow> addr \<times> arena" where
  "board_malloc s n = (case xmalloc s (of_nat n) of Some r \<Rightarrow> r | None \<Rightarrow> (0, s))"

lemma board_malloc_run:
  assumes "arena_run hp hd' s t" "place_ok (arena_init hp hd')" "n \<le> 0xf000000" "board_malloc s n = (p, s')" "p \<noteq> 0"
  shows "arena_run hp hd' s' (t(p \<mapsto> of_nat n)) \<and> t p = None"
proof -
  have n: "uint (of_nat n :: u32w) \<le> 0xf000000" using assms(3) by (simp add: unsigned_of_nat take_bit_nat_eq_self)
  have "xmalloc s (of_nat n) = Some (p, s')" using assms(4,5) by (auto simp: board_malloc_def split: option.splits)
  then show ?thesis using arena_run.malloc [OF assms(1) n] arena_run_fresh [OF assms(1,2) n] assms(5) by force
qed

interpretation board: allocator "\<lambda>s t. arena_run hp hd' s t \<and> place_ok (arena_init hp hd')" board_malloc for hp hd'
proof unfold_locales
  fix h t n p h'
  assume "arena_run hp hd' h t \<and> place_ok (arena_init hp hd')" "n \<le> 0xf000000" "board_malloc h n = (p, h')" "p \<noteq> 0"
  then show "(arena_run hp hd' h' (t(p \<mapsto> of_nat n)) \<and> place_ok (arena_init hp hd')) \<and> t p = None" using board_malloc_run by blast
next
  fix h t p l
  assume "arena_run hp hd' h t \<and> place_ok (arena_init hp hd')" "t p = Some l"
  then have "uint p + uint l \<le> uint (current_brk h)" using arena_run_apart(1) by blast
  then show "uint p + uint l \<le> 4294967296" using unsigned_less [where ?'a = int, of "current_brk h"] by simp
next
  fix h t p l q k
  assume "arena_run hp hd' h t \<and> place_ok (arena_init hp hd')" "t p = Some l" "t q = Some k" "q \<noteq> p"
  then show "uint p + uint l \<le> uint q \<or> uint q + uint k \<le> uint p" using arena_run_apart(2) by blast
qed

text \<open>A heap in the memory of the board, before the first request and after a request of 100 bytes.\<close>

lemma board_place: "place_ok (arena_init 0xc4000000 0xc3f00000)"
  by (simp add: place_ok_def arena_init_def)

lemmas board_arena = arena_init_inv [OF board_place]

lemma board_request: "\<exists>p s. xmalloc (arena_init 0xc4000000 0xc3f00000) 100 = Some (p, s) \<and> p \<noteq> 0"
proof -
  have "served (arena_init 0xc4000000 0xc3f00000) [] 100"
    by (simp add: served_def arena_init_def block_size_def chunk_size_def align_up_def)
  then obtain x k s xs fs where "xmalloc (arena_init 0xc4000000 0xc3f00000) 100 = Some (x + 16, s)" "arena_inv s xs fs" "allocated s xs x = Some k"
    using xmalloc_inv(1) [OF board_arena, of 100] by auto
  then show ?thesis using allocated_block(8) by blast
qed

definition arena_two :: arena where
  "arena_two =
     \<lparr>heap = 0xc4000000, malloc_head = 0xc3f00000, current_brk = 0xc4010000,
      a_type = (\<lambda>_. ARENA_TYPE_USED)(0xc3f00000 := ARENA_TYPE_HEAD, 0xc4000080 := ARENA_TYPE_FREE),
      a_size = (\<lambda>_. 0)(0xc4000000 := 0x80, 0xc4000080 := 0xff80),
      a_next = (\<lambda>_. 0)(0xc3f00000 := 0xc4000000, 0xc4000000 := 0xc4000080, 0xc4000080 := 0xc3f00000),
      a_prev = (\<lambda>_. 0)(0xc3f00000 := 0xc4000080, 0xc4000000 := 0xc3f00000, 0xc4000080 := 0xc4000000),
      next_free = (\<lambda>_. 0)(0xc3f00000 := 0xc4000080, 0xc4000080 := 0xc3f00000),
      prev_free = (\<lambda>_. 0)(0xc3f00000 := 0xc4000080, 0xc4000080 := 0xc3f00000)\<rparr>"

lemma arena_two_inv: "arena_inv arena_two [0xc4000000, 0xc4000080] [0xc4000080]"
  by (auto simp: arena_two_def arena_inv_def arena_core_def chain_def place_ok_def)

section \<open>The properties of the allocator\<close>

text \<open>C7: a request between one byte and 240 megabytes on a well-formed heap is answered with the data of a block that was not in use and is at
  least as large as asked for and at most 31 bytes larger, and no other block is touched; it is answered with \<^verbatim>\<open>NULL\<close>, and changes nothing,
  exactly when no free block is large enough and the heap cannot grow by a chunk.\<close>

theorem xmalloc_exact:
  assumes "arena_inv s xs fs" "sz \<noteq> 0" "uint sz \<le> 0xf000000"
  shows "if served s fs sz
    then \<exists>x k s' xs' fs'. xmalloc s sz = Some (x + 16, s') \<and> x + 16 \<noteq> 0 \<and> arena_inv s' xs' fs' \<and> allocated s xs x = None \<and>
      allocated s' xs' = (allocated s xs)(x \<mapsto> k) \<and> uint sz \<le> uint k - 16 \<and> uint k - 16 \<le> uint sz + 31 \<and> heap s' = heap s
    else xmalloc s sz = Some (0, s)"
proof (cases "served s fs sz")
  case True
  then obtain x k s' xs' fs' where r: "xmalloc s sz = Some (x + 16, s')" "arena_inv s' xs' fs'" "allocated s xs x = None"
      "allocated s' xs' = (allocated s xs)(x \<mapsto> k)" "uint sz + 16 \<le> uint k" "uint k \<le> uint sz + 47" "heap s' = heap s"
    using xmalloc_inv(1) [OF assms] by blast
  have "x + 16 \<noteq> 0" using allocated_block(8) [OF r(2), of x k] r(4) by simp
  moreover have "uint sz \<le> uint k - 16" "uint k - 16 \<le> uint sz + 31" using r(5,6) by simp_all
  ultimately show ?thesis using r(1-4,7) unfolding if_P [OF True] by (intro exI conjI)
next
  case False
  then show ?thesis using xmalloc_inv(2) [OF assms] by simp
qed

lemma xmalloc_exact_witness:
  "served (arena_init 0xc4000000 0xc3f00000) [] 100 \<and>
   (\<exists>x k s' xs' fs'. xmalloc (arena_init 0xc4000000 0xc3f00000) 100 = Some (x + 16, s') \<and> arena_inv s' xs' fs' \<and> allocated s' xs' = [x \<mapsto> k] \<and>
     100 \<le> uint k - 16 \<and> uint k - 16 \<le> 131)"
proof -
  have s: "served (arena_init 0xc4000000 0xc3f00000) [] 100"
    by (simp add: served_def arena_init_def block_size_def chunk_size_def align_up_def)
  have e: "allocated (arena_init 0xc4000000 0xc3f00000) [] = Map.empty" by (simp add: allocated_def fun_eq_iff)
  have b: "(100 :: u32w) \<noteq> 0" "uint (100 :: u32w) \<le> 0xf000000" by simp_all
  obtain x k s' xs' fs' where "xmalloc (arena_init 0xc4000000 0xc3f00000) 100 = Some (x + 16, s')" "arena_inv s' xs' fs'" "allocated s' xs' = [x \<mapsto> k]"
      "uint (100 :: u32w) \<le> uint k - 16" "uint k - 16 \<le> uint (100 :: u32w) + 31"
    using xmalloc_exact [OF board_arena b] unfolding if_P [OF s] e by blast
  moreover from this have "100 \<le> uint k - 16" "uint k - 16 \<le> 131" by simp_all
  ultimately show ?thesis using s by blast
qed

text \<open>C14: releasing a block in use takes just that block out of use and keeps the heap well-formed: the block is merged with its free
  neighbours, and a large free block at the end of the heap is given back.\<close>

theorem xfree_exact:
  assumes "arena_inv s xs fs" "allocated s xs (p - 16) = Some k"
  shows "\<exists>xs' fs'. arena_inv (xfree s p) xs' fs' \<and> allocated (xfree s p) xs' = (allocated s xs)(p - 16 := None) \<and> heap (xfree s p) = heap s"
  using xfree_inv [OF assms] by simp

lemma xfree_exact_witness:
  "\<exists>xs fs. arena_inv (xfree arena_two 0xc4000010) xs fs \<and> allocated (xfree arena_two 0xc4000010) xs = Map.empty"
proof -
  have "allocated arena_two [0xc4000000, 0xc4000080] = [0xc4000000 \<mapsto> 128]" by (auto simp: allocated_def arena_two_def fun_eq_iff)
  then show ?thesis using xfree_exact [OF arena_two_inv, of "0xc4000010" 128] by simp blast
qed

text \<open>C2: after any sequence of requests and releases the data the caller holds lies in the heap, at multiples of 16, apart from the data of
  every other pointer and from the header of every block, so that the caller can not destroy the lists by writing to its data.\<close>

theorem arena_run_safe:
  assumes "arena_run hp hd' s t" "place_ok (arena_init hp hd')"
  shows "\<exists>xs fs. arena_inv s xs fs \<and>
    (\<forall>p sz. t p = Some sz \<longrightarrow>
      16 dvd uint p \<and> uint hp + 16 \<le> uint p \<and> uint p + uint sz \<le> uint (current_brk s) \<and> uint (current_brk s) < uint hp + 0x1000000 \<and>
      (\<forall>q l. t q = Some l \<and> q \<noteq> p \<longrightarrow> uint p + uint sz \<le> uint q \<or> uint q + uint l \<le> uint p) \<and>
      (\<forall>x\<in>set xs. uint p + uint sz \<le> uint x \<or> uint x + (if a_type s x = ARENA_TYPE_FREE then 24 else 16) \<le> uint p))"
  using arena_run_data [OF assms] .

lemma arena_run_safe_witness:
  "case xmalloc (arena_init 0xc4000000 0xc3f00000) 100 of None \<Rightarrow> False
   | Some (p, s) \<Rightarrow> arena_run 0xc4000000 0xc3f00000 s [p \<mapsto> 100] \<and> 0xc4000010 \<le> uint p \<and> uint p + 100 \<le> uint (current_brk s)"
proof -
  obtain p s where m: "xmalloc (arena_init 0xc4000000 0xc3f00000) 100 = Some (p, s)" "p \<noteq> 0" using board_request by blast
  have run: "arena_run 0xc4000000 0xc3f00000 s [p \<mapsto> 100]" using arena_run.malloc [OF arena_run.init _ m(1)] m(2) by simp
  have "uint (0xc4000000 :: u32w) + 16 \<le> uint p \<and> uint p + uint (100 :: u32w) \<le> uint (current_brk s)"
    using arena_run_safe [OF run board_place] by (elim exE conjE, drule_tac x = p in spec, drule_tac x = 100 in spec) simp
  then show ?thesis using run m(1) by simp
qed

text \<open>C15: every request of up to 240 megabytes returns, and a request returns a block as long as the unused end of the heap is larger
  than the request by a chunk.\<close>

theorem xmalloc_progress:
  assumes "arena_run hp hd' s t" "place_ok (arena_init hp hd')" "uint sz \<le> 0xf000000"
  shows "\<exists>p s'. xmalloc s sz = Some (p, s') \<and>
    (sz \<noteq> 0 \<and> uint (current_brk s) + uint sz + 0x10040 \<le> uint hp + 0x1000000 \<longrightarrow> p \<noteq> 0)"
  using arena_run_room [OF assms] .

lemma xmalloc_progress_witness: "\<exists>p s. xmalloc (arena_init 0xc4000000 0xc3f00000) 0xef0000 = Some (p, s) \<and> p \<noteq> 0"
  using xmalloc_progress [OF arena_run.init board_place, of "0xef0000"] by (auto simp: arena_init_def)

text \<open>C16: the size of a request wraps: for the largest 15 sizes the block is cut to its header, and the pointer that is returned is
  the header of the first free block of the list.\<close>

theorem xmalloc_size_wraps:
  assumes inv: "arena_inv s xs (fp # fs)" and "48 \<le> a_size s fp" "0xfffffff1 \<le> sz"
  shows "\<exists>s'. xmalloc s sz = Some (fp + 16, s') \<and> a_size s' fp = 16 \<and> next_free s' (malloc_head s') = fp + 16 \<and> a_type s' (fp + 16) = ARENA_TYPE_FREE"
proof -
  have "uint (sz + 31) = uint sz + 31 - 4294967296" using assms(3) by (simp add: uint_plus_if_size word_size word_le_def)
  moreover have "uint sz < 4294967296" using unsigned_less [where ?'a = int, of sz] by simp
  ultimately have "16 \<le> uint (sz + 31)" "uint (sz + 31) < 32" using assms(3) by (simp_all add: word_le_def)
  then have "uint (sz + 31) div 16 = 1" by (intro int_div_pos_eq [of _ _ _ "uint (sz + 31) - 16"]) auto
  then have "uint (block_size sz) = 16"
    using uint_and_not_mask [of "sz + 31" 4] by (simp add: block_size_def mask_eq_exp_minus_1 add.commute [of _ sz])
  then have n: "block_size sz = 16" by (simp add: word_uint_eq_iff)
  have main: "chain (next_free s) (prev_free s) (malloc_head s) ([] @ fp # fs)" and "fp \<in> set xs" using inv by (auto simp: arena_inv_def arena_core_def)
  then have h: "prev_free s fp = malloc_head s" "fp \<noteq> malloc_head s" using chain_remove(2) [OF main] chain_distinct [OF main] by auto
  have "(16 :: u32w) \<le> a_size s fp" using assms(2) by (simp add: word_le_def)
  then have f: "find (\<lambda>x. block_size sz \<le> a_size s x) (fp # fs) = Some fp" by (simp add: n)
  have "sz \<noteq> 0" using assms(3) by auto
  then show ?thesis using xmalloc_fit [OF inv _ f] assms(2) h by (simp add: n malloc_from_block_def Let_def)
qed

lemma xmalloc_size_wraps_witness:
  "\<exists>s. xmalloc arena_two 0xffffffff = Some (0xc4000090, s) \<and> next_free s (malloc_head s) = 0xc4000090 \<and> a_type s 0xc4000090 = ARENA_TYPE_FREE"
proof -
  have "48 \<le> a_size arena_two 0xc4000080" by (simp add: arena_two_def)
  then show ?thesis using xmalloc_size_wraps [OF arena_two_inv, of "0xffffffff"] by auto
qed

end
