(* ===== verification/Lmb.thy ===== *)
theory Lmb
  imports Boot_Prelude "HOL-Library.Monad_Syntax"
begin

text \<open>
  Logical memory blocks, \<^verbatim>\<open>lib/lmb.c\<close>: the two tables (memory and reserved) the boot loader
  uses to place the kernel, the device tree and the ram disk.  A table is the array of nine entries
  of the source together with its counter; an access outside the array is the value \<^const>\<open>None\<close>.
\<close>

section \<open>Data\<close>

record lmb_property =
  p_base :: u32w
  p_size :: u32w

record lmb_region =
  cnt :: u32w
  r_size :: u32w
  region :: "lmb_property list"

record lmb =
  memory :: lmb_region
  reserved :: lmb_region

abbreviation MAX_LMB_REGIONS :: nat where
  "MAX_LMB_REGIONS \<equiv> 8"

section \<open>Table operations\<close>

definition get_region :: "lmb_property list \<Rightarrow> nat \<Rightarrow> lmb_property option" where
  "get_region rs i = (if i < length rs then Some (rs ! i) else None)"

definition put_region :: "lmb_property list \<Rightarrow> nat \<Rightarrow> lmb_property \<Rightarrow> lmb_property list option" where
  "put_region rs i p = (if i < length rs then Some (rs[i := p]) else None)"

definition lmb_addrs_overlap :: "u32w \<Rightarrow> u32w \<Rightarrow> u32w \<Rightarrow> u32w \<Rightarrow> bool" where
  "lmb_addrs_overlap base1 size1 base2 size2 \<longleftrightarrow> base1 < base2 + size2 \<and> base2 < base1 + size1"

definition lmb_addrs_adjacent :: "u32w \<Rightarrow> u32w \<Rightarrow> u32w \<Rightarrow> u32w \<Rightarrow> int" where
  "lmb_addrs_adjacent base1 size1 base2 size2 =
     (if base2 = base1 + size1 then 1 else if base1 = base2 + size2 then - 1 else 0)"

definition lmb_regions_adjacent :: "lmb_region \<Rightarrow> nat \<Rightarrow> nat \<Rightarrow> int option" where
  "lmb_regions_adjacent rgn r1 r2 =
     do {
       p1 \<leftarrow> get_region (region rgn) r1;
       p2 \<leftarrow> get_region (region rgn) r2;
       Some (lmb_addrs_adjacent (p_base p1) (p_size p1) (p_base p2) (p_size p2))
     }"

primrec shift_down :: "nat \<Rightarrow> nat \<Rightarrow> lmb_property list \<Rightarrow> lmb_property list option" where
  "shift_down 0 i rs = Some rs"
| "shift_down (Suc n) i rs =
     do {
       p \<leftarrow> get_region rs (i + 1);
       rs \<leftarrow> put_region rs i p;
       shift_down n (i + 1) rs
     }"

definition lmb_remove_region :: "lmb_region \<Rightarrow> nat \<Rightarrow> lmb_region option" where
  "lmb_remove_region rgn r =
     do {
       rs \<leftarrow> shift_down (unat (cnt rgn - 1) - r) r (region rgn);
       Some (rgn\<lparr>region := rs, cnt := cnt rgn - 1\<rparr>)
     }"

definition lmb_coalesce_regions :: "lmb_region \<Rightarrow> nat \<Rightarrow> nat \<Rightarrow> lmb_region option" where
  "lmb_coalesce_regions rgn r1 r2 =
     do {
       p1 \<leftarrow> get_region (region rgn) r1;
       p2 \<leftarrow> get_region (region rgn) r2;
       rs \<leftarrow> put_region (region rgn) r1 (p1\<lparr>p_size := p_size p1 + p_size p2\<rparr>);
       lmb_remove_region (rgn\<lparr>region := rs\<rparr>) r2
     }"

text \<open>\<^verbatim>\<open>lmb_init\<close>: both tables hold one dummy entry of size 0.\<close>

definition dummy_region :: "lmb_region \<Rightarrow> lmb_region" where
  "dummy_region rgn = rgn\<lparr>region := (region rgn)[0 := \<lparr>p_base = 0, p_size = 0\<rparr>], cnt := 1, r_size := 0\<rparr>"

definition lmb_init :: "lmb \<Rightarrow> lmb" where
  "lmb_init l = l\<lparr>memory := dummy_region (memory l), reserved := dummy_region (reserved l)\<rparr>"

text \<open>\<^verbatim>\<open>lmb_add_region\<close>: the first loop looks for the block itself or for a neighbour; it ends with
  the table, the index and the number of merges.\<close>

datatype scan = Already | Stopped lmb_region nat nat

primrec coalesce_scan :: "lmb_region \<Rightarrow> u32w \<Rightarrow> u32w \<Rightarrow> nat \<Rightarrow> nat \<Rightarrow> scan option" where
  "coalesce_scan rgn base sz i 0 = Some (Stopped rgn i 0)"
| "coalesce_scan rgn base sz i (Suc n) =
     do {
       p \<leftarrow> get_region (region rgn) i;
       if p_base p = base \<and> p_size p = sz then Some Already
       else
         (let adjacent = lmb_addrs_adjacent base sz (p_base p) (p_size p)
          in if adjacent > 0 then
               do {
                 rs \<leftarrow> put_region (region rgn) i \<lparr>p_base = p_base p - sz, p_size = p_size p + sz\<rparr>;
                 Some (Stopped (rgn\<lparr>region := rs\<rparr>) i 1)
               }
             else if adjacent < 0 then
               do {
                 rs \<leftarrow> put_region (region rgn) i (p\<lparr>p_size := p_size p + sz\<rparr>);
                 Some (Stopped (rgn\<lparr>region := rs\<rparr>) i 1)
               }
             else coalesce_scan rgn base sz (i + 1) n)
     }"

text \<open>The second loop, which makes room from the end of the table down.\<close>

primrec insert_down :: "u32w \<Rightarrow> u32w \<Rightarrow> nat \<Rightarrow> lmb_property list \<Rightarrow> lmb_property list option" where
  "insert_down base sz 0 rs = Some rs"
| "insert_down base sz (Suc i) rs =
     do {
       p \<leftarrow> get_region rs i;
       if base < p_base p then
         do {
           rs \<leftarrow> put_region rs (i + 1) p;
           insert_down base sz i rs
         }
       else put_region rs (i + 1) \<lparr>p_base = base, p_size = sz\<rparr>
     }"

definition insert_region :: "lmb_region \<Rightarrow> u32w \<Rightarrow> u32w \<Rightarrow> lmb_region option" where
  "insert_region rgn base sz =
     do {
       rs \<leftarrow> insert_down base sz (unat (cnt rgn)) (region rgn);
       p0 \<leftarrow> get_region rs 0;
       rs \<leftarrow> (if base < p_base p0 then put_region rs 0 \<lparr>p_base = base, p_size = sz\<rparr> else Some rs);
       Some (rgn\<lparr>region := rs, cnt := cnt rgn + 1\<rparr>)
     }"

definition lmb_add_region :: "lmb_region \<Rightarrow> u32w \<Rightarrow> u32w \<Rightarrow> (int \<times> lmb_region) option" where
  "lmb_add_region rgn base sz =
     do {
       p0 \<leftarrow> get_region (region rgn) 0;
       if cnt rgn = 1 \<and> p_size p0 = 0 then
         do {
           rs \<leftarrow> put_region (region rgn) 0 \<lparr>p_base = base, p_size = sz\<rparr>;
           Some (0, rgn\<lparr>region := rs\<rparr>)
         }
       else
         do {
           s \<leftarrow> coalesce_scan rgn base sz 0 (unat (cnt rgn));
           case s of
             Already \<Rightarrow> Some (0, rgn)
           | Stopped rgn i coalesced \<Rightarrow>
               do {
                 adjacent \<leftarrow> (if i < unat (cnt rgn - 1) then lmb_regions_adjacent rgn i (i + 1) else Some 0);
                 (rgn, coalesced) \<leftarrow>
                   (if adjacent \<noteq> 0 then
                      do {
                        rgn \<leftarrow> lmb_coalesce_regions rgn i (i + 1);
                        Some (rgn, coalesced + 1)
                      }
                    else Some (rgn, coalesced));
                 if coalesced \<noteq> 0 then Some (int coalesced, rgn)
                 else if MAX_LMB_REGIONS \<le> unat (cnt rgn) then Some (- 1, rgn)
                 else
                   do {
                     rgn \<leftarrow> insert_region rgn base sz;
                     Some (0, rgn)
                   }
               }
         }
     }"

definition lmb_add :: "lmb \<Rightarrow> u32w \<Rightarrow> u32w \<Rightarrow> (int \<times> lmb) option" where
  "lmb_add l base sz =
     do {
       (r, rgn) \<leftarrow> lmb_add_region (memory l) base sz;
       Some (r, l\<lparr>memory := rgn\<rparr>)
     }"

definition lmb_reserve :: "lmb \<Rightarrow> u32w \<Rightarrow> u32w \<Rightarrow> (int \<times> lmb) option" where
  "lmb_reserve l base sz =
     do {
       (r, rgn) \<leftarrow> lmb_add_region (reserved l) base sz;
       Some (r, l\<lparr>reserved := rgn\<rparr>)
     }"

text \<open>\<^verbatim>\<open>lmb_free\<close>: the loop that finds the entry around the block gives its index, or \<open>None\<close> inside
  when the block is in no entry.\<close>

primrec free_scan :: "lmb_property list \<Rightarrow> u32w \<Rightarrow> u32w \<Rightarrow> nat \<Rightarrow> nat \<Rightarrow> nat option option" where
  "free_scan rs base end' i 0 = Some None"
| "free_scan rs base end' i (Suc n) =
     do {
       p \<leftarrow> get_region rs i;
       if p_base p \<le> base \<and> end' \<le> p_base p + p_size p then Some (Some i)
       else free_scan rs base end' (i + 1) n
     }"

definition lmb_free :: "lmb \<Rightarrow> u32w \<Rightarrow> u32w \<Rightarrow> (int \<times> lmb) option" where
  "lmb_free l base sz =
     (let rgn = reserved l; end' = base + sz
      in do {
        f \<leftarrow> free_scan (region rgn) base end' 0 (unat (cnt rgn));
        case f of
          None \<Rightarrow> Some (- 1, l)
        | Some i \<Rightarrow>
            do {
              p \<leftarrow> get_region (region rgn) i;
              let rgnbegin = p_base p;
              let rgnend = rgnbegin + p_size p;
              if rgnbegin = base \<and> rgnend = end' then
                do {
                  rgn \<leftarrow> lmb_remove_region rgn i;
                  Some (0, l\<lparr>reserved := rgn\<rparr>)
                }
              else if rgnbegin = base then
                do {
                  rs \<leftarrow> put_region (region rgn) i \<lparr>p_base = end', p_size = p_size p - sz\<rparr>;
                  Some (0, l\<lparr>reserved := rgn\<lparr>region := rs\<rparr>\<rparr>)
                }
              else if rgnend = end' then
                do {
                  rs \<leftarrow> put_region (region rgn) i (p\<lparr>p_size := p_size p - sz\<rparr>);
                  Some (0, l\<lparr>reserved := rgn\<lparr>region := rs\<rparr>\<rparr>)
                }
              else
                do {
                  rs \<leftarrow> put_region (region rgn) i (p\<lparr>p_size := base - p_base p\<rparr>);
                  (r, rgn) \<leftarrow> lmb_add_region (rgn\<lparr>region := rs\<rparr>) end' (rgnend - end');
                  Some (r, l\<lparr>reserved := rgn\<rparr>)
                }
            }
      })"

section \<open>Allocation\<close>

text \<open>\<^verbatim>\<open>lmb_overlaps_region\<close> gives the first overlapping entry; \<open>None\<close> inside stands for \<open>-1\<close>.\<close>

primrec overlap_scan :: "lmb_property list \<Rightarrow> u32w \<Rightarrow> u32w \<Rightarrow> nat \<Rightarrow> nat \<Rightarrow> nat option option" where
  "overlap_scan rs base sz i 0 = Some None"
| "overlap_scan rs base sz i (Suc n) =
     do {
       p \<leftarrow> get_region rs i;
       if lmb_addrs_overlap base sz (p_base p) (p_size p) then Some (Some i)
       else overlap_scan rs base sz (i + 1) n
     }"

definition lmb_overlaps_region :: "lmb_region \<Rightarrow> u32w \<Rightarrow> u32w \<Rightarrow> nat option option" where
  "lmb_overlaps_region rgn base sz = overlap_scan (region rgn) base sz 0 (unat (cnt rgn))"

definition lmb_align_down :: "u32w \<Rightarrow> u32w \<Rightarrow> u32w" where
  "lmb_align_down addr sz = addr AND NOT (sz - 1)"

definition lmb_align_up :: "u32w \<Rightarrow> u32w \<Rightarrow> u32w" where
  "lmb_align_up addr sz = (addr + (sz - 1)) AND NOT (sz - 1)"

lemma overlap_scan_Some:
  "overlap_scan rs base sz i n = Some (Some j) \<Longrightarrow>
   i \<le> j \<and> j < i + n \<and> j < length rs \<and> lmb_addrs_overlap base sz (p_base (rs ! j)) (p_size (rs ! j))"
  by (induction n arbitrary: i) (fastforce simp: get_region_def split: if_splits bind_splits)+

lemma align_down_le: "lmb_align_down addr sz \<le> addr"
  unfolding lmb_align_down_def by (rule word_and_le2)

lemma next_candidate_less:
  assumes "lmb_addrs_overlap base sz rb rs" "\<not> rb < sz"
  shows "lmb_align_down (rb - sz) align < base"
proof -
  have "rb - sz < base"
    using assms unfolding lmb_addrs_overlap_def
    by (simp add: word_less_def not_less word_le_def uint_sub_if' uint_plus_if' split: if_splits)
  then show ?thesis using align_down_le [of "rb - sz" align] by (rule order.strict_trans1 [rotated])
qed

text \<open>\<^verbatim>\<open>__lmb_alloc_base\<close>: the walk down through one memory block, from one reserved entry to the
  next, ends with the base found or without one.\<close>

function alloc_walk :: "lmb_region \<Rightarrow> u32w \<Rightarrow> u32w \<Rightarrow> u32w \<Rightarrow> u32w \<Rightarrow> u32w option option" where
  "alloc_walk rgn lmbbase sz align base =
     (if base \<noteq> 0 \<and> lmbbase \<le> base then
        (case lmb_overlaps_region rgn base sz of
           None \<Rightarrow> None
         | Some None \<Rightarrow> Some (Some base)
         | Some (Some j) \<Rightarrow>
             (let res_base = p_base (region rgn ! j)
              in if res_base < sz then Some None
                 else alloc_walk rgn lmbbase sz align (lmb_align_down (res_base - sz) align)))
      else Some None)"
  by pat_completeness auto

termination
proof (relation "measure (\<lambda>(rgn, lmbbase, sz, align, base). unat base)", goal_cases)
  case (2 rgn lmbbase sz align base f j res_base)
  then show ?case
    using overlap_scan_Some [of "region rgn" base sz 0 "unat (cnt rgn)" j] next_candidate_less
    by (auto simp: lmb_overlaps_region_def word_less_nat_alt)
qed simp

declare alloc_walk.simps [simp del]

definition alloc_start :: "lmb_property \<Rightarrow> u32w \<Rightarrow> u32w \<Rightarrow> u32w \<Rightarrow> u32w option" where
  "alloc_start p sz align max_addr =
     (if p_size p < sz then None
      else if max_addr = 0 then Some (lmb_align_down (p_base p + p_size p - sz) align)
      else if p_base p < max_addr
      then Some (lmb_align_down (min (p_base p + p_size p) max_addr - sz) align)
      else None)"

primrec alloc_scan :: "lmb \<Rightarrow> u32w \<Rightarrow> u32w \<Rightarrow> u32w \<Rightarrow> nat \<Rightarrow> (u32w \<times> lmb) option" where
  "alloc_scan l sz align max_addr 0 = Some (0, l)"
| "alloc_scan l sz align max_addr (Suc i) =
     do {
       p \<leftarrow> get_region (region (memory l)) i;
       case alloc_start p sz align max_addr of
         None \<Rightarrow> alloc_scan l sz align max_addr i
       | Some base \<Rightarrow>
           do {
             found \<leftarrow> alloc_walk (reserved l) (p_base p) sz align base;
             case found of
               None \<Rightarrow> alloc_scan l sz align max_addr i
             | Some base \<Rightarrow>
                 do {
                   (r, rgn) \<leftarrow> lmb_add_region (reserved l) base (lmb_align_up sz align);
                   Some (if r < 0 then 0 else base, l\<lparr>reserved := rgn\<rparr>)
                 }
           }
     }"

definition lmb_alloc_base :: "lmb \<Rightarrow> u32w \<Rightarrow> u32w \<Rightarrow> u32w \<Rightarrow> (u32w \<times> lmb) option" where
  "lmb_alloc_base l sz align max_addr = alloc_scan l sz align max_addr (unat (cnt (memory l)))"

definition lmb_alloc :: "lmb \<Rightarrow> u32w \<Rightarrow> u32w \<Rightarrow> (u32w \<times> lmb) option" where
  "lmb_alloc l sz align = lmb_alloc_base l sz align 0"

primrec reserved_scan :: "lmb_property list \<Rightarrow> u32w \<Rightarrow> nat \<Rightarrow> nat \<Rightarrow> bool option" where
  "reserved_scan rs addr i 0 = Some False"
| "reserved_scan rs addr i (Suc n) =
     do {
       p \<leftarrow> get_region rs i;
       let upper = p_base p + p_size p - 1;
       if p_base p \<le> addr \<and> addr \<le> upper then Some True else reserved_scan rs addr (i + 1) n
     }"

definition lmb_is_reserved :: "lmb \<Rightarrow> u32w \<Rightarrow> bool option" where
  "lmb_is_reserved l addr = reserved_scan (region (reserved l)) addr 0 (unat (cnt (reserved l)))"

section \<open>Tables as lists of blocks\<close>

definition entries :: "lmb_region \<Rightarrow> lmb_property list" where
  "entries rgn = take (unat (cnt rgn)) (region rgn)"

definition p_end :: "lmb_property \<Rightarrow> int" where
  "p_end p = uint (p_base p) + uint (p_size p)"

definition block :: "u32w \<Rightarrow> u32w \<Rightarrow> int set" where
  "block base sz = {uint base ..< uint base + uint sz}"

definition covered :: "lmb_property list \<Rightarrow> int set" where
  "covered ps = (\<Union>p\<in>set ps. block (p_base p) (p_size p))"

text \<open>The blocks are in order and neither touch nor overlap, and none is empty or ends at the top of
  the address space.\<close>

definition separated :: "lmb_property list \<Rightarrow> bool" where
  "separated ps \<longleftrightarrow>
     sorted_wrt (\<lambda>p q. p_end p < uint (p_base q)) ps \<and> (\<forall>p\<in>set ps. 0 < uint (p_size p) \<and> p_end p < 4294967296)"

definition table_shape :: "lmb_region \<Rightarrow> bool" where
  "table_shape rgn \<longleftrightarrow> length (region rgn) = MAX_LMB_REGIONS + 1 \<and> unat (cnt rgn) \<le> MAX_LMB_REGIONS"

definition table_ok :: "lmb_region \<Rightarrow> bool" where
  "table_ok rgn \<longleftrightarrow> table_shape rgn \<and> entries rgn \<noteq> [] \<and> separated (entries rgn)"

lemma covered_simps [simp]:
  "covered [] = {}" "covered (p # ps) = block (p_base p) (p_size p) \<union> covered ps" "covered (ps @ qs) = covered ps \<union> covered qs"
  by (auto simp: covered_def)

lemma separated_append:
  "separated (ps @ qs) \<longleftrightarrow> separated ps \<and> separated qs \<and> (\<forall>p\<in>set ps. \<forall>q\<in>set qs. p_end p < uint (p_base q))"
  by (auto simp: separated_def sorted_wrt_append)

lemma separated_Cons:
  "separated (p # ps) \<longleftrightarrow>
     0 < uint (p_size p) \<and> p_end p < 4294967296 \<and> (\<forall>q\<in>set ps. p_end p < uint (p_base q)) \<and> separated ps"
  by (auto simp: separated_def)

lemma separated_Nil [simp]: "separated []"
  by (simp add: separated_def)

lemma p_end_word: "p_end p < 4294967296 \<Longrightarrow> uint (p_base p + p_size p) = p_end p"
  by (simp add: p_end_def uint_plus_if')

lemma table_split:
  assumes "table_shape rgn"
  obtains z zs where "region rgn = entries rgn @ z # zs" "length (entries rgn) = unat (cnt rgn)"
    "length (entries rgn @ z # zs) = 9"
proof -
  have "drop (unat (cnt rgn)) (region rgn) \<noteq> []" using assms by (simp add: table_shape_def)
  then obtain z zs where "drop (unat (cnt rgn)) (region rgn) = z # zs" by (meson neq_Nil_conv)
  then have "region rgn = entries rgn @ z # zs" by (metis append_take_drop_id entries_def)
  then show thesis using that assms by (simp add: table_shape_def entries_def)
qed

lemma entriesI: "region rgn = ps @ zs \<Longrightarrow> unat (cnt rgn) = length ps \<Longrightarrow> entries rgn = ps"
  by (simp add: entries_def)

section \<open>The table operations on lists\<close>

lemma shift_down_list:
  "shift_down (length ys) (length xs) (xs @ p # ys @ zs) = Some (xs @ ys @ last (p # ys) # zs)"
proof (induction ys arbitrary: xs p)
  case (Cons q ys)
  from Cons [of "xs @ [q]" q] show ?case by (simp add: get_region_def put_region_def nth_append list_update_append)
qed simp

lemma remove_region_list:
  assumes "table_shape rgn" "entries rgn = xs @ p # ys"
  obtains rgn' where "lmb_remove_region rgn (length xs) = Some rgn'" "table_shape rgn'" "entries rgn' = xs @ ys"
proof -
  obtain z zs where r: "region rgn = xs @ p # ys @ z # zs" and n: "unat (cnt rgn) = length xs + Suc (length ys)"
    using table_split [OF assms(1)] assms(2) by (metis append.assoc append_Cons length_append length_Cons)
  have c: "unat (cnt rgn - 1) = length xs + length ys" using n by (simp add: unat_sub_if' unat_minus_one split: if_splits)
  have "lmb_remove_region rgn (length xs) =
      Some (rgn\<lparr>region := xs @ ys @ last (p # ys) # z # zs, cnt := cnt rgn - 1\<rparr>)" (is "_ = Some ?r")
    unfolding lmb_remove_region_def c r using shift_down_list [of ys xs p "z # zs"] by simp
  moreover have "table_shape ?r" "entries ?r = xs @ ys"
    using assms(1) r n c by (auto simp: table_shape_def entries_def)
  ultimately show thesis by (rule that)
qed

lemma coalesce_regions_list:
  assumes "table_shape rgn" "entries rgn = xs @ p # q # ys"
  obtains rgn' where "lmb_coalesce_regions rgn (length xs) (length xs + 1) = Some rgn'" "table_shape rgn'"
    "entries rgn' = xs @ p\<lparr>p_size := p_size p + p_size q\<rparr> # ys"
proof -
  obtain z zs where r: "region rgn = xs @ p # q # ys @ z # zs" and n: "unat (cnt rgn) = length xs + Suc (Suc (length ys))"
    using table_split [OF assms(1)] assms(2) by (metis append.assoc append_Cons length_append length_Cons)
  let ?p = "p\<lparr>p_size := p_size p + p_size q\<rparr>" and ?r = "rgn\<lparr>region := xs @ p\<lparr>p_size := p_size p + p_size q\<rparr> # q # ys @ z # zs\<rparr>"
  have "table_shape ?r" "entries ?r = (xs @ [?p]) @ q # ys"
    using assms(1) r n by (auto simp: table_shape_def entries_def)
  from remove_region_list [OF this] obtain rgn' where
    "lmb_remove_region ?r (length xs + 1) = Some rgn'" "table_shape rgn'" "entries rgn' = xs @ ?p # ys" by auto
  then show thesis using that by (simp add: lmb_coalesce_regions_def get_region_def put_region_def r nth_append list_update_append)
qed

abbreviation merge :: "u32w \<Rightarrow> u32w \<Rightarrow> lmb_property \<Rightarrow> lmb_property" where
  "merge base sz p \<equiv> (if 0 < lmb_addrs_adjacent base sz (p_base p) (p_size p)
     then \<lparr>p_base = p_base p - sz, p_size = p_size p + sz\<rparr> else p\<lparr>p_size := p_size p + sz\<rparr>)"

definition hit :: "u32w \<Rightarrow> u32w \<Rightarrow> lmb_property \<Rightarrow> bool" where
  "hit base sz p \<longleftrightarrow> p_base p = base \<and> p_size p = sz \<or> lmb_addrs_adjacent base sz (p_base p) (p_size p) \<noteq> 0"

lemma coalesce_scan_miss:
  "region rgn = pre @ xs @ zs \<Longrightarrow> \<forall>p\<in>set xs. \<not> hit base sz p \<Longrightarrow>
   coalesce_scan rgn base sz (length pre) (length xs + n) = coalesce_scan rgn base sz (length pre + length xs) n"
proof (induction xs arbitrary: pre)
  case (Cons p xs)
  from Cons.IH [of "pre @ [p]"] Cons.prems show ?case
    by (auto simp: get_region_def hit_def Let_def)
qed simp

lemma coalesce_scan_hit:
  assumes "region rgn = xs @ p # zs" "\<forall>p\<in>set xs. \<not> hit base sz p" "hit base sz p" "\<not> (p_base p = base \<and> p_size p = sz)"
  shows "coalesce_scan rgn base sz 0 (length xs + Suc n) =
    Some (Stopped (rgn\<lparr>region := xs @ merge base sz p # zs\<rparr>) (length xs) 1)"
  using coalesce_scan_miss [of rgn "[]" xs "p # zs" base sz "Suc n"] assms
  by (auto simp: get_region_def put_region_def nth_append list_update_append hit_def Let_def)

lemma insert_down_list:
  assumes "\<forall>q\<in>set ys. base < p_base q" "xs \<noteq> [] \<Longrightarrow> \<not> base < p_base (last xs)"
  shows "insert_down base sz (length xs + length ys) (xs @ ys @ z # zs) =
    Some (xs @ (if xs = [] then hd (ys @ [z]) else \<lparr>p_base = base, p_size = sz\<rparr>) # ys @ zs)"
  using assms(1)
proof (induction ys arbitrary: z zs rule: rev_induct)
  case Nil
  show ?case
  proof (cases xs rule: rev_cases)
    case (snoc xs' x)
    then show ?thesis using assms(2) by (simp add: get_region_def put_region_def nth_append list_update_append)
  qed simp
next
  case (snoc y ys)
  from snoc.IH [of y "y # zs"] snoc.prems show ?case
    by (cases ys) (simp_all add: get_region_def put_region_def nth_append list_update_append)
qed

lemma insert_region_list:
  assumes "table_shape rgn" "unat (cnt rgn) < MAX_LMB_REGIONS" "entries rgn = xs @ ys" "entries rgn \<noteq> []"
    and "\<forall>q\<in>set ys. base < p_base q" "\<forall>q\<in>set xs. \<not> base < p_base q"
  obtains rgn' where "insert_region rgn base sz = Some rgn'" "table_shape rgn'"
    "entries rgn' = xs @ \<lparr>p_base = base, p_size = sz\<rparr> # ys"
proof -
  let ?p = "\<lparr>p_base = base, p_size = sz\<rparr>"
  obtain z zs where r: "region rgn = xs @ ys @ z # zs" and n: "unat (cnt rgn) = length xs + length ys" "length xs + length ys + length zs = 8"
    using table_split [OF assms(1)] assms(3) by (metis append.assoc length_append add_Suc_right length_Cons nat.inject numeral_eq_Suc pred_numeral_simps(3) eval_nat_numeral(3))
  have c: "unat (cnt rgn + 1) = Suc (length xs + length ys)" using n(1) assms(2) by (simp add: unat_word_ariths unat_of_nat)
  have "insert_region rgn base sz = Some (rgn\<lparr>region := xs @ ?p # ys @ zs, cnt := cnt rgn + 1\<rparr>)" (is "_ = Some ?r")
  proof (cases xs)
    case Nil
    then obtain y ys' where "ys = y # ys'" using assms(3,4) by (cases ys) auto
    then show ?thesis
      using insert_down_list [OF assms(5), of "[]" sz z zs] r n(1) Nil assms(5)
      by (simp add: insert_region_def get_region_def put_region_def)
  next
    case (Cons x xs')
    then show ?thesis
      using insert_down_list [OF assms(5), of xs sz z zs] r n(1) assms(6)
      by (simp add: insert_region_def get_region_def put_region_def)
  qed
  moreover have "table_shape ?r" "entries ?r = xs @ ?p # ys"
    using assms(1,2) n c by (auto simp: table_shape_def entries_def)
  ultimately show thesis by (rule that)
qed

section \<open>Adding a block\<close>

lemma block_disjointD:
  assumes "block base sz \<inter> block (p_base p) (p_size p) = {}" "0 < uint sz" "0 < uint (p_size p)"
  shows "uint base + uint sz \<le> uint (p_base p) \<or> p_end p \<le> uint base"
proof (rule ccontr)
  assume "\<not> ?thesis"
  then have "max (uint base) (uint (p_base p)) \<in> block base sz \<inter> block (p_base p) (p_size p)"
    using assms(2,3) by (auto simp: block_def p_end_def)
  then show False using assms(1) by blast
qed

lemma not_hitD:
  assumes "\<not> hit base sz p" "p_end p < 4294967296" "uint base + uint sz < 4294967296"
  shows "uint base + uint sz \<noteq> uint (p_base p)" "p_end p \<noteq> uint base"
  using assms p_end_word [OF assms(2)] p_end_word [of "\<lparr>p_base = base, p_size = sz\<rparr>"]
  by (auto simp: hit_def lmb_addrs_adjacent_def p_end_def word_uint_eq_iff split: if_splits)

text \<open>No entry is a neighbour of the block: it is inserted in order.\<close>

lemma separated_insert:
  assumes "separated (xs @ ys)" "\<forall>p\<in>set (xs @ ys). \<not> hit base sz p" "0 < uint sz" "uint base + uint sz < 4294967296"
    and "block base sz \<inter> covered (xs @ ys) = {}" "\<forall>p\<in>set xs. p_base p \<le> base" "\<forall>p\<in>set ys. base < p_base p"
  shows "separated (xs @ \<lparr>p_base = base, p_size = sz\<rparr> # ys)"
proof -
  have side: "uint base + uint sz < uint (p_base p) \<or> p_end p < uint base" if "p \<in> set (xs @ ys)" for p
  proof -
    have p: "0 < uint (p_size p)" "p_end p < 4294967296" using assms(1) that by (auto simp: separated_def)
    have "block base sz \<inter> block (p_base p) (p_size p) = {}" using assms(5) that by (auto simp: covered_def)
    from block_disjointD [OF this assms(3) p(1)] not_hitD [OF _ p(2) assms(4)] assms(2) that show ?thesis by fastforce
  qed
  have "p_end p < uint base" if "p \<in> set xs" for p
    using side [of p] that assms(3,6) by (auto simp: word_le_def)
  moreover have "uint base + uint sz < uint (p_base p)" if "p \<in> set ys" for p
  proof -
    have "uint base < uint (p_base p)" using assms(7) that by (auto simp: word_less_def)
    then show ?thesis using side [of p] that uint_ge_0 [of "p_size p"] by (auto simp: p_end_def simp del: uint_ge_0)
  qed
  ultimately show ?thesis
    using assms(1,3,4) by (auto simp: separated_append separated_Cons p_end_def)
qed

text \<open>The block follows an entry, or comes right before one.\<close>

lemma merge_fields:
  assumes "hit base sz p" "\<not> (p_base p = base \<and> p_size p = sz)" "0 < uint sz" "uint base + uint sz < 4294967296"
    and "0 < uint (p_size p)" "p_end p < 4294967296"
  shows "uint (p_base p) = uint base + uint sz \<and> uint (p_base (merge base sz p)) = uint base \<and> p_end (merge base sz p) = p_end p \<or>
    uint base = p_end p \<and> uint (p_base (merge base sz p)) = uint (p_base p) \<and> p_end (merge base sz p) = uint base + uint sz"
proof -
  have ends: "uint (base + sz) = uint base + uint sz" "uint (p_base p + p_size p) = p_end p"
    using assms(4) p_end_word [OF assms(6)] by (simp_all add: uint_plus_if')
  consider (before) "lmb_addrs_adjacent base sz (p_base p) (p_size p) = 1" "uint (p_base p) = uint base + uint sz"
    | (after) "lmb_addrs_adjacent base sz (p_base p) (p_size p) = - 1" "uint base = p_end p"
    using assms(1,2) ends by (auto simp: hit_def lmb_addrs_adjacent_def split: if_splits)
  then show ?thesis
  proof cases
    case before
    then have "p_base p - sz = base" using ends(1) by (metis add_diff_cancel_right' word_uint_eq_iff)
    moreover have "uint (p_size p) + uint sz < 4294967296"
      using before(2) assms(6) uint_ge_0 [of base] unfolding p_end_def by linarith
    then have "uint (p_size p + sz) = uint (p_size p) + uint sz" by (simp add: uint_plus_if')
    ultimately show ?thesis using before by (simp add: p_end_def)
  next
    case after
    then have "uint (p_size p) + uint sz < 4294967296"
      using assms(4) uint_ge_0 [of "p_base p"] unfolding p_end_def by linarith
    then have "uint (p_size p + sz) = uint (p_size p) + uint sz" by (simp add: uint_plus_if')
    then show ?thesis using after by (simp add: p_end_def)
  qed
qed

lemma merge_neighbour:
  assumes "separated (xs @ p # ys)" "hit base sz p" "0 < uint sz" "uint base + uint sz < 4294967296"
    and "block base sz \<inter> covered (xs @ p # ys) = {}" "\<forall>p\<in>set xs. \<not> hit base sz p"
  shows "\<not> (p_base p = base \<and> p_size p = sz)"
    and "0 < uint (p_size (merge base sz p))" "p_end (merge base sz p) < 4294967296"
    and "block (p_base (merge base sz p)) (p_size (merge base sz p)) = block base sz \<union> block (p_base p) (p_size p)"
    and "\<forall>q\<in>set xs. p_end q < uint (p_base (merge base sz p))"
    and "\<forall>q\<in>set ys. p_end (merge base sz p) \<le> uint (p_base q)"
proof -
  have p: "0 < uint (p_size p)" "p_end p < 4294967296" using assms(1) by (auto simp: separated_def)
  have dis: "uint base + uint sz \<le> uint (p_base q) \<or> p_end q \<le> uint base" if "q \<in> set (xs @ p # ys)" for q
  proof (rule block_disjointD [OF _ assms(3)])
    show "0 < uint (p_size q)" using assms(1) that by (auto simp: separated_def)
    show "block base sz \<inter> block (p_base q) (p_size q) = {}" using assms(5) that by (auto simp: covered_def)
  qed
  show ne: "\<not> (p_base p = base \<and> p_size p = sz)" using dis [of p] assms(3) by (auto simp: p_end_def)
  note mf = merge_fields [OF assms(2) ne assms(3,4) p]
  define P where "P = merge base sz p"
  note mf = mf [folded P_def]
  show "0 < uint (p_size (merge base sz p))" "p_end (merge base sz p) < 4294967296"
    unfolding P_def [symmetric] using mf assms(3,4) p by (auto simp: p_end_def)
  have "{uint (p_base P) ..< p_end P} = {uint base ..< uint base + uint sz} \<union> {uint (p_base p) ..< p_end p}"
    using mf assms(3) p(1) unfolding p_end_def by (elim disjE) auto
  then show "block (p_base (merge base sz p)) (p_size (merge base sz p)) = block base sz \<union> block (p_base p) (p_size p)"
    unfolding P_def [symmetric] by (simp only: block_def p_end_def)
  show "\<forall>q\<in>set xs. p_end q < uint (p_base (merge base sz p))"
    unfolding P_def [symmetric]
  proof
    fix q assume q: "q \<in> set xs"
    have "0 < uint (p_size q)" "p_end q < 4294967296" "p_end q < uint (p_base p)"
      using assms(1) q by (auto simp: separated_def sorted_wrt_append)
    moreover have "p_end q \<noteq> uint base" using not_hitD(2) [of base sz q] calculation(2) assms(4,6) q by blast
    moreover have "uint base + uint sz \<le> uint (p_base q) \<or> p_end q \<le> uint base" using dis q by simp
    ultimately show "p_end q < uint (p_base P)" using mf p(1) assms(3) unfolding p_end_def by linarith
  qed
  show "\<forall>q\<in>set ys. p_end (merge base sz p) \<le> uint (p_base q)"
    unfolding P_def [symmetric]
  proof
    fix q assume q: "q \<in> set ys"
    then have "0 < uint (p_size q)" "uint base + uint sz \<le> uint (p_base q) \<or> p_end q \<le> uint base" "p_end p < uint (p_base q)"
      using assms(1) dis by (auto simp: separated_def sorted_wrt_append)
    then show "p_end P \<le> uint (p_base q)" using mf p(1) assms(3) unfolding p_end_def by linarith
  qed
qed

text \<open>The table after the first loop, and the test for a second neighbour.\<close>

lemma regions_adjacent_list:
  assumes "region rgn = xs @ p # q # zs"
  shows "lmb_regions_adjacent rgn (length xs) (length xs + 1) =
    Some (lmb_addrs_adjacent (p_base p) (p_size p) (p_base q) (p_size q))"
  using assms by (simp add: lmb_regions_adjacent_def get_region_def nth_append)

lemma adjacent_ordered:
  assumes "p_end p \<le> uint (p_base q)" "0 < uint (p_size p)" "0 < uint (p_size q)" "p_end q < 4294967296"
  shows "lmb_addrs_adjacent (p_base p) (p_size p) (p_base q) (p_size q) = (if p_end p = uint (p_base q) then 1 else 0)"
proof -
  have "p_end p < 4294967296" using assms uint_ge_0 [of "p_size q"] unfolding p_end_def by linarith
  from p_end_word [OF this] p_end_word [OF assms(4)] assms(1-3) show ?thesis
    unfolding lmb_addrs_adjacent_def word_uint_eq_iff by (simp add: p_end_def)
qed

lemma join_ordered:
  assumes "p_end p = uint (p_base q)" "0 < uint (p_size q)" "p_end q < 4294967296"
  shows "p_end (p\<lparr>p_size := p_size p + p_size q\<rparr>) = p_end q" "0 < uint (p_size p + p_size q)"
    and "block (p_base p) (p_size p + p_size q) = block (p_base p) (p_size p) \<union> block (p_base q) (p_size q)"
proof -
  have "uint (p_size p) + uint (p_size q) < 4294967296"
    using assms(1,3) uint_ge_0 [of "p_base p"] unfolding p_end_def by linarith
  then have s: "uint (p_size p + p_size q) = uint (p_size p) + uint (p_size q)" by (simp add: uint_plus_if')
  then show "p_end (p\<lparr>p_size := p_size p + p_size q\<rparr>) = p_end q" using assms(1) by (simp add: p_end_def)
  have "0 \<le> uint (p_size p)" by (rule uint_ge_0)
  then show "0 < uint (p_size p + p_size q)" unfolding s using assms(2) by linarith
  have "uint (p_base p) \<le> uint (p_base q)" "uint (p_base q) \<le> uint (p_base q) + uint (p_size q)"
    using assms(1,2) \<open>0 \<le> uint (p_size p)\<close> unfolding p_end_def by linarith+
  from ivl_disj_un_two(3) [OF this]
  show "block (p_base p) (p_size p + p_size q) = block (p_base p) (p_size p) \<union> block (p_base q) (p_size q)"
    using s assms(1) by (simp add: block_def p_end_def flip: add.assoc)
qed

lemma separated_above:
  "separated ps \<Longrightarrow> \<forall>p\<in>set (dropWhile (\<lambda>p. p_base p \<le> b) ps). b < p_base p"
proof (induction ps)
  case (Cons p ps)
  have "uint (p_base p) < uint (p_base q)" if "q \<in> set ps" for q
    using Cons.prems that uint_ge_0 [of "p_size p"] by (auto simp: separated_Cons p_end_def)
  then show ?case using Cons by (auto simp: separated_Cons not_le word_less_def intro: less_trans)
qed simp

lemma add_region_merge:
  assumes "table_ok rgn" "entries rgn = xs @ p # ys" "0 < uint sz" "uint base + uint sz < 4294967296"
    and "block base sz \<inter> covered (entries rgn) = {}" "hit base sz p" "\<forall>p\<in>set xs. \<not> hit base sz p"
  shows "\<exists>r rgn'. lmb_add_region rgn base sz = Some (r, rgn') \<and> 0 \<le> r \<and> table_ok rgn' \<and>
    covered (entries rgn') = covered (entries rgn) \<union> block base sz"
proof -
  let ?p = "merge base sz p"
  have shape: "table_shape rgn" and sep: "separated (xs @ p # ys)" using assms(1,2) by (auto simp: table_ok_def)
  note mn = merge_neighbour [OF sep assms(6,3,4) assms(5) [unfolded assms(2)] assms(7)]
  obtain z zs where r: "region rgn = xs @ p # ys @ z # zs" and n: "unat (cnt rgn) = length xs + Suc (length ys)"
    using table_split [OF shape] assms(2) by (metis append.assoc append_Cons length_append length_Cons)
  define rgn1 where "rgn1 = rgn\<lparr>region := xs @ ?p # ys @ z # zs\<rparr>"
  have r1: "table_shape rgn1" "entries rgn1 = xs @ ?p # ys"
    using shape r n by (auto simp: table_shape_def entries_def rgn1_def)
  have c: "unat (cnt rgn - 1) = length xs + length ys" using n by (simp add: unat_sub_if' unat_minus_one split: if_splits)
  have p0: "get_region (region rgn) 0 = Some (hd (xs @ [p]))" using r by (cases xs) (simp_all add: get_region_def)
  have "p_size (hd (xs @ [p])) \<noteq> 0" using sep by (cases xs) (auto simp: separated_def)
  then have step: "lmb_add_region rgn base sz =
    do {
      adjacent \<leftarrow> (if length xs < length xs + length ys then lmb_regions_adjacent rgn1 (length xs) (length xs + 1) else Some 0);
      if adjacent \<noteq> 0 then do { rgn \<leftarrow> lmb_coalesce_regions rgn1 (length xs) (length xs + 1); Some (2, rgn) }
      else Some (1, rgn1)
    }"
    using p0 coalesce_scan_hit [OF r assms(7,6) mn(1), of "length ys"] n c
    by (auto simp: lmb_add_region_def rgn1_def intro!: Option.bind_cong)
  note sp = mn(2,3)
  show ?thesis
  proof (cases ys)
    case Nil
    then show ?thesis using step r1 mn(4,5) sep sp assms(2)
      by (auto simp: table_ok_def separated_append separated_Cons)
  next
    case (Cons q ys')
    have q: "p_end ?p \<le> uint (p_base q)" "0 < uint (p_size q)" "p_end q < 4294967296" "\<forall>q'\<in>set ys'. p_end q < uint (p_base q')"
      using mn(6) sep Cons by (auto simp: separated_append separated_Cons)
    have adj: "lmb_regions_adjacent rgn1 (length xs) (length xs + 1) = Some (if p_end ?p = uint (p_base q) then 1 else 0)"
      using regions_adjacent_list [of rgn1 xs ?p q "ys' @ z # zs"] adjacent_ordered [OF q(1) sp(1) q(2,3)] Cons
      by (simp add: rgn1_def)
    show ?thesis
    proof (cases "p_end ?p = uint (p_base q)")
      case True
      let ?q = "?p\<lparr>p_size := p_size ?p + p_size q\<rparr>"
      obtain rgn' where rgn': "lmb_coalesce_regions rgn1 (length xs) (length xs + 1) = Some rgn'" "table_shape rgn'"
        "entries rgn' = xs @ ?q # ys'"
        using coalesce_regions_list [OF r1(1)] r1(2) Cons by blast
      note j = join_ordered [OF True q(2,3)]
      have "separated (xs @ ?q # ys')"
        using sep mn(5) j(1,2) q(3,4) Cons by (auto simp: separated_append separated_Cons)
      then show ?thesis using step adj True rgn' j(3) mn(4) assms(2) Cons by (auto simp: table_ok_def)
    next
      case False
      have "p_end ?p < uint (p_base q')" if "q' \<in> set ys'" for q'
        using q(1,2,4) that unfolding p_end_def by fastforce
      then have "separated (xs @ ?p # ys)"
        using sep mn(5,6) sp q False Cons by (auto simp: separated_append separated_Cons)
      then show ?thesis using step adj False r1 mn(4) assms(2) Cons by (auto simp: table_ok_def)
    qed
  qed
qed

lemma add_region_insert:
  assumes "table_ok rgn" "0 < uint sz" "uint base + uint sz < 4294967296"
    and "block base sz \<inter> covered (entries rgn) = {}" "\<forall>p\<in>set (entries rgn). \<not> hit base sz p"
  shows "\<exists>r rgn'. lmb_add_region rgn base sz = Some (r, rgn') \<and>
    (if length (entries rgn) = MAX_LMB_REGIONS then r = - 1 \<and> rgn' = rgn
     else r = 0 \<and> table_ok rgn' \<and> covered (entries rgn') = covered (entries rgn) \<union> block base sz)"
proof -
  have shape: "table_shape rgn" and sep: "separated (entries rgn)" and ne: "entries rgn \<noteq> []" using assms(1) by (auto simp: table_ok_def)
  obtain z zs where r: "region rgn = entries rgn @ z # zs" and n: "length (entries rgn) = unat (cnt rgn)"
    using table_split [OF shape] by blast
  have p0: "get_region (region rgn) 0 = Some (hd (entries rgn))"
    using r ne by (cases "entries rgn") (simp_all add: get_region_def)
  have "p_size (hd (entries rgn)) \<noteq> 0" using sep ne by (cases "entries rgn") (auto simp: separated_def)
  moreover have "cnt rgn \<noteq> 0" using n ne by auto
  then have "\<not> unat (cnt rgn) < unat (cnt rgn - 1)" by (simp add: unat_minus_one)
  ultimately have step: "lmb_add_region rgn base sz =
      (if MAX_LMB_REGIONS \<le> unat (cnt rgn) then Some (- 1, rgn) else do { rgn \<leftarrow> insert_region rgn base sz; Some (0, rgn) })"
    using p0 coalesce_scan_miss [of rgn "[]" "entries rgn" "z # zs" base sz 0] r assms(5) n
    by (auto simp: lmb_add_region_def)
  show ?thesis
  proof (cases "length (entries rgn) = MAX_LMB_REGIONS")
    case False
    define xs ys where "xs = takeWhile (\<lambda>p. p_base p \<le> base) (entries rgn)" and "ys = dropWhile (\<lambda>p. p_base p \<le> base) (entries rgn)"
    have e: "entries rgn = xs @ ys" by (simp add: xs_def ys_def)
    have x: "\<forall>p\<in>set xs. p_base p \<le> base" by (auto simp: xs_def dest: set_takeWhileD)
    have y: "\<forall>p\<in>set ys. base < p_base p" using separated_above [OF sep] by (auto simp: ys_def)
    obtain rgn' where "insert_region rgn base sz = Some rgn'" "table_shape rgn'" "entries rgn' = xs @ \<lparr>p_base = base, p_size = sz\<rparr> # ys"
      using insert_region_list [OF shape _ e ne y, of sz] False n x shape by (auto simp: table_shape_def not_less)
    moreover have "separated (xs @ \<lparr>p_base = base, p_size = sz\<rparr> # ys)"
      using separated_insert [of xs ys base sz] sep assms(2-5) x y unfolding e by blast
    ultimately show ?thesis using step False n shape e by (auto simp: table_ok_def table_shape_def)
  qed (use step n in auto)
qed

text \<open>A table is in order when its blocks are separated, or when it holds only the dummy entry.\<close>

definition table_inv :: "lmb_region \<Rightarrow> bool" where
  "table_inv rgn \<longleftrightarrow> table_ok rgn \<or> table_shape rgn \<and> entries rgn = [\<lparr>p_base = 0, p_size = 0\<rparr>]"

definition fits :: "u32w \<Rightarrow> u32w \<Rightarrow> bool" where
  "fits base sz \<longleftrightarrow> 0 < uint sz \<and> uint base + uint sz < 4294967296"

lemma block_0 [simp]: "block base 0 = {}"
  by (simp add: block_def)

lemma add_region_dummy:
  assumes "table_shape rgn" "entries rgn = [p]" "p_size p = 0" "fits base sz"
  shows "\<exists>rgn'. lmb_add_region rgn base sz = Some (0, rgn') \<and> table_ok rgn' \<and> covered (entries rgn') = block base sz"
proof -
  obtain z zs where "region rgn = entries rgn @ z # zs" "length (entries rgn) = unat (cnt rgn)"
    using table_split [OF assms(1)] by blast
  then have r: "region rgn = p # z # zs" and n: "unat (cnt rgn) = 1" using assms(2) by simp_all
  have "cnt rgn = 1" using n by (metis unat_1 word_unat_eq_iff)
  then show ?thesis using r n assms
    by (auto simp: lmb_add_region_def get_region_def put_region_def table_ok_def table_shape_def entries_def
        separated_Cons fits_def p_end_def)
qed

lemma add_region_exact:
  assumes "table_inv rgn" "fits base sz" "block base sz \<inter> covered (entries rgn) = {}"
  shows "\<exists>r rgn'. lmb_add_region rgn base sz = Some (r, rgn') \<and> table_inv rgn' \<and>
    (if r < 0 then r = - 1 \<and> rgn' = rgn \<and> length (entries rgn) = MAX_LMB_REGIONS \<and> (\<forall>p\<in>set (entries rgn). \<not> hit base sz p)
     else covered (entries rgn') = covered (entries rgn) \<union> block base sz)"
proof (cases "table_ok rgn")
  case True
  have s: "0 < uint sz" "uint base + uint sz < 4294967296" using assms(2) by (auto simp: fits_def)
  show ?thesis
  proof (cases "\<exists>p\<in>set (entries rgn). hit base sz p")
    case False
    then show ?thesis using add_region_insert [OF True s assms(3)] True
      by (cases "length (entries rgn) = MAX_LMB_REGIONS") (auto simp: table_inv_def)
  next
    case hit: True
    then obtain xs p ys where "entries rgn = xs @ p # ys" "hit base sz p" "\<forall>p\<in>set xs. \<not> hit base sz p"
      using split_list_first_prop [of "entries rgn" "hit base sz"] by blast
    from add_region_merge [OF True this(1) s assms(3) this(2,3)] obtain r rgn' where
      "lmb_add_region rgn base sz = Some (r, rgn')" "0 \<le> r" "table_ok rgn'" "covered (entries rgn') = covered (entries rgn) \<union> block base sz"
      by blast
    then show ?thesis by (intro exI [of _ r] exI [of _ rgn']) (simp add: table_inv_def)
  qed
next
  case False
  then obtain p where p: "table_shape rgn" "entries rgn = [p]" "p_size p = 0" using assms(1) by (auto simp: table_inv_def)
  from add_region_dummy [OF this assms(2)] obtain rgn' where
    "lmb_add_region rgn base sz = Some (0, rgn')" "table_ok rgn'" "covered (entries rgn') = block base sz" by blast
  then show ?thesis using p by (intro exI [of _ 0] exI [of _ rgn']) (simp add: table_inv_def)
qed


section \<open>Freeing a block\<close>

lemma free_scan_miss:
  "rs = pre @ xs @ zs \<Longrightarrow> \<forall>p\<in>set xs. \<not> (p_base p \<le> base \<and> end' \<le> p_base p + p_size p) \<Longrightarrow>
   free_scan rs base end' (length pre) (length xs + n) = free_scan rs base end' (length pre + length xs) n"
proof (induction xs arbitrary: pre)
  case (Cons p xs)
  from Cons.IH [of "pre @ [p]"] Cons.prems show ?case by (auto simp: get_region_def)
qed simp

text \<open>The entry around the block is the only one.\<close>

lemma around_unique:
  assumes "separated (xs @ p # ys)" "0 < uint sz" "uint (p_base p) \<le> uint base" "uint base + uint sz \<le> p_end p" "q \<in> set xs \<union> set ys"
  shows "\<not> (uint (p_base q) \<le> uint base \<and> uint base + uint sz \<le> p_end q)"
    and "block base sz \<inter> block (p_base q) (p_size q) = {}"
proof -
  have "p_end q < uint (p_base p) \<or> p_end p < uint (p_base q)"
    using assms(1,5) by (auto simp: separated_append separated_Cons)
  then show "\<not> (uint (p_base q) \<le> uint base \<and> uint base + uint sz \<le> p_end q)"
    and "block base sz \<inter> block (p_base q) (p_size q) = {}"
    using assms(2-4) by (auto simp: block_def p_end_def)
qed

lemma free_scan_found:
  assumes "table_shape rgn" "separated (entries rgn)" "entries rgn = xs @ p # ys" "fits base sz"
    and "uint (p_base p) \<le> uint base" "uint base + uint sz \<le> p_end p"
  shows "free_scan (region rgn) base (base + sz) 0 (unat (cnt rgn)) = Some (Some (length xs))"
    and "get_region (region rgn) (length xs) = Some p"
proof -
  obtain z zs where r: "region rgn = xs @ p # ys @ z # zs" and n: "unat (cnt rgn) = length xs + Suc (length ys)"
    using table_split [OF assms(1)] assms(3) by (metis append.assoc append_Cons length_append length_Cons)
  have ends: "uint (base + sz) = uint base + uint sz" using assms(4) by (simp add: fits_def uint_plus_if')
  have pe: "uint (p_base q + p_size q) = p_end q" if "q \<in> set (xs @ p # ys)" for q
    using assms(2,3) that by (auto intro!: p_end_word simp: separated_def)
  have "\<forall>q\<in>set xs. \<not> (p_base q \<le> base \<and> base + sz \<le> p_base q + p_size q)"
    using around_unique(1) [of xs p ys sz base] assms(2-6) pe ends by (auto simp: word_le_def fits_def)
  from free_scan_miss [OF _ this, of "region rgn" "[]" "p # ys @ z # zs" "Suc (length ys)"]
  show "free_scan (region rgn) base (base + sz) 0 (unat (cnt rgn)) = Some (Some (length xs))"
    using r n assms(5,6) pe [of p] ends by (simp add: get_region_def word_le_def)
  show "get_region (region rgn) (length xs) = Some p" using r by (simp add: get_region_def)
qed

lemma put_region_list:
  assumes "table_shape rgn" "entries rgn = xs @ p # ys"
  obtains rs where "put_region (region rgn) (length xs) p' = Some rs" "table_shape (rgn\<lparr>region := rs\<rparr>)"
    "entries (rgn\<lparr>region := rs\<rparr>) = xs @ p' # ys"
proof -
  obtain z zs where "region rgn = xs @ p # ys @ z # zs" "unat (cnt rgn) = length xs + Suc (length ys)"
    using table_split [OF assms(1)] assms(2) by (metis append.assoc append_Cons length_append length_Cons)
  then show thesis using assms(1)
    by (intro that [of "xs @ p' # ys @ z # zs"]) (auto simp: put_region_def table_shape_def entries_def)
qed

text \<open>What is left of the entry around the block: nothing, its end, its start, or both.\<close>

lemma free_remaining:
  assumes "separated (xs @ p # ys)" "B \<subseteq> block (p_base p) (p_size p)"
  shows "covered (xs @ p # ys) - B = covered xs \<union> (block (p_base p) (p_size p) - B) \<union> covered ys"
proof -
  have "block (p_base p) (p_size p) \<inter> block (p_base q) (p_size q) = {}" if "q \<in> set (xs @ ys)" for q
    using assms(1) that by (auto simp: separated_append separated_Cons block_def p_end_def)
  then have "block (p_base p) (p_size p) \<inter> covered (xs @ ys) = {}" unfolding covered_def by blast
  then show ?thesis using assms(2) by auto
qed

lemma far_not_hit:
  assumes "p_end q < uint base \<or> uint base + uint sz < uint (p_base q)" "p_end q < 4294967296" "uint base + uint sz < 4294967296" "0 < uint sz"
    and "0 < uint (p_size q)"
  shows "\<not> hit base sz q" "block base sz \<inter> block (p_base q) (p_size q) = {}"
  using assms p_end_word [OF assms(2)]
  by (auto simp: hit_def lmb_addrs_adjacent_def word_uint_eq_iff uint_plus_if' p_end_def block_def)

lemma free_split:
  assumes "table_ok rgn" "entries rgn = xs @ p # ys" "fits base sz" "uint (p_base p) < uint base" "uint base + uint sz < p_end p"
    and "rgn1 = rgn\<lparr>region := rs\<rparr>" "table_shape rgn1" "entries rgn1 = xs @ p\<lparr>p_size := base - p_base p\<rparr> # ys"
  shows "\<exists>r rgn'. lmb_add_region rgn1 (base + sz) (p_base p + p_size p - (base + sz)) = Some (r, rgn') \<and>
    (if length (entries rgn) = MAX_LMB_REGIONS
     then r = - 1 \<and> covered (entries rgn') = covered (entries rgn) - {uint base ..< p_end p}
     else r = 0 \<and> covered (entries rgn') = covered (entries rgn) - block base sz) \<and> table_ok rgn'"
proof -
  let ?p = "p\<lparr>p_size := base - p_base p\<rparr>" and ?b = "base + sz" and ?s = "p_base p + p_size p - (base + sz)"
  have sep: "separated (xs @ p # ys)" using assms(1,2) by (simp add: table_ok_def)
  then have pe: "p_end p < 4294967296" "0 < uint (p_size p)" by (auto simp: separated_def)
  have b: "uint ?b = uint base + uint sz" using assms(3) by (simp add: fits_def uint_plus_if')
  have s: "uint ?s = p_end p - (uint base + uint sz)"
    using assms(5) by (simp only: uint_sub_if' b p_end_word [OF pe(1)]) simp
  have e: "p_end ?p = uint base" using assms(4) by (simp add: p_end_def uint_sub_if')
  have sz': "0 < uint sz" using assms(3) by (simp add: fits_def)
  have ok1: "table_ok rgn1"
    using assms(4,7,8) sep e pe(1) sz' assms(5)
    by (auto simp: table_ok_def separated_append separated_Cons uint_sub_if')
  have blk: "block ?b ?s = {uint base + uint sz ..< p_end p}" "block (p_base ?p) (p_size ?p) = {uint (p_base p) ..< uint base}"
    using s b e by (simp_all add: block_def p_end_def)
  have far: "\<not> hit ?b ?s q \<and> block ?b ?s \<inter> block (p_base q) (p_size q) = {}" if "q \<in> set (xs @ ?p # ys)" for q
  proof -
    have "p_end q < uint ?b \<or> uint ?b + uint ?s < uint (p_base q)"
      using that sep s b e assms(4,5) sz' by (auto simp: separated_append separated_Cons)
    moreover have "p_end q < 4294967296" "0 < uint (p_size q)"
      using that ok1 assms(8) by (auto simp: table_ok_def separated_def)
    ultimately show ?thesis using far_not_hit [of q ?b ?s] s b assms(5) pe(1) by auto
  qed
  then have "block ?b ?s \<inter> covered (entries rgn1) = {}" "\<forall>q\<in>set (entries rgn1). \<not> hit ?b ?s q"
    unfolding assms(8) covered_def by blast+
  from add_region_insert [OF ok1 _ _ this]
  obtain r rgn' where add: "lmb_add_region rgn1 ?b ?s = Some (r, rgn')"
    "if length (entries rgn1) = MAX_LMB_REGIONS then r = - 1 \<and> rgn' = rgn1
     else r = 0 \<and> table_ok rgn' \<and> covered (entries rgn') = covered (entries rgn1) \<union> block ?b ?s"
    using s b assms(5) pe(1) by auto
  have "block (p_base p) (p_size p) - {uint base ..< p_end p} = block (p_base ?p) (p_size ?p)"
    "block (p_base p) (p_size p) - block base sz = block (p_base ?p) (p_size ?p) \<union> block ?b ?s"
    "block base sz \<subseteq> {uint base ..< p_end p}" "{uint base ..< p_end p} \<subseteq> block (p_base p) (p_size p)"
    unfolding blk using assms(4,5) sz' by (auto simp: block_def p_end_def)
  with free_remaining [OF sep, of "{uint base ..< p_end p}"] free_remaining [OF sep, of "block base sz"]
  have "covered (entries rgn) - {uint base ..< p_end p} = covered (entries rgn1)"
    "covered (entries rgn) - block base sz = covered (entries rgn1) \<union> block ?b ?s"
    unfolding assms(2,8) by auto
  then show ?thesis using add ok1 assms(2,8) by auto
qed
lemma keep_end:
  assumes "separated (xs @ p # ys)" "fits base sz" "uint (p_base p) = uint base" "uint base + uint sz < p_end p"
  shows "separated (xs @ \<lparr>p_base = base + sz, p_size = p_size p - sz\<rparr> # ys)"
    and "block (p_base p) (p_size p) - block base sz = block (base + sz) (p_size p - sz)"
proof -
  have s: "uint (p_size p - sz) = uint (p_size p) - uint sz" "uint (base + sz) = uint base + uint sz" "0 < uint sz"
    using assms(2-4) by (simp_all add: uint_sub_if' uint_plus_if' p_end_def fits_def)
  then show "separated (xs @ \<lparr>p_base = base + sz, p_size = p_size p - sz\<rparr> # ys)"
    using assms(1,3,4) by (fastforce simp: separated_append separated_Cons p_end_def)
  show "block (p_base p) (p_size p) - block base sz = block (base + sz) (p_size p - sz)"
    using assms(3,4) s by (auto simp: block_def p_end_def)
qed

lemma keep_start:
  assumes "separated (xs @ p # ys)" "fits base sz" "uint (p_base p) < uint base" "p_end p = uint base + uint sz"
  shows "separated (xs @ p\<lparr>p_size := p_size p - sz\<rparr> # ys)"
    and "block (p_base p) (p_size p) - block base sz = block (p_base p) (p_size p - sz)"
proof -
  have s: "uint (p_size p - sz) = uint (p_size p) - uint sz" "0 < uint sz"
    using assms(2-4) by (simp_all add: uint_sub_if' p_end_def fits_def)
  then show "separated (xs @ p\<lparr>p_size := p_size p - sz\<rparr> # ys)"
    using assms(1,3,4) by (fastforce simp: separated_append separated_Cons p_end_def)
  show "block (p_base p) (p_size p) - block base sz = block (p_base p) (p_size p - sz)"
    using assms(3,4) s by (auto simp: block_def p_end_def)
qed

lemma free_exact:
  assumes "table_ok (reserved l)" "entries (reserved l) = xs @ p # ys" "fits base sz"
    and "uint (p_base p) \<le> uint base" "uint base + uint sz \<le> p_end p"
  shows "\<exists>r rgn'. lmb_free l base sz = Some (r, l\<lparr>reserved := rgn'\<rparr>) \<and>
    (if uint (p_base p) < uint base \<and> uint base + uint sz < p_end p \<and> length (entries (reserved l)) = MAX_LMB_REGIONS
     then r = - 1 \<and> covered (entries rgn') = covered (entries (reserved l)) - {uint base ..< p_end p}
     else r = 0 \<and> covered (entries rgn') = covered (entries (reserved l)) - block base sz) \<and>
    (entries rgn' \<noteq> [] \<longrightarrow> table_ok rgn')"
proof -
  let ?R = "reserved l"
  have shape: "table_shape ?R" and sep: "separated (xs @ p # ys)" using assms(1,2) by (auto simp: table_ok_def)
  have pe: "p_end p < 4294967296" using sep by (auto simp: separated_def)
  have sz': "0 < uint sz" using assms(3) by (simp add: fits_def)
  have ends: "uint (base + sz) = uint base + uint sz" "uint (p_base p + p_size p) = p_end p"
    using assms(3) p_end_word [OF pe] by (simp_all add: fits_def uint_plus_if')
  note scan = free_scan_found [OF shape _ assms(2,3,4,5), unfolded assms(2), OF sep]
  have rest: "covered (entries ?R) - block base sz = covered xs \<union> (block (p_base p) (p_size p) - block base sz) \<union> covered ys"
    unfolding assms(2) using assms(4,5) by (intro free_remaining [OF sep]) (auto simp: block_def p_end_def)
  have trim: ?thesis
    if "separated (xs @ p' # ys)" "block (p_base p) (p_size p) - block base sz = block (p_base p') (p_size p')"
      "\<And>rs. put_region (region ?R) (length xs) p' = Some rs \<Longrightarrow> lmb_free l base sz = Some (0, l\<lparr>reserved := ?R\<lparr>region := rs\<rparr>\<rparr>)"
      "\<not> (uint (p_base p) < uint base \<and> uint base + uint sz < p_end p)" for p'
  proof -
    obtain rs where "put_region (region ?R) (length xs) p' = Some rs" "table_shape (?R\<lparr>region := rs\<rparr>)"
      "entries (?R\<lparr>region := rs\<rparr>) = xs @ p' # ys" using put_region_list [OF shape assms(2)] by blast
    then show ?thesis using that rest
      by (intro exI [of _ 0] exI [of _ "?R\<lparr>region := rs\<rparr>"]) (auto simp: table_ok_def)
  qed
  consider (whole) "uint (p_base p) = uint base" "p_end p = uint base + uint sz"
    | (front) "uint (p_base p) = uint base" "uint base + uint sz < p_end p"
    | (rear) "uint (p_base p) < uint base" "p_end p = uint base + uint sz"
    | (inner) "uint (p_base p) < uint base" "uint base + uint sz < p_end p"
    using assms(4,5) by linarith
  then show ?thesis
  proof cases
    case whole
    obtain rgn' where rgn': "lmb_remove_region ?R (length xs) = Some rgn'" "table_shape rgn'" "entries rgn' = xs @ ys"
      using remove_region_list [OF shape assms(2)] by blast
    have "p_base p = base" "p_base p + p_size p = base + sz" using whole ends by (simp_all add: word_uint_eq_iff)
    moreover have "block (p_base p) (p_size p) - block base sz = {}" using whole by (auto simp: block_def p_end_def)
    moreover have "separated (xs @ ys)" using sep by (auto simp: separated_append separated_Cons)
    ultimately show ?thesis using rgn' scan rest whole by (auto simp: lmb_free_def Let_def table_ok_def)
  next
    case front
    have ne: "p_base p = base" "p_base p + p_size p \<noteq> base + sz" using front ends by (simp_all add: word_uint_eq_iff)
    show ?thesis
      using keep_end [OF sep assms(3) front] scan ne front
      by (intro trim [of "\<lparr>p_base = base + sz, p_size = p_size p - sz\<rparr>"]) (auto simp: lmb_free_def Let_def)
  next
    case rear
    have ne: "p_base p \<noteq> base" "p_base p + p_size p = base + sz" using rear ends by (auto simp: word_uint_eq_iff)
    show ?thesis
      using keep_start [OF sep assms(3) rear] scan ne rear
      by (intro trim [of "p\<lparr>p_size := p_size p - sz\<rparr>"]) (auto simp: lmb_free_def Let_def)
  next
    case inner
    let ?p = "p\<lparr>p_size := base - p_base p\<rparr>"
    have ne: "p_base p \<noteq> base" "p_base p + p_size p \<noteq> base + sz" using inner ends by (auto simp: word_uint_eq_iff)
    obtain rs where rs: "put_region (region ?R) (length xs) ?p = Some rs" "table_shape (?R\<lparr>region := rs\<rparr>)"
      "entries (?R\<lparr>region := rs\<rparr>) = xs @ ?p # ys" using put_region_list [OF shape assms(2)] by blast
    from free_split [OF assms(1-3) inner refl rs(2,3)] obtain r rgn' where
      "lmb_add_region (?R\<lparr>region := rs\<rparr>) (base + sz) (p_base p + p_size p - (base + sz)) = Some (r, rgn')"
      "if length (entries ?R) = MAX_LMB_REGIONS
       then r = - 1 \<and> covered (entries rgn') = covered (entries ?R) - {uint base ..< p_end p}
       else r = 0 \<and> covered (entries rgn') = covered (entries ?R) - block base sz" "table_ok rgn'"
      by blast
    then show ?thesis using rs(1) scan ne inner
      by (intro exI [of _ r] exI [of _ rgn']) (simp add: lmb_free_def Let_def)
  qed
qed

lemma free_unknown:
  assumes "table_inv (reserved l)" "fits base sz"
    and "\<forall>p\<in>set (entries (reserved l)). \<not> (uint (p_base p) \<le> uint base \<and> uint base + uint sz \<le> p_end p)"
  shows "lmb_free l base sz = Some (- 1, l)"
proof -
  have shape: "table_shape (reserved l)" using assms(1) by (auto simp: table_inv_def table_ok_def)
  obtain z zs where r: "region (reserved l) = entries (reserved l) @ z # zs" and n: "length (entries (reserved l)) = unat (cnt (reserved l))"
    using table_split [OF shape] by blast
  have ends: "uint (base + sz) = uint base + uint sz" using assms(2) by (simp add: fits_def uint_plus_if')
  have "p_end p < 4294967296" if "p \<in> set (entries (reserved l))" for p
    using assms(1) that uint_lt2p [of "p_base p"] by (auto simp: table_inv_def table_ok_def separated_def p_end_def)
  then have "\<forall>p\<in>set (entries (reserved l)). \<not> (p_base p \<le> base \<and> base + sz \<le> p_base p + p_size p)"
    using assms(3) by (simp add: word_le_def ends p_end_word)
  from free_scan_miss [OF _ this, of "region (reserved l)" "[]" "z # zs" 0] show ?thesis
    using r n by (simp add: lmb_free_def Let_def)
qed
section \<open>Allocating a block\<close>

lemma align_down_value: "uint (lmb_align_down x (2 ^ k)) = uint x div 2 ^ k * 2 ^ k"
  by (simp add: lmb_align_down_def uint_and_not_mask flip: mask_eq_exp_minus_1)

lemma align_down_greatest:
  "2 ^ k dvd uint b \<Longrightarrow> uint b \<le> uint x \<Longrightarrow> uint b \<le> uint (lmb_align_down x (2 ^ k))"
  unfolding align_down_value by (metis dvd_div_mult_self mult_right_mono zdiv_mono1 zero_le_numeral zero_le_power zero_less_numeral zero_less_power)

text \<open>A base at which the block is aligned and free of reserved memory.\<close>

definition free_at :: "lmb_region \<Rightarrow> u32w \<Rightarrow> nat \<Rightarrow> u32w \<Rightarrow> bool" where
  "free_at rgn sz k b \<longleftrightarrow> b \<noteq> 0 \<and> 2 ^ k dvd uint b \<and> block b sz \<inter> covered (entries rgn) = {}"

lemma overlap_iff:
  assumes "fits b sz" "p_end p < 4294967296" "0 < uint (p_size p)"
  shows "lmb_addrs_overlap b sz (p_base p) (p_size p) \<longleftrightarrow> block b sz \<inter> block (p_base p) (p_size p) \<noteq> {}"
proof -
  have "lmb_addrs_overlap b sz (p_base p) (p_size p) \<longleftrightarrow> uint b < p_end p \<and> uint (p_base p) < uint b + uint sz"
    using assms(1) p_end_word [OF assms(2)] by (simp add: lmb_addrs_overlap_def word_less_def fits_def uint_plus_if')
  also have "\<dots> \<longleftrightarrow> block b sz \<inter> block (p_base p) (p_size p) \<noteq> {}"
    using assms(1,3) block_disjointD [of b sz p] by (auto simp: fits_def block_def p_end_def)
  finally show ?thesis .
qed

lemma overlap_scan_None:
  assumes "rs = pre @ ps @ zs"
  shows "overlap_scan rs b sz (length pre) (length ps) \<noteq> None \<and>
    (overlap_scan rs b sz (length pre) (length ps) = Some None \<longleftrightarrow> (\<forall>p\<in>set ps. \<not> lmb_addrs_overlap b sz (p_base p) (p_size p)))"
  using assms
proof (induction ps arbitrary: pre)
  case (Cons p ps)
  from Cons.IH [of "pre @ [p]"] Cons.prems show ?case by (simp add: get_region_def)
qed simp

lemma overlaps_region:
  assumes "table_inv rgn" "fits b sz"
  shows "lmb_overlaps_region rgn b sz \<noteq> None"
    and "lmb_overlaps_region rgn b sz = Some None \<longleftrightarrow> block b sz \<inter> covered (entries rgn) = {}"
    and "lmb_overlaps_region rgn b sz = Some (Some j) \<Longrightarrow>
      \<exists>p\<in>set (entries rgn). p = region rgn ! j \<and> 0 < uint (p_size p) \<and> p_end p < 4294967296 \<and>
        lmb_addrs_overlap b sz (p_base p) (p_size p)"
proof -
  have shape: "table_shape rgn" using assms(1) by (auto simp: table_inv_def table_ok_def)
  obtain z zs where r: "region rgn = [] @ entries rgn @ z # zs" and n: "unat (cnt rgn) = length (entries rgn)"
    using table_split [OF shape] by (metis append_Nil)
  note scan = overlap_scan_None [OF r, of b sz, THEN conjunct2, unfolded list.size, folded n]
    overlap_scan_None [OF r, of b sz, THEN conjunct1, unfolded list.size, folded n]
  show "lmb_overlaps_region rgn b sz \<noteq> None" using scan(2) by (simp add: lmb_overlaps_region_def)
  have one: "lmb_addrs_overlap b sz (p_base p) (p_size p) \<longleftrightarrow> block b sz \<inter> block (p_base p) (p_size p) \<noteq> {}"
    "lmb_addrs_overlap b sz (p_base p) (p_size p) \<Longrightarrow> 0 < uint (p_size p) \<and> p_end p < 4294967296" if "p \<in> set (entries rgn)" for p
    using assms that overlap_iff [OF assms(2), of p]
    by (auto simp: table_inv_def table_ok_def separated_def lmb_addrs_overlap_def)
  show "lmb_overlaps_region rgn b sz = Some None \<longleftrightarrow> block b sz \<inter> covered (entries rgn) = {}"
    using scan(1) one(1) by (auto simp: lmb_overlaps_region_def covered_def)
  assume "lmb_overlaps_region rgn b sz = Some (Some j)"
  from overlap_scan_Some [OF this [unfolded lmb_overlaps_region_def]] have
    j: "j < length (entries rgn)" "lmb_addrs_overlap b sz (p_base (region rgn ! j)) (p_size (region rgn ! j))"
    using n by auto
  then have "region rgn ! j \<in> set (entries rgn)" using r by (metis append_Nil nth_append nth_mem)
  then show "\<exists>p\<in>set (entries rgn). p = region rgn ! j \<and> 0 < uint (p_size p) \<and> p_end p < 4294967296 \<and>
      lmb_addrs_overlap b sz (p_base p) (p_size p)"
    using j(2) one(2) by blast
qed

text \<open>Between the base tried and the next one there is no free base.\<close>

lemma next_candidate:
  assumes "lmb_addrs_overlap base sz (p_base p) (p_size p)" "0 < uint (p_size p)" "p_end p < 4294967296" "p \<in> set (entries rgn)"
    and "fits base sz" "free_at rgn sz k b" "uint b \<le> uint base"
  shows "\<not> p_base p < sz \<and> uint b \<le> uint (lmb_align_down (p_base p - sz) (2 ^ k))"
proof -
  have b: "2 ^ k dvd uint b" "block b sz \<inter> block (p_base p) (p_size p) = {}"
    using assms(4,6) by (auto simp: free_at_def covered_def)
  have sz: "0 < uint sz" using assms(5) by (simp add: fits_def)
  have "uint base < p_end p"
    using assms(1) p_end_word [OF assms(3)] by (simp add: lmb_addrs_overlap_def word_less_def)
  then have le: "uint b + uint sz \<le> uint (p_base p)"
    using block_disjointD [OF b(2) sz assms(2)] assms(7) by linarith
  then have "uint sz \<le> uint (p_base p)" using uint_ge_0 [of b] by linarith
  then have "\<not> p_base p < sz" "uint (p_base p - sz) = uint (p_base p) - uint sz"
    by (simp_all add: word_less_def uint_sub_if')
  then show ?thesis using align_down_greatest [OF b(1), of "p_base p - sz"] le by simp
qed

lemma alloc_walk_exact:
  assumes "table_inv rgn" "fits base sz" "2 ^ k dvd uint base"
  shows "\<exists>f. alloc_walk rgn lmbbase sz (2 ^ k) base = Some f \<and>
    (case f of
       None \<Rightarrow> \<forall>b. free_at rgn sz k b \<longrightarrow> uint lmbbase \<le> uint b \<longrightarrow> \<not> uint b \<le> uint base
     | Some b' \<Rightarrow> free_at rgn sz k b' \<and> uint lmbbase \<le> uint b' \<and> uint b' \<le> uint base \<and>
         (\<forall>b. free_at rgn sz k b \<longrightarrow> uint b \<le> uint base \<longrightarrow> uint b \<le> uint b'))"
  using assms(2,3)
proof (induction "unat base" arbitrary: base rule: less_induct)
  case less
  show ?case
  proof (cases "base \<noteq> 0 \<and> lmbbase \<le> base")
    case False
    then have "uint base < uint lmbbase \<or> base = 0" by (auto simp: word_le_def not_le)
    then show ?thesis using False by (subst alloc_walk.simps) (auto simp: free_at_def uint_0_iff)
  next
    case True
    note ov = overlaps_region [OF assms(1) less.prems(1)]
    from ov(1) consider (free) "lmb_overlaps_region rgn base sz = Some None"
      | (taken) j where "lmb_overlaps_region rgn base sz = Some (Some j)"
      by (metis option.exhaust)
    then show ?thesis
    proof cases
      case free
      then show ?thesis using True ov(2) less.prems(2)
        by (subst alloc_walk.simps) (auto simp: free_at_def word_le_def)
    next
      case taken
      from ov(3) [OF this] obtain p where p: "p \<in> set (entries rgn)" "p = region rgn ! j" "0 < uint (p_size p)"
        "p_end p < 4294967296" "lmb_addrs_overlap base sz (p_base p) (p_size p)" by blast
      note nc = next_candidate [OF p(5,3,4,1) less.prems(1)]
      show ?thesis
      proof (cases "p_base p < sz")
        case small: True
        then show ?thesis using True taken p(2) nc by (subst alloc_walk.simps) auto
      next
        case False
        let ?b = "lmb_align_down (p_base p - sz) (2 ^ k)"
        have lt: "?b < base" using next_candidate_less [OF p(5) False] .
        then have "fits ?b sz" using less.prems(1) by (simp add: fits_def word_less_def)
        moreover have "2 ^ k dvd uint ?b" by (simp add: align_down_value)
        moreover have "unat ?b < unat base" using lt by (simp add: word_less_nat_alt)
        ultimately obtain f where f: "alloc_walk rgn lmbbase sz (2 ^ k) ?b = Some f"
          "case f of
             None \<Rightarrow> \<forall>b. free_at rgn sz k b \<longrightarrow> uint lmbbase \<le> uint b \<longrightarrow> \<not> uint b \<le> uint ?b
           | Some b' \<Rightarrow> free_at rgn sz k b' \<and> uint lmbbase \<le> uint b' \<and> uint b' \<le> uint ?b \<and>
               (\<forall>b. free_at rgn sz k b \<longrightarrow> uint b \<le> uint ?b \<longrightarrow> uint b \<le> uint b')"
          using less.hyps by blast
        have "alloc_walk rgn lmbbase sz (2 ^ k) base = Some f"
          using True taken p(2) False f(1) by (subst alloc_walk.simps) simp
        moreover have "uint ?b \<le> uint base" using lt by (simp add: word_less_def)
        ultimately show ?thesis using f(2) nc by (intro exI [of _ f]) (auto split: option.splits)
      qed
    qed
  qed
qed

definition top_of :: "lmb_property \<Rightarrow> u32w \<Rightarrow> int" where
  "top_of p max_addr = (if max_addr = 0 then p_end p else min (p_end p) (uint max_addr))"

lemma alloc_start_exact:
  assumes "p_end p < 4294967296" "0 < uint sz" "max_addr = 0 \<or> sz \<le> max_addr"
  shows "case alloc_start p sz (2 ^ k) max_addr of
      None \<Rightarrow> \<forall>b. uint (p_base p) \<le> uint b \<longrightarrow> \<not> uint b + uint sz \<le> top_of p max_addr
    | Some base \<Rightarrow> 2 ^ k dvd uint base \<and> uint base + uint sz \<le> top_of p max_addr \<and>
        (\<forall>b. 2 ^ k dvd uint b \<longrightarrow> uint b + uint sz \<le> top_of p max_addr \<longrightarrow> uint b \<le> uint base)"
proof -
  have e: "uint (p_base p + p_size p) = p_end p" by (rule p_end_word [OF assms(1)])
  have from_top: "2 ^ k dvd uint base \<and> uint base + uint sz \<le> t \<and> (\<forall>b. 2 ^ k dvd uint b \<longrightarrow> uint b + uint sz \<le> t \<longrightarrow> uint b \<le> uint base)"
    if "base = lmb_align_down (w - sz) (2 ^ k)" "uint w = t" "uint sz \<le> t" for base w t
  proof -
    have w: "uint (w - sz) = t - uint sz" using that(2,3) by (simp add: uint_sub_if')
    have "uint base \<le> t - uint sz" using align_down_le [of "w - sz" "2 ^ k"] that(1) w by (simp add: word_le_def)
    moreover have "2 ^ k dvd uint base" by (simp add: that(1) align_down_value)
    ultimately show ?thesis using align_down_greatest [of k _ "w - sz"] w that(1) by (auto simp: le_diff_eq)
  qed
  show ?thesis
  proof (cases "p_size p < sz")
    case True
    then show ?thesis by (auto simp: alloc_start_def top_of_def word_less_def p_end_def)
  next
    case False
    then have s: "uint sz \<le> p_end p" using uint_ge_0 [of "p_base p"] unfolding word_less_def p_end_def by linarith
    consider (any) "max_addr = 0" | (low) "max_addr \<noteq> 0" "p_base p < max_addr" | (above) "max_addr \<noteq> 0" "\<not> p_base p < max_addr" by blast
    then show ?thesis
    proof cases
      case any
      then show ?thesis using False from_top [OF refl e s] by (simp add: alloc_start_def top_of_def)
    next
      case low
      have "uint (min (p_base p + p_size p) max_addr) = min (p_end p) (uint max_addr)"
        by (simp add: min_def word_le_def e)
      from from_top [OF refl this] s low assms(3) False show ?thesis
        by (simp add: alloc_start_def top_of_def word_le_def)
    next
      case above
      then show ?thesis using False assms(2) by (auto simp: alloc_start_def top_of_def word_less_def)
    qed
  qed
qed

definition placeable :: "lmb \<Rightarrow> lmb_property list \<Rightarrow> u32w \<Rightarrow> nat \<Rightarrow> u32w \<Rightarrow> u32w \<Rightarrow> bool" where
  "placeable l ps sz k max_addr b \<longleftrightarrow>
     free_at (reserved l) sz k b \<and> (\<exists>p\<in>set ps. uint (p_base p) \<le> uint b \<and> uint b + uint sz \<le> top_of p max_addr)"

lemma placeable_snoc:
  "placeable l (ps @ [p]) sz k max_addr b \<longleftrightarrow> placeable l ps sz k max_addr b \<or>
     free_at (reserved l) sz k b \<and> uint (p_base p) \<le> uint b \<and> uint b + uint sz \<le> top_of p max_addr"
  by (auto simp: placeable_def)

lemma align_up_multiple:
  assumes "2 ^ k dvd uint sz"
  shows "lmb_align_up sz (2 ^ k) = sz"
proof -
  have "uint (take_bit k sz) = take_bit k (uint sz)" by (rule unsigned_take_bit_eq)
  also have "\<dots> = 0" using assms by (simp add: take_bit_eq_mod)
  finally have "take_bit k sz = 0" by (simp add: uint_0_iff)
  then have low: "sz AND mask k = 0" by (simp add: take_bit_eq_mask)
  then have "sz + mask k = sz OR mask k" by (rule disjunctive_add_eq_or)
  moreover have "(sz OR mask k) AND NOT (mask k) = sz"
    by (rule bit_eqI) (use low in \<open>auto simp: bit_simps bit_eq_iff\<close>)
  ultimately show ?thesis by (simp add: lmb_align_up_def flip: mask_eq_exp_minus_1)
qed

lemma alloc_scan_exact:
  assumes "table_inv (reserved l)" "region (memory l) = ps @ zs" "0 < uint sz" "max_addr = 0 \<or> sz \<le> max_addr" "2 ^ k dvd uint sz"
    and "sorted_wrt (\<lambda>p q. p_end p < uint (p_base q)) ps" "\<forall>p\<in>set ps. p_end p < 4294967296"
  shows "alloc_scan l sz (2 ^ k) max_addr (length ps) = Some (0, l) \<and> (\<forall>b. \<not> placeable l ps sz k max_addr b) \<or>
    (\<exists>b r rgn'. placeable l ps sz k max_addr b \<and> (\<forall>b'. placeable l ps sz k max_addr b' \<longrightarrow> b' \<le> b) \<and>
       lmb_add_region (reserved l) b sz = Some (r, rgn') \<and>
       alloc_scan l sz (2 ^ k) max_addr (length ps) = Some (if r < 0 then 0 else b, l\<lparr>reserved := rgn'\<rparr>))"
  using assms(2,6,7)
proof (induction ps arbitrary: zs rule: rev_induct)
  case Nil
  then show ?case by (simp add: placeable_def)
next
  case (snoc p ps)
  have p: "get_region (region (memory l)) (length ps) = Some p" "p_end p < 4294967296"
    using snoc.prems by (auto simp: get_region_def)
  have below: "uint b + uint sz < uint (p_base p)" if "placeable l ps sz k max_addr b" for b
    using that snoc.prems(2) by (fastforce simp: placeable_def top_of_def sorted_wrt_append split: if_splits)
  note IH = snoc.IH [of "p # zs"]
  note start = alloc_start_exact [OF p(2) assms(3,4), of k]
  show ?case
  proof (cases "alloc_start p sz (2 ^ k) max_addr")
    case None
    then have "placeable l (ps @ [p]) sz k max_addr = placeable l ps sz k max_addr"
      using start by (auto simp: placeable_snoc fun_eq_iff)
    then show ?thesis using IH None p snoc.prems by (simp add: sorted_wrt_append)
  next
    case (Some base)
    then have base: "2 ^ k dvd uint base" "uint base + uint sz \<le> top_of p max_addr"
      "\<And>b. 2 ^ k dvd uint b \<Longrightarrow> uint b + uint sz \<le> top_of p max_addr \<Longrightarrow> uint b \<le> uint base" using start by auto
    have fits: "fits b sz" if "uint b \<le> uint base" for b
      using that base(2) p(2) assms(3) by (auto simp: fits_def top_of_def split: if_splits)
    obtain f where f: "alloc_walk (reserved l) (p_base p) sz (2 ^ k) base = Some f"
      "case f of
         None \<Rightarrow> \<forall>b. free_at (reserved l) sz k b \<longrightarrow> uint (p_base p) \<le> uint b \<longrightarrow> \<not> uint b \<le> uint base
       | Some b' \<Rightarrow> free_at (reserved l) sz k b' \<and> uint (p_base p) \<le> uint b' \<and> uint b' \<le> uint base \<and>
           (\<forall>b. free_at (reserved l) sz k b \<longrightarrow> uint b \<le> uint base \<longrightarrow> uint b \<le> uint b')"
      using alloc_walk_exact [OF assms(1) fits [OF order_refl] base(1)] by blast
    show ?thesis
    proof (cases f)
      case None
      then have "placeable l (ps @ [p]) sz k max_addr = placeable l ps sz k max_addr"
        using f(2) base(3) by (auto simp: placeable_snoc fun_eq_iff free_at_def)
      then show ?thesis using IH Some None f(1) p snoc.prems by (simp add: sorted_wrt_append)
    next
      case b: (Some b)
      note walk = f(2) [unfolded b option.case]
      have "placeable l (ps @ [p]) sz k max_addr b" using walk base(2) by (auto simp: placeable_snoc)
      moreover have "b' \<le> b" if "placeable l (ps @ [p]) sz k max_addr b'" for b'
      proof -
        have "uint b' + uint sz < uint (p_base p) \<or> free_at (reserved l) sz k b' \<and> uint b' \<le> uint base"
          using that below base(3) by (auto simp: placeable_snoc free_at_def)
        then show ?thesis using walk assms(3) by (auto simp: word_le_def)
      qed
      moreover obtain r rgn' where "lmb_add_region (reserved l) b sz = Some (r, rgn')"
        using add_region_exact [OF assms(1) fits [of b]] walk by (auto simp: free_at_def)
      ultimately show ?thesis using Some b f(1) p(1) align_up_multiple [OF assms(5)] by auto
    qed
  qed
qed

section \<open>Queries\<close>

lemma reserved_scan_exact:
  assumes "rs = pre @ ps @ zs" "\<forall>p\<in>set ps. 0 < uint (p_size p) \<and> p_end p < 4294967296"
  shows "reserved_scan rs addr (length pre) (length ps) = Some (uint addr \<in> covered ps)"
  using assms
proof (induction ps arbitrary: pre)
  case (Cons p ps)
  have "uint (p_base p + p_size p) = p_end p" using Cons.prems by (auto intro: p_end_word)
  moreover have "0 < p_end p" using Cons.prems uint_ge_0 [of "p_base p"] by (auto simp: p_end_def intro: add_nonneg_pos)
  ultimately have "uint (p_base p + p_size p - 1) = p_end p - 1" by (simp add: uint_sub_if')
  then have "p_base p \<le> addr \<and> addr \<le> p_base p + p_size p - 1 \<longleftrightarrow> uint addr \<in> block (p_base p) (p_size p)"
    by (auto simp: word_le_def block_def p_end_def)
  then show ?case using Cons.IH [of "pre @ [p]"] Cons.prems by (simp add: get_region_def)
qed simp
section \<open>The contract of a table\<close>

text \<open>
  What a client of a table relies on: adding a block that meets no block of the table either
  covers it or is refused and changes nothing that is covered.
\<close>

primrec add_blocks :: "('t \<Rightarrow> u32w \<Rightarrow> u32w \<Rightarrow> (int \<times> 't) option) \<Rightarrow> 't \<Rightarrow> (u32w \<times> u32w) list \<Rightarrow> (int list \<times> 't) option" where
  "add_blocks add t [] = Some ([], t)"
| "add_blocks add t (b # bs) =
     do {
       (r, t) \<leftarrow> add t (fst b) (snd b);
       (rs, t) \<leftarrow> add_blocks add t bs;
       Some (r # rs, t)
     }"

definition blocks_of :: "(u32w \<times> u32w) list \<Rightarrow> int set" where
  "blocks_of bs = (\<Union>b\<in>set bs. block (fst b) (snd b))"

definition disjoint_blocks :: "(u32w \<times> u32w) list \<Rightarrow> bool" where
  "disjoint_blocks bs \<longleftrightarrow>
     (\<forall>b\<in>set bs. fits (fst b) (snd b)) \<and>
     sorted_wrt (\<lambda>b c. block (fst b) (snd b) \<inter> block (fst c) (snd c) = {}) bs"

locale block_table =
  fixes add :: "'t \<Rightarrow> u32w \<Rightarrow> u32w \<Rightarrow> (int \<times> 't) option" and cover :: "'t \<Rightarrow> int set" and inv :: "'t \<Rightarrow> bool"
  assumes add_law: "inv t \<Longrightarrow> fits b s \<Longrightarrow> block b s \<inter> cover t = {} \<Longrightarrow>
    \<exists>r t'. add t b s = Some (r, t') \<and> inv t' \<and> cover t' = (if r < 0 then cover t else cover t \<union> block b s)"
begin

lemma add_blocks_cover:
  "inv t \<Longrightarrow> disjoint_blocks bs \<Longrightarrow> blocks_of bs \<inter> cover t = {} \<Longrightarrow>
   \<exists>rs t'. add_blocks add t bs = Some (rs, t') \<and> inv t' \<and> length rs = length bs \<and>
     cover t \<subseteq> cover t' \<and> cover t' \<subseteq> cover t \<union> blocks_of bs \<and>
     ((\<forall>r\<in>set rs. 0 \<le> r) \<longrightarrow> cover t' = cover t \<union> blocks_of bs)"
proof (induction bs arbitrary: t)
  case (Cons b bs)
  from add_law [of t "fst b" "snd b"] Cons.prems obtain r t1 where
    t1: "add t (fst b) (snd b) = Some (r, t1)" "inv t1" "cover t1 = (if r < 0 then cover t else cover t \<union> block (fst b) (snd b))"
    by (auto simp: disjoint_blocks_def blocks_of_def)
  have "disjoint_blocks bs" "blocks_of bs \<inter> cover t1 = {}"
    using Cons.prems(2,3) t1(3) by (auto simp: disjoint_blocks_def blocks_of_def split: if_splits)
  from Cons.IH [OF t1(2) this] obtain rs t' where
    t': "add_blocks add t1 bs = Some (rs, t')" "inv t'" "length rs = length bs" "cover t1 \<subseteq> cover t'"
      "cover t' \<subseteq> cover t1 \<union> blocks_of bs" "(\<forall>r\<in>set rs. 0 \<le> r) \<longrightarrow> cover t' = cover t1 \<union> blocks_of bs" by blast
  show ?case
    by (rule exI [of _ "r # rs"], rule exI [of _ t'])
      (use t1 t' in \<open>auto simp: blocks_of_def split: if_splits\<close>)
qed (simp add: blocks_of_def)

end

interpretation lmb_table: block_table lmb_add_region "\<lambda>rgn. covered (entries rgn)" table_inv
proof
  fix t b s assume "table_inv t" "fits b s" "block b s \<inter> covered (entries t) = {}"
  from add_region_exact [OF this] obtain r rgn' where
    "lmb_add_region t b s = Some (r, rgn')" "table_inv rgn'"
    "if r < 0 then r = - 1 \<and> rgn' = t \<and> length (entries t) = MAX_LMB_REGIONS \<and> (\<forall>p\<in>set (entries t). \<not> hit b s p)
     else covered (entries rgn') = covered (entries t) \<union> block b s" by blast
  then show "\<exists>r t'. lmb_add_region t b s = Some (r, t') \<and> table_inv t' \<and>
      covered (entries t') = (if r < 0 then covered (entries t) else covered (entries t) \<union> block b s)"
    by (intro exI [of _ r] exI [of _ rgn']) (auto split: if_splits)
qed

lemma init_table:
  assumes "length (region rgn) = MAX_LMB_REGIONS + 1"
  shows "table_inv (dummy_region rgn)" "entries (dummy_region rgn) = [\<lparr>p_base = 0, p_size = 0\<rparr>]"
proof -
  obtain p ps where "region rgn = p # ps" using assms by (cases "region rgn") auto
  then show "entries (dummy_region rgn) = [\<lparr>p_base = 0, p_size = 0\<rparr>]" by (simp add: entries_def dummy_region_def)
  then show "table_inv (dummy_region rgn)"
    using assms by (simp add: table_inv_def table_shape_def) (simp add: dummy_region_def)
qed

lemma is_reserved_exact:
  assumes "table_inv (reserved l)" "covered (entries (reserved l)) \<noteq> {}"
  shows "lmb_is_reserved l addr = Some (uint addr \<in> covered (entries (reserved l)))"
proof -
  have ok: "table_ok (reserved l)" using assms by (auto simp: table_inv_def)
  then have shape: "table_shape (reserved l)" by (simp add: table_ok_def)
  obtain z zs where "region (reserved l) = [] @ entries (reserved l) @ z # zs" "unat (cnt (reserved l)) = length (entries (reserved l))"
    using table_split [OF shape] by (metis append_Nil)
  moreover have "\<forall>p\<in>set (entries (reserved l)). 0 < uint (p_size p) \<and> p_end p < 4294967296"
    using ok by (simp add: table_ok_def separated_def)
  ultimately show ?thesis
    using reserved_scan_exact [of "region (reserved l)" "[]"] by (simp add: lmb_is_reserved_def)
qed

text \<open>Before anything is reserved the dummy entry makes every address look reserved.\<close>

lemma init_is_reserved:
  assumes "length (region (reserved l)) = MAX_LMB_REGIONS + 1"
  shows "lmb_is_reserved (lmb_init l) addr = Some True"
proof -
  obtain p ps where "region (reserved l) = p # ps" using assms by (cases "region (reserved l)") auto
  moreover have "addr \<le> - 1" by (rule word_order.extremum)
  ultimately show ?thesis
    by (simp add: lmb_is_reserved_def lmb_init_def dummy_region_def get_region_def)
qed

section \<open>Sequences of operations\<close>

text \<open>
  The operations the boot commands perform on the tables: memory is added, blocks that are free are
  reserved, blocks inside a reserved entry are freed again, and blocks are allocated.
\<close>

inductive lmb_step :: "lmb \<Rightarrow> lmb \<Rightarrow> bool" where
  add: "fits b s \<Longrightarrow> block b s \<inter> covered (entries (memory l)) = {} \<Longrightarrow> lmb_add l b s = Some (r, l') \<Longrightarrow> lmb_step l l'"
| reserve: "fits b s \<Longrightarrow> block b s \<inter> covered (entries (reserved l)) = {} \<Longrightarrow> lmb_reserve l b s = Some (r, l') \<Longrightarrow> lmb_step l l'"
| free: "fits b s \<Longrightarrow> \<not> covered (entries (reserved l)) \<subseteq> block b s \<Longrightarrow> lmb_free l b s = Some (r, l') \<Longrightarrow> lmb_step l l'"
| alloc: "0 < uint s \<Longrightarrow> 2 ^ k dvd uint s \<Longrightarrow> max_addr = 0 \<or> s \<le> max_addr \<Longrightarrow>
    lmb_alloc_base l s (2 ^ k) max_addr = Some (b, l') \<Longrightarrow> lmb_step l l'"

inductive lmb_reachable :: "lmb \<Rightarrow> bool" where
  init: "length (region (memory l)) = MAX_LMB_REGIONS + 1 \<Longrightarrow> length (region (reserved l)) = MAX_LMB_REGIONS + 1 \<Longrightarrow>
    lmb_reachable (lmb_init l)"
| step: "lmb_reachable l \<Longrightarrow> lmb_step l l' \<Longrightarrow> lmb_reachable l'"

definition lmb_inv :: "lmb \<Rightarrow> bool" where
  "lmb_inv l \<longleftrightarrow> table_inv (memory l) \<and> table_inv (reserved l)"

lemma table_inv_memory:
  assumes "table_inv rgn"
  obtains zs where "region rgn = entries rgn @ zs" "unat (cnt rgn) = length (entries rgn)"
    "sorted_wrt (\<lambda>p q. p_end p < uint (p_base q)) (entries rgn)" "\<forall>p\<in>set (entries rgn). p_end p < 4294967296"
proof -
  have "table_shape rgn" using assms by (auto simp: table_inv_def table_ok_def)
  from table_split [OF this] obtain z zs where "region rgn = entries rgn @ z # zs" "length (entries rgn) = unat (cnt rgn)" by blast
  then show thesis using assms
    by (intro that [of "z # zs"]) (auto simp: table_inv_def table_ok_def separated_def p_end_def)
qed

lemma add_region_inv:
  assumes "table_inv rgn" "fits b s" "block b s \<inter> covered (entries rgn) = {}" "lmb_add_region rgn b s = Some (r, rgn')"
  shows "table_inv rgn'" "covered (entries rgn') = (if r < 0 then covered (entries rgn) else covered (entries rgn) \<union> block b s)"
  using lmb_table.add_law [OF assms(1-3)] assms(4) by auto

lemma alloc_inv:
  assumes "lmb_inv l" "0 < uint s" "2 ^ k dvd uint s" "max_addr = 0 \<or> s \<le> max_addr"
    and "lmb_alloc_base l s (2 ^ k) max_addr = Some (b, l')"
  shows "lmb_inv l'"
proof -
  have inv: "table_inv (memory l)" "table_inv (reserved l)" using assms(1) by (auto simp: lmb_inv_def)
  obtain zs where m: "region (memory l) = entries (memory l) @ zs" "unat (cnt (memory l)) = length (entries (memory l))"
    "sorted_wrt (\<lambda>p q. p_end p < uint (p_base q)) (entries (memory l))" "\<forall>p\<in>set (entries (memory l)). p_end p < 4294967296"
    using table_inv_memory [OF inv(1)] by blast
  from alloc_scan_exact [OF inv(2) m(1) assms(2,4,3) m(3,4)] show ?thesis
  proof (elim disjE conjE exE)
    fix b' r rgn'
    assume a: "placeable l (entries (memory l)) s k max_addr b'" "lmb_add_region (reserved l) b' s = Some (r, rgn')"
      "alloc_scan l s (2 ^ k) max_addr (length (entries (memory l))) = Some (if r < 0 then 0 else b', l\<lparr>reserved := rgn'\<rparr>)"
    have "fits b' s" using a(1) m(4) assms(2) by (auto simp: placeable_def fits_def top_of_def split: if_splits)
    then have "table_inv rgn'" using add_region_inv(1) [OF inv(2) _ _ a(2)] a(1) by (simp add: placeable_def free_at_def)
    then show ?thesis using a(3) assms(5) m(2) inv(1) by (auto simp: lmb_alloc_base_def lmb_inv_def)
  qed (use assms(1,5) m(2) in \<open>simp add: lmb_alloc_base_def\<close>)
qed

lemma free_inv:
  assumes "lmb_inv l" "fits b s" "\<not> covered (entries (reserved l)) \<subseteq> block b s" "lmb_free l b s = Some (r, l')"
  shows "lmb_inv l'"
proof (cases "\<exists>p\<in>set (entries (reserved l)). uint (p_base p) \<le> uint b \<and> uint b + uint s \<le> p_end p")
  case True
  then obtain xs p ys where p: "entries (reserved l) = xs @ p # ys" "uint (p_base p) \<le> uint b" "uint b + uint s \<le> p_end p"
    by (metis split_list)
  have ok: "table_ok (reserved l)" using assms(1-3) by (auto simp: lmb_inv_def table_inv_def)
  from free_exact [OF ok p(1) assms(2) p(2,3)] obtain rgn' where rgn': "l' = l\<lparr>reserved := rgn'\<rparr>"
    "entries rgn' \<noteq> [] \<longrightarrow> table_ok rgn'"
    "covered (entries rgn') = covered (entries (reserved l)) - {uint b ..< p_end p} \<and> uint (p_base p) < uint b \<or>
     covered (entries rgn') = covered (entries (reserved l)) - block b s"
    using assms(4) by (auto split: if_splits)
  have "uint (p_base p) \<in> covered (entries (reserved l))"
    using ok p(1) by (auto simp: block_def table_ok_def separated_def)
  then have "covered (entries rgn') \<noteq> {}" using rgn'(3) assms(3) by (auto simp: block_def)
  then show ?thesis using rgn' assms(1) by (auto simp: lmb_inv_def table_inv_def)
next
  case False
  then show ?thesis using free_unknown [of l b s] assms by (auto simp: lmb_inv_def)
qed

lemma step_inv: "lmb_step l l' \<Longrightarrow> lmb_inv l \<Longrightarrow> lmb_inv l'"
proof (induction rule: lmb_step.induct)
  case (add b s l r l')
  then show ?case using add_region_inv(1) [of "memory l" b s]
    by (auto simp: lmb_inv_def lmb_add_def split: bind_splits)
next
  case (reserve b s l r l')
  then show ?case using add_region_inv(1) [of "reserved l" b s]
    by (auto simp: lmb_inv_def lmb_reserve_def split: bind_splits)
qed (blast intro: free_inv alloc_inv)+

section \<open>Properties\<close>

text \<open>The tables of a board with 256 megabytes of memory, for the examples.\<close>

definition blank_table :: lmb_region where
  "blank_table = \<lparr>cnt = 0, r_size = 0, region = replicate 9 \<lparr>p_base = 0, p_size = 0\<rparr>\<rparr>"

definition board_lmb :: lmb where
  "board_lmb = snd (the (lmb_add (lmb_init \<lparr>memory = blank_table, reserved = blank_table\<rparr>) 0x40000000 0x10000000))"

definition reserved_lmb :: lmb where
  "reserved_lmb = snd (the (lmb_reserve board_lmb 0x43e00000 0x100000))"

lemma board_lmb_tables:
  "entries (memory board_lmb) = [\<lparr>p_base = 0x40000000, p_size = 0x10000000\<rparr>]"
  "entries (reserved board_lmb) = [\<lparr>p_base = 0, p_size = 0\<rparr>]"
  "entries (memory reserved_lmb) = [\<lparr>p_base = 0x40000000, p_size = 0x10000000\<rparr>]"
  "entries (reserved reserved_lmb) = [\<lparr>p_base = 0x43e00000, p_size = 0x100000\<rparr>]"
  by code_simp+

text \<open>A block whose size is not a multiple of the alignment is reserved with its size rounded up, and the
  rounded block can meet a reserved one: here the first entry overlaps the second.\<close>

lemma alloc_unaligned_overlaps:
  "map (\<lambda>p. (p_base p, p_size p)) (entries (reserved (snd (the (lmb_alloc_base
     (snd (the (lmb_reserve board_lmb 0x4ffff800 0x800))) 0x100 0x1000 0))))) = [(0x4ffff000, 0x1000), (0x4ffff800, 0x800)]"
  by code_simp

lemma board_lmb_shape: "table_shape (memory reserved_lmb)" "table_shape (reserved reserved_lmb)"
  by code_simp+

lemma reserved_lmb_ok: "table_ok (reserved reserved_lmb)" "table_inv (reserved reserved_lmb)" "table_inv (memory reserved_lmb)"
  using board_lmb_shape board_lmb_tables
  by (simp_all add: table_ok_def table_inv_def separated_def p_end_def)



text \<open>C22: Freeing a block inside a reserved entry releases exactly that block, whether it is the whole
  entry, its start, its end or its middle, and keeps the table in order as long as something stays
  reserved; only when the middle of an entry is freed in a full table does the call fail, and then
  it has released the rest of the entry as well.\<close>

theorem lmb_free_exact:
  assumes "table_ok (reserved l)" "p \<in> set (entries (reserved l))" "fits base sz"
    and "uint (p_base p) \<le> uint base" "uint base + uint sz \<le> p_end p"
  shows "\<exists>r rgn'. lmb_free l base sz = Some (r, l\<lparr>reserved := rgn'\<rparr>) \<and>
    (if uint (p_base p) < uint base \<and> uint base + uint sz < p_end p \<and> length (entries (reserved l)) = MAX_LMB_REGIONS
     then r = - 1 \<and> covered (entries rgn') = covered (entries (reserved l)) - {uint base ..< p_end p}
     else r = 0 \<and> covered (entries rgn') = covered (entries (reserved l)) - block base sz) \<and>
    (entries rgn' \<noteq> [] \<longrightarrow> table_ok rgn')"
proof -
  obtain xs ys where "entries (reserved l) = xs @ p # ys" using assms(2) by (metis split_list)
  from free_exact [OF assms(1) this assms(3-5)] show ?thesis .
qed

lemma lmb_free_exact_witness:
  "\<exists>r rgn'. lmb_free reserved_lmb 0x43e10000 0x1000 = Some (r, reserved_lmb\<lparr>reserved := rgn'\<rparr>) \<and>
    covered (entries rgn') = covered (entries (reserved reserved_lmb)) - block 0x43e10000 0x1000"
  using lmb_free_exact [OF reserved_lmb_ok(1), of "\<lparr>p_base = 0x43e00000, p_size = 0x100000\<rparr>" "0x43e10000" "0x1000"]
    board_lmb_tables(4) by (auto simp: fits_def p_end_def)







end
