(* ===== verification/Cstring.thy ===== *)
theory Cstring
  imports Boot_Prelude
begin

text \<open>
  Strings as the lists of their bytes without the final zero, and \<^verbatim>\<open>strcmp\<close> of \<^verbatim>\<open>lib/string.c\<close>.  The
  difference of two bytes is kept in a \<^verbatim>\<open>signed char\<close>, so it is the order of the bytes only for 7-bit characters.
\<close>

type_synonym cstr = "u8 list"

definition bytes :: "string \<Rightarrow> u8 list" where
  "bytes s = map (\<lambda>c. word_of_nat (of_char c)) s"

fun strcmp :: "cstr \<Rightarrow> cstr \<Rightarrow> int" where
  "strcmp (c # cs) (d # ds) = (let res = sint (c - d) in if res \<noteq> 0 then res else strcmp cs ds)"
| "strcmp [] (d # ds) = sint (- d)"
| "strcmp (c # cs) [] = sint c"
| "strcmp [] [] = 0"

text \<open>No byte is zero; all bytes are ASCII characters.\<close>

definition plain :: "cstr \<Rightarrow> bool" where
  "plain s \<longleftrightarrow> 0 \<notin> set s"

definition ascii :: "cstr \<Rightarrow> bool" where
  "ascii s \<longleftrightarrow> (\<forall>c\<in>set s. 0 < uint c \<and> uint c < 128)"

lemma plain_simps [simp]: "plain []" "plain (c # cs) \<longleftrightarrow> c \<noteq> 0 \<and> plain cs" "plain (s @ t) \<longleftrightarrow> plain s \<and> plain t"
  by (auto simp: plain_def)

lemma ascii_simps [simp]: "ascii []" "ascii (c # cs) \<longleftrightarrow> 0 < uint c \<and> uint c < 128 \<and> ascii cs"
  by (auto simp: ascii_def)

lemma ascii_plain: "ascii s \<Longrightarrow> plain s"
  by (auto simp: ascii_def plain_def)

lemma sint_0_iff: "sint (x :: u8) = 0 \<longleftrightarrow> x = 0"
  by (rule signed_eq_0_iff)

lemma strcmp_0: "plain s \<Longrightarrow> plain t \<Longrightarrow> strcmp s t = 0 \<longleftrightarrow> s = t"
  by (induction s t rule: strcmp.induct) (auto simp: Let_def sint_0_iff)

lemma sint_diff:
  fixes c d :: u8
  assumes "uint c < 128" "uint d < 128"
  shows "sint (c - d) = uint c - uint d"
proof -
  have b: "- 128 \<le> uint c - uint d" "uint c - uint d < 128"
    using assms uint_ge_0 [of c] uint_ge_0 [of d] by linarith+
  have w: "c - d = word_of_int (uint c - uint d)" by simp
  have "signed_take_bit 7 (uint c - uint d) = uint c - uint d"
    by (rule signed_take_bit_int_eq_self) (use b in simp_all)
  then show ?thesis unfolding w sint_sbintrunc' by simp
qed

lemma strcmp_le:
  assumes "ascii (c # cs)" "ascii (d # ds)"
  shows "strcmp (c # cs) (d # ds) \<le> 0 \<longleftrightarrow> uint c < uint d \<or> c = d \<and> strcmp cs ds \<le> 0"
    and "strcmp [] (d # ds) \<le> 0" "\<not> strcmp (c # cs) [] \<le> 0"
  using sint_diff [of c d] sint_diff [of 0 d] sint_diff [of c 0] assms by (auto simp: Let_def word_uint_eq_iff)

lemma strcmp_total: "ascii s \<Longrightarrow> ascii t \<Longrightarrow> strcmp s t \<le> 0 \<or> strcmp t s \<le> 0"
proof (induction s t rule: strcmp.induct)
  case (1 c cs d ds)
  then show ?case using strcmp_le(1) [of c cs d ds] strcmp_le(1) [of d ds c cs] sint_diff [of c d]
    by (auto simp: Let_def word_uint_eq_iff)
next
  case (2 d ds)
  then show ?case using strcmp_le(2) [of d ds d ds] by simp
next
  case (3 c cs)
  then show ?case using strcmp_le(2) [of c cs c cs] by simp
qed simp

lemma strcmp_trans: "ascii s \<Longrightarrow> ascii t \<Longrightarrow> ascii u \<Longrightarrow> strcmp s t \<le> 0 \<Longrightarrow> strcmp t u \<le> 0 \<Longrightarrow> strcmp s u \<le> 0"
proof (induction s t arbitrary: u rule: strcmp.induct)
  case (1 c cs d ds)
  then obtain e es where u: "u = e # es" using strcmp_le(3) [of d ds] by (cases u) auto
  note prems = "1.prems"(1-5) [unfolded u]
  have st: "uint c < uint d \<or> c = d \<and> strcmp cs ds \<le> 0" using strcmp_le(1) [OF prems(1,2)] prems(4) by blast
  have tu: "uint d < uint e \<or> d = e \<and> strcmp ds es \<le> 0" using strcmp_le(1) [OF prems(2,3)] prems(5) by blast
  have "uint c < uint e \<or> c = e \<and> strcmp cs es \<le> 0"
    using st tu "1.IH" [OF refl, of es] prems(1-3) by auto
  then show ?case unfolding u using strcmp_le(1) [OF prems(1,3)] by blast
next
  case (2 d ds)
  then show ?case using strcmp_le(2) by (cases u) auto
next
  case (3 c cs)
  then show ?case using strcmp_le(3) [of c cs] by auto
qed simp

text \<open>With larger bytes the comparison is not an order.\<close>

lemma strcmp_cyclic: "strcmp [200] [30] < 0" "strcmp [30] [100] < 0" "strcmp [100] [200] < 0"
  by code_simp+

end
