(* ===== verification/Hashtable.thy ===== *)
theory Hashtable
  imports Boot_Prelude Cstring "HOL-Library.While_Combinator" "HOL-Library.Monad_Syntax"
begin

text \<open>
  The hash table of the environment variables, \<^verbatim>\<open>lib/hashtable.c\<close>: double hashing with open
  addressing over a table of prime size.  A string is the list of its bytes without the final zero.
  The heap is a state \<open>'h\<close> with the operations \<open>strdup\<close>, \<open>free\<close> and \<open>calloc\<close> as arguments.  The
  value \<^const>\<open>None\<close> stands for behaviour C leaves undefined and for loops that do not end.
\<close>

section \<open>Data\<close>

datatype ACTION = FIND | ENTER

datatype errno = EINVAL | ENOMEM | ESRCH

record ENTRY =
  e_key :: cstr
  e_data :: "cstr option"

record bucket =
  used :: int
  b_key :: "cstr option"
  b_data :: "cstr option"

record hsearch_data =
  table :: "bucket list option"
  h_size :: int
  filled :: int

text \<open>What \<^verbatim>\<open>hsearch_r\<close> leaves behind: its return value, the entry \<open>*retval\<close> points to, and the error.\<close>

record hresult =
  ret :: int
  retval :: "int option"
  errno :: "errno option"

type_synonym 'h strdup_fn = "'h \<Rightarrow> cstr \<Rightarrow> cstr option \<times> 'h"
type_synonym 'h free_fn = "'h \<Rightarrow> cstr option \<Rightarrow> 'h"
type_synonym 'h calloc_fn = "'h \<Rightarrow> int \<Rightarrow> bool \<times> 'h"

section \<open>Creation and destruction\<close>

definition isprime :: "int \<Rightarrow> bool option" where
  "isprime number =
     do {
       d \<leftarrow> while_option (\<lambda>d. u32 (d * d) < number \<and> number mod d \<noteq> 0) (\<lambda>d. u32 (d + 2)) 3;
       Some (number mod d \<noteq> 0)
     }"

definition next_prime :: "int \<Rightarrow> int option" where
  "next_prime nel =
     do {
       (n, _) \<leftarrow> while_option (\<lambda>(n, p). p = Some False) (\<lambda>(n, _). (u32 (n + 2), isprime (u32 (n + 2)))) (nel, isprime nel);
       p \<leftarrow> isprime n;
       Some n
     }"

definition empty_bucket :: bucket where
  "empty_bucket = \<lparr>used = 0, b_key = None, b_data = None\<rparr>"

definition hcreate_r :: "'h calloc_fn \<Rightarrow> 'h \<Rightarrow> int \<Rightarrow> hsearch_data option \<Rightarrow>
    (int \<times> errno option \<times> hsearch_data option \<times> 'h) option" where
  "hcreate_r calloc hp nel htab =
     (case htab of
        None \<Rightarrow> Some (0, Some EINVAL, None, hp)
      | Some h \<Rightarrow>
          if table h \<noteq> None then Some (0, None, Some h, hp)
          else
            do {
              nel \<leftarrow> next_prime (if even nel then nel + 1 else nel);
              let h = h\<lparr>h_size := nel, filled := 0\<rparr>;
              let (ok, hp) = calloc hp (u32 (nel + 1));
              Some (if ok then (1, None, Some (h\<lparr>table := Some (replicate (nat (u32 (nel + 1))) empty_bucket)\<rparr>), hp)
                    else (0, None, Some h, hp))
            })"

primrec free_buckets :: "'h free_fn \<Rightarrow> 'h \<Rightarrow> bucket list \<Rightarrow> 'h" where
  "free_buckets free hp [] = hp"
| "free_buckets free hp (b # bs) =
     free_buckets free (if used b \<noteq> 0 then free (free hp (b_key b)) (b_data b) else hp) bs"

definition hdestroy_r :: "'h free_fn \<Rightarrow> ('h \<Rightarrow> bucket list \<Rightarrow> 'h) \<Rightarrow> 'h \<Rightarrow> hsearch_data option \<Rightarrow>
    (errno option \<times> hsearch_data option \<times> 'h) option" where
  "hdestroy_r free free_table hp htab =
     (case htab of
        None \<Rightarrow> Some (Some EINVAL, None, hp)
      | Some h \<Rightarrow>
          do {
            t \<leftarrow> table h;
            if h_size h < int (length t)
            then Some (None, Some (h\<lparr>table := None\<rparr>), free_table (free_buckets free hp (take (nat (h_size h)) (tl t))) t)
            else None
          })"

section \<open>Searching\<close>

definition hash_value :: "cstr \<Rightarrow> int" where
  "hash_value key = foldl (\<lambda>hval c. u32 (u32 (hval * 16) + uint c)) (u32 (int (length key))) (rev key)"

definition first_index :: "int \<Rightarrow> cstr \<Rightarrow> int" where
  "first_index size' key = (let hval = hash_value key mod size' in if hval = 0 then 1 else hval)"

definition get_bucket :: "bucket list \<Rightarrow> int \<Rightarrow> bucket option" where
  "get_bucket t idx = (if 0 \<le> idx \<and> idx < int (length t) then Some (t ! nat idx) else None)"

text \<open>The comparison of a bucket with the key: \<^const>\<open>strcmp\<close> is zero exactly for equal strings
  (\<open>strcmp_0\<close>), and comparing with a null key is undefined.\<close>

definition bucket_is :: "bucket \<Rightarrow> int \<Rightarrow> cstr \<Rightarrow> bool option" where
  "bucket_is b hval key =
     (if used b = hval then map_option (\<lambda>k. k = key) (b_key b) else Some False)"

datatype probe = Going | Matched | Wrapped | Vacant | Broken

definition next_index :: "int \<Rightarrow> int \<Rightarrow> int \<Rightarrow> int" where
  "next_index size' hval2 idx =
     (if idx \<le> hval2 then u32 (u32 (size' + idx) - hval2) else u32 (idx - hval2))"

definition probe_step :: "bucket list \<Rightarrow> int \<Rightarrow> int \<Rightarrow> int \<Rightarrow> cstr \<Rightarrow> int \<Rightarrow> int \<times> probe" where
  "probe_step t size' hval hval2 key idx =
     (let idx = next_index size' hval2 idx
      in if idx = hval then (idx, Wrapped)
         else
           (case get_bucket t idx of
              None \<Rightarrow> (idx, Broken)
            | Some b \<Rightarrow>
                (case bucket_is b hval key of
                   None \<Rightarrow> (idx, Broken)
                 | Some True \<Rightarrow> (idx, Matched)
                 | Some False \<Rightarrow> (idx, if used b \<noteq> 0 then Going else Vacant))))"

definition probe_from :: "bucket list \<Rightarrow> int \<Rightarrow> int \<Rightarrow> int \<Rightarrow> cstr \<Rightarrow> int \<Rightarrow> (int \<times> probe) option" where
  "probe_from t size' hval hval2 key idx =
     while_option (\<lambda>(_, st). st = Going) (\<lambda>(idx, _). probe_step t size' hval hval2 key idx) (idx, Going)"

definition locate :: "hsearch_data \<Rightarrow> cstr \<Rightarrow> (int \<times> probe) option" where
  "locate htab key =
     do {
       t \<leftarrow> table htab;
       if h_size htab = 0 then None
       else
         (let hval = first_index (h_size htab) key
          in do {
            b \<leftarrow> get_bucket t hval;
            if used b = 0 then Some (hval, Vacant)
            else
              do {
                same \<leftarrow> bucket_is b hval key;
                if same then Some (hval, Matched)
                else if u32 (h_size htab - 2) = 0 then None
                else probe_from t (h_size htab) hval (1 + hval mod u32 (h_size htab - 2)) key hval
              }
          })
     }"

definition strdup_ptr :: "'h strdup_fn \<Rightarrow> 'h \<Rightarrow> cstr option \<Rightarrow> cstr option \<times> 'h" where
  "strdup_ptr strdup hp s = (case s of None \<Rightarrow> (None, hp) | Some s \<Rightarrow> strdup hp s)"

definition put_bucket :: "hsearch_data \<Rightarrow> int \<Rightarrow> bucket \<Rightarrow> hsearch_data" where
  "put_bucket htab idx b = htab\<lparr>table := map_option (\<lambda>t. t[nat idx := b]) (table htab)\<rparr>"

text \<open>An existing entry: its value is replaced when a new one is given.\<close>

definition found_entry :: "'h strdup_fn \<Rightarrow> 'h free_fn \<Rightarrow> 'h \<Rightarrow> ENTRY \<Rightarrow> ACTION \<Rightarrow> hsearch_data \<Rightarrow> int \<Rightarrow> bucket \<Rightarrow>
    hresult \<times> hsearch_data \<times> 'h" where
  "found_entry strdup free hp item action htab idx b =
     (if action = ENTER \<and> e_data item \<noteq> None then
        (let hp = free hp (b_data b);
             (d, hp) = strdup_ptr strdup hp (e_data item);
             htab = put_bucket htab idx (b\<lparr>b_data := d\<rparr>)
         in if d = None then (\<lparr>ret = 0, retval = None, errno = Some ENOMEM\<rparr>, htab, hp)
            else (\<lparr>ret = idx, retval = Some idx, errno = None\<rparr>, htab, hp))
      else (\<lparr>ret = idx, retval = Some idx, errno = None\<rparr>, htab, hp))"

text \<open>A new entry in the bucket the search ended at.\<close>

definition new_entry :: "'h strdup_fn \<Rightarrow> 'h \<Rightarrow> ENTRY \<Rightarrow> hsearch_data \<Rightarrow> int \<Rightarrow> hresult \<times> hsearch_data \<times> 'h" where
  "new_entry strdup hp item htab idx =
     (if filled htab = h_size htab then (\<lparr>ret = 0, retval = None, errno = Some ENOMEM\<rparr>, htab, hp)
      else
        (let (k, hp) = strdup hp (e_key item);
             (d, hp) = strdup_ptr strdup hp (e_data item);
             htab = put_bucket htab idx \<lparr>used = first_index (h_size htab) (e_key item), b_key = k, b_data = d\<rparr>
         in if k = None \<or> d = None then (\<lparr>ret = 0, retval = None, errno = Some ENOMEM\<rparr>, htab, hp)
            else (\<lparr>ret = 1, retval = Some idx, errno = None\<rparr>, htab\<lparr>filled := u32 (filled htab + 1)\<rparr>, hp)))"

definition hsearch_r :: "'h strdup_fn \<Rightarrow> 'h free_fn \<Rightarrow> 'h \<Rightarrow> ENTRY \<Rightarrow> ACTION \<Rightarrow> hsearch_data \<Rightarrow>
    (hresult \<times> hsearch_data \<times> 'h) option" where
  "hsearch_r strdup free hp item action htab =
     do {
       (idx, st) \<leftarrow> locate htab (e_key item);
       t \<leftarrow> table htab;
       case st of
         Matched \<Rightarrow> Some (found_entry strdup free hp item action htab idx (t ! nat idx))
       | Vacant \<Rightarrow>
           Some (if action = ENTER then new_entry strdup hp item htab idx
                 else (\<lparr>ret = 0, retval = None, errno = Some ESRCH\<rparr>, htab, hp))
       | Wrapped \<Rightarrow>
           Some (if action = ENTER then new_entry strdup hp item htab idx
                 else (\<lparr>ret = 0, retval = None, errno = Some ESRCH\<rparr>, htab, hp))
       | _ \<Rightarrow> None
     }"

definition hdelete_r :: "'h strdup_fn \<Rightarrow> 'h free_fn \<Rightarrow> 'h \<Rightarrow> cstr \<Rightarrow> hsearch_data \<Rightarrow>
    (int \<times> errno option \<times> hsearch_data \<times> 'h) option" where
  "hdelete_r strdup free hp key htab =
     do {
       (r, htab, hp) \<leftarrow> hsearch_r strdup free hp \<lparr>e_key = key, e_data = None\<rparr> FIND htab;
       if ret r = 0 then Some (0, Some ESRCH, htab, hp)
       else
         do {
           t \<leftarrow> table htab;
           b \<leftarrow> get_bucket t (ret r);
           Some (1, None, (put_bucket htab (ret r) (b\<lparr>used := 0\<rparr>))\<lparr>filled := u32 (filled htab - 1)\<rparr>,
                 free (free hp (b_key b)) (b_data b))
         }
     }"

section \<open>The size of the table\<close>

definition prime_size :: "int \<Rightarrow> bool" where
  "prime_size p \<longleftrightarrow> 1 < p \<and> (\<forall>d. 1 < d \<longrightarrow> d < p \<longrightarrow> \<not> d dvd p)"

lemma small_factor:
  fixes n t :: int
  assumes "0 < n" "n \<le> t * t" "e dvd n" "1 < e" "e < n" "0 \<le> t"
  shows "\<exists>f. 1 < f \<and> f \<le> t \<and> f dvd n"
proof -
  obtain f where f: "n = e * f" using assms(3) by (rule dvdE)
  have "0 < f" using f assms(1,4) by (simp add: zero_less_mult_iff)
  moreover have "f \<noteq> 1" using f assms(5) by auto
  ultimately have "1 < f" by linarith
  show ?thesis
  proof (cases "e \<le> t")
    case False
    then have "f \<le> t"
    proof -
      have "\<not> t < f" using False f assms(2,6) mult_strict_mono [of t e t f] by auto
      then show ?thesis by simp
    qed
    then show ?thesis using \<open>1 < f\<close> f by auto
  qed (use assms in auto)
qed

lemma isprime_exact:
  assumes "odd n" "3 < n" "n < 2147483648"
  shows "isprime n = Some (prime_size n)"
proof -
  let ?b = "\<lambda>d. u32 (d * d) < n \<and> n mod d \<noteq> 0" and ?c = "\<lambda>d. u32 (d + 2)"
  let ?P = "\<lambda>d. odd d \<and> 3 \<le> d \<and> d \<le> 46342 \<and> (d = 3 \<or> (d - 2) * (d - 2) < n) \<and> (\<forall>e. 1 < e \<longrightarrow> e < d \<longrightarrow> \<not> e dvd n)"
  have sq: "u32 (d * d) = d * d" if "3 \<le> d" "d \<le> 46342" for d
    using that mult_mono [of d 46342 d 46342] by (intro u32_id) (auto simp: in_u32_def)
  have step: "?P (?c d) \<and> nat (46345 - ?c d) < nat (46345 - d)" if "?P d" "?b d" for d
  proof -
    have d: "3 \<le> d" "d \<le> 46342" "d * d < n" using that sq [of d] by auto
    have "d < 46341" using d assms(3) mult_mono [of 46341 d 46341 d] by (cases "d < 46341") auto
    then have c: "?c d = d + 2" using d by (intro u32_id) (auto simp: in_u32_def)
    have "\<not> e dvd n" if e: "1 < e" "e < d + 2" for e
    proof -
      have "\<not> d dvd n" using \<open>?b d\<close> by (simp add: mod_eq_0_iff_dvd)
      moreover have "\<not> d + 1 dvd n" using \<open>?P d\<close> assms(1) dvd_trans [of 2 "d + 1" n] by auto
      moreover have "e < d \<or> e = d \<or> e = d + 1" using e by linarith
      ultimately show ?thesis using \<open>?P d\<close> e(1) by blast
    qed
    then show ?thesis using that c d \<open>d < 46341\<close> by auto
  qed
  have start: "?P 3"
  proof -
    have "\<not> e dvd n" if "1 < e" "e < 3" for e
      using that assms(1) by (cases "e = 2") auto
    then show ?thesis by simp
  qed
  obtain t where t: "while_option ?b ?c 3 = Some t"
    using measure_while_option_Some [of ?P ?b ?c "\<lambda>d. nat (46345 - d)" 3] step start by blast
  have P: "?P t" using while_option_rule [of ?P ?b ?c 3 t] step start t by blast
  have stop: "n mod t = 0 \<or> n \<le> t * t" using while_option_stop [OF t] sq [of t] P by auto
  have "prime_size n \<longleftrightarrow> n mod t \<noteq> 0"
  proof (cases "n mod t = 0")
    case True
    then have "t dvd n" by (simp add: mod_eq_0_iff_dvd)
    moreover have "t \<noteq> n"
    proof
      assume "t = n"
      then have "(n - 2) * (n - 2) < n" using P assms(2) by auto
      moreover have "2 * (n - 2) \<le> (n - 2) * (n - 2)" using assms(2) by (intro mult_right_mono) auto
      ultimately have "2 * (n - 2) < n" by (rule le_less_trans [rotated])
      then show False using assms(2) by presburger
    qed
    ultimately have "1 < t" "t < n" "t dvd n" using P assms(2) zdvd_imp_le [of t n] by auto
    then show ?thesis using True by (auto simp: prime_size_def)
  next
    case False
    have "\<not> e dvd n" if e: "1 < e" "e < n" for e
    proof
      assume "e dvd n"
      then obtain f where f: "1 < f" "f \<le> t" "f dvd n"
        using small_factor [of n t e] stop False e P assms(2) by auto
      then have "f = t" using P by force
      then show False using f(3) False by (simp add: mod_eq_0_iff_dvd)
    qed
    then show ?thesis using False assms(2) by (auto simp: prime_size_def)
  qed
  then show ?thesis using t by (simp add: isprime_def)
qed

lemma next_prime_found:
  assumes "odd n" "3 < n" "n \<le> p" "odd p" "prime_size p" "p < 2147483648"
  shows "\<exists>m. next_prime n = Some m \<and> prime_size m \<and> n \<le> m \<and> m \<le> p"
proof -
  let ?b = "\<lambda>(n, q). q = Some False" and ?c = "\<lambda>(n :: int, _ :: bool option). (u32 (n + 2), isprime (u32 (n + 2)))"
  let ?P = "\<lambda>(k, q). odd k \<and> n \<le> k \<and> k \<le> p \<and> q = isprime k"
  have step: "?P (?c s) \<and> nat (p - fst (?c s)) < nat (p - fst s)" if s: "?P s" "?b s" for s
  proof -
    obtain k q where [simp]: "s = (k, q)" by (cases s)
    have k: "odd k" "n \<le> k" "k \<le> p" "\<not> prime_size k" using s isprime_exact [of k] assms(2,6) by auto
    then have "k \<noteq> p" using assms(5) by auto
    moreover have "k \<noteq> p - 1" using k(1) assms(4) by auto
    ultimately have "k + 2 \<le> p" using k(3) by linarith
    moreover have "u32 (k + 2) = k + 2" using k(2) assms(2,6) calculation by (intro u32_id) (auto simp: in_u32_def)
    ultimately show ?thesis using k by auto
  qed
  have start: "?P (n, isprime n)" using assms(1,3) by simp
  obtain m q where t: "while_option ?b ?c (n, isprime n) = Some (m, q)"
  proof -
    have "\<exists>t. while_option ?b ?c (n, isprime n) = Some t"
      by (rule measure_while_option_Some [where P = ?P and f = "\<lambda>s. nat (p - fst s)"]) (rule step, assumption+, simp add: assms(1,3))
    then show thesis using that by (auto simp: split_paired_all)
  qed
  have P: "?P (m, q)"
  proof (rule while_option_rule [where P = ?P, OF _ t start])
    fix s assume "?P s" "?b s"
    from step [OF this] show "?P (?c s)" by (rule conjunct1)
  qed
  have "isprime m \<noteq> Some False" using while_option_stop [OF t] P by simp
  then have "isprime m = Some True" "prime_size m" using isprime_exact [of m] P assms(2,6) by auto
  then show ?thesis using t P by (simp add: next_prime_def)
qed

lemma prime_521: "prime_size 521"
proof -
  have "isprime 521 = Some True" by code_simp
  then show ?thesis using isprime_exact [of 521] by simp
qed
section \<open>The probe sequence\<close>

lemma next_index_value:
  assumes "1 \<le> i" "i \<le> p" "1 \<le> h2" "h2 < p" "p < 2147483648"
  shows "next_index p h2 i = (if i \<le> h2 then p + i - h2 else i - h2)"
    and "1 \<le> next_index p h2 i" "next_index p h2 i \<le> p" "next_index p h2 i mod p = (i - h2) mod p"
proof -
  have "u32 (p + i) = p + i" "u32 (p + i - h2) = p + i - h2" "h2 < i \<Longrightarrow> u32 (i - h2) = i - h2"
    using assms by (auto intro!: u32_id simp: in_u32_def)
  then show v: "next_index p h2 i = (if i \<le> h2 then p + i - h2 else i - h2)" by (simp add: next_index_def)
  show "1 \<le> next_index p h2 i" "next_index p h2 i \<le> p" using v assms by auto
  have "p + i - h2 = (i - h2) + p" by simp
  then show "next_index p h2 i mod p = (i - h2) mod p" using v by (metis mod_add_self2)
qed

definition stride :: "int \<Rightarrow> cstr \<Rightarrow> int" where
  "stride p key = 1 + first_index p key mod (p - 2)"

definition pos :: "int \<Rightarrow> cstr \<Rightarrow> nat \<Rightarrow> int" where
  "pos p key n = (next_index p (stride p key) ^^ n) (first_index p key)"

definition good_size :: "int \<Rightarrow> bool" where
  "good_size p \<longleftrightarrow> prime_size p \<and> 3 < p \<and> p < 2147483648"

lemma first_index_range: "3 < p \<Longrightarrow> 1 \<le> first_index p key \<and> first_index p key < p"
  using pos_mod_bound [of p "hash_value key"] pos_mod_sign [of p "hash_value key"]
  by (auto simp: first_index_def Let_def simp del: pos_mod_bound pos_mod_sign)

lemma stride_range: "3 < p \<Longrightarrow> 1 \<le> stride p key \<and> stride p key < p"
  using pos_mod_bound [of "p - 2" "first_index p key"] pos_mod_sign [of "p - 2" "first_index p key"]
  by (auto simp: stride_def simp del: pos_mod_bound pos_mod_sign)

lemma pos_Suc: "pos p key (Suc n) = next_index p (stride p key) (pos p key n)"
  by (simp add: pos_def)

lemma pos_0: "pos p key 0 = first_index p key"
  by (simp add: pos_def)

lemma pos_range:
  assumes "good_size p"
  shows "1 \<le> pos p key n \<and> pos p key n \<le> p \<and> pos p key n mod p = (first_index p key - int n * stride p key) mod p"
proof (induction n)
  case 0
  then show ?case using assms first_index_range [of p key] by (auto simp: good_size_def pos_0)
next
  case (Suc n)
  have s: "3 < p" "p < 2147483648" using assms by (auto simp: good_size_def)
  note v = next_index_value [of "pos p key n" p "stride p key"]
  have "pos p key (Suc n) mod p = (pos p key n - stride p key) mod p"
    using v(4) Suc s stride_range [of p key] by (simp add: pos_Suc)
  also have "\<dots> = (first_index p key - int n * stride p key - stride p key) mod p"
    using Suc mod_diff_left_eq [of "pos p key n" p] mod_diff_left_eq [of "first_index p key - int n * stride p key" p] by metis
  finally show ?case using v(2,3) Suc s stride_range [of p key] by (simp add: pos_Suc algebra_simps)
qed

lemma stride_coprime: "good_size p \<Longrightarrow> coprime p (stride p key)"
proof -
  assume "good_size p"
  then have p: "prime_size p" "3 < p" by (auto simp: good_size_def)
  note s = stride_range [OF p(2), of key]
  have "gcd p (stride p key) \<le> stride p key" using s by (intro zdvd_imp_le) auto
  moreover have "gcd p (stride p key) dvd p" by simp
  moreover have "0 < gcd p (stride p key)" using s by simp
  ultimately have "\<not> 1 < gcd p (stride p key)" using p(1) s unfolding prime_size_def by (meson le_less_trans)
  then have "gcd p (stride p key) = 1" using \<open>0 < gcd p (stride p key)\<close> by linarith
  then show "coprime p (stride p key)" by (simp add: coprime_iff_gcd_eq_1)
qed

lemma pos_inj:
  assumes "good_size p" "n < nat p" "m < nat p" "pos p key n = pos p key m"
  shows "n = m"
proof -
  have "(first_index p key - int n * stride p key) mod p = (first_index p key - int m * stride p key) mod p"
    using pos_range [OF assms(1), of key] assms(4) by metis
  then have "p dvd (first_index p key - int n * stride p key) - (first_index p key - int m * stride p key)"
    by (simp only: mod_eq_dvd_iff)
  then have "p dvd (int m - int n) * stride p key" by (simp add: algebra_simps)
  then have "p dvd int m - int n" using stride_coprime [OF assms(1), of key] by (simp add: coprime_dvd_mult_left_iff)
  moreover have "\<bar>int m - int n\<bar> < p" using assms(2,3) by linarith
  ultimately have "int m - int n = 0" using zdvd_not_zless [of "\<bar>int m - int n\<bar>" p] by (cases "int m = int n") auto
  then show ?thesis by simp
qed

lemma pos_period:
  assumes "good_size p"
  shows "pos p key (nat p) = first_index p key"
proof -
  have p: "3 < p" using assms by (simp add: good_size_def)
  note r = pos_range [OF assms, of key "nat p"]
  have "pos p key (nat p) mod p = first_index p key mod p"
    using r p by (simp add: mod_diff_eq [symmetric, of _ "p * _"])
  moreover have "first_index p key mod p = first_index p key" using first_index_range [OF p, of key] by simp
  moreover have "pos p key (nat p) mod p = (if pos p key (nat p) = p then 0 else pos p key (nat p))"
    using r by auto
  ultimately show ?thesis using first_index_range [OF p, of key] by (auto split: if_splits)
qed

lemma pos_onto:
  assumes "good_size p"
  shows "pos p key ` {..<nat p} = {1..p}"
proof (rule card_subset_eq)
  show "pos p key ` {..<nat p} \<subseteq> {1..p}" using pos_range [OF assms, of key] by auto
  have "inj_on (pos p key) {..<nat p}" using pos_inj [OF assms] by (auto intro: inj_onI)
  then show "card (pos p key ` {..<nat p}) = card {1..p}" by (simp add: card_image)
qed simp
section \<open>The table as a map\<close>

text \<open>A bucket is in use; the keys of all buckets in use differ, and every one of them is reached from
  the first index of its key over buckets in use.\<close>

definition in_use :: "bucket list \<Rightarrow> int \<Rightarrow> bool" where
  "in_use t i \<longleftrightarrow> used (t ! nat i) \<noteq> 0"

definition placed :: "int \<Rightarrow> bucket list \<Rightarrow> int \<Rightarrow> bool" where
  "placed p t i \<longleftrightarrow>
     (\<exists>k d n. b_key (t ! nat i) = Some k \<and> b_data (t ! nat i) = Some d \<and> used (t ! nat i) = first_index p k \<and>
        n < nat p \<and> pos p k n = i \<and> (\<forall>m<n. in_use t (pos p k m)))"

definition ht_inv :: "hsearch_data \<Rightarrow> bool" where
  "ht_inv h \<longleftrightarrow>
     (\<exists>t. table h = Some t \<and> good_size (h_size h) \<and> int (length t) = h_size h + 1 \<and>
        filled h = int (card {i\<in>{1..h_size h}. in_use t i}) \<and>
        (\<forall>i\<in>{1..h_size h}. in_use t i \<longrightarrow> placed (h_size h) t i) \<and>
        (\<forall>i\<in>{1..h_size h}. \<forall>j\<in>{1..h_size h}. in_use t i \<longrightarrow> in_use t j \<longrightarrow> b_key (t ! nat i) = b_key (t ! nat j) \<longrightarrow> i = j))"

text \<open>The key has the value.\<close>

definition maps_to :: "hsearch_data \<Rightarrow> cstr \<Rightarrow> cstr \<Rightarrow> bool" where
  "maps_to h k d \<longleftrightarrow>
     (\<exists>t. table h = Some t \<and>
        (\<exists>i\<in>{1..h_size h}. in_use t i \<and> b_key (t ! nat i) = Some k \<and> b_data (t ! nat i) = Some d))"

text \<open>The loop passes a bucket in use that has another key.\<close>

definition passes :: "bucket list \<Rightarrow> cstr \<Rightarrow> int \<Rightarrow> bool" where
  "passes t key i \<longleftrightarrow> in_use t i \<and> b_key (t ! nat i) \<noteq> Some key"

lemma get_bucket_at: "int (length t) = p + 1 \<Longrightarrow> 1 \<le> i \<Longrightarrow> i \<le> p \<Longrightarrow> get_bucket t i = Some (t ! nat i)"
  by (simp add: get_bucket_def)

lemma bucket_is_placed:
  assumes "in_use t i \<longrightarrow> placed p t i" "3 < p"
  shows "bucket_is (t ! nat i) (first_index p key) key = Some (in_use t i \<and> b_key (t ! nat i) = Some key)"
proof (cases "in_use t i")
  case True
  then obtain k where "b_key (t ! nat i) = Some k" "used (t ! nat i) = first_index p k" using assms(1) by (auto simp: placed_def)
  then show ?thesis using True by (auto simp: bucket_is_def)
next
  case False
  then have "used (t ! nat i) \<noteq> first_index p key" using first_index_range [OF assms(2), of key] by (simp add: in_use_def)
  then show ?thesis using False by (simp add: bucket_is_def)
qed

lemma probe_from_step:
  "probe_from t p hval h2 key i =
   (case probe_step t p hval h2 key i of (j, st) \<Rightarrow> if st = Going then probe_from t p hval h2 key j else Some (j, st))"
proof -
  have "while_option (\<lambda>(_, st). st = Going) (\<lambda>(idx, _). probe_step t p hval h2 key idx) (j, st) = Some (j, st)"
    if "st \<noteq> Going" for j st using that by (subst while_option_unfold) simp
  then show ?thesis
    unfolding probe_from_def by (subst while_option_unfold) (auto split: prod.splits)
qed

definition search_end :: "bucket list \<Rightarrow> cstr \<Rightarrow> int \<Rightarrow> probe" where
  "search_end t key i = (if in_use t i then Matched else Vacant)"

lemma probe_one:
  assumes "good_size p" "int (length t) = p + 1" "\<forall>i\<in>{1..p}. in_use t i \<longrightarrow> placed p t i" "n < nat p"
  shows "probe_from t p (first_index p key) (stride p key) key (pos p key n) =
    (if Suc n = nat p then Some (first_index p key, Wrapped)
     else if passes t key (pos p key (Suc n)) then probe_from t p (first_index p key) (stride p key) key (pos p key (Suc n))
     else Some (pos p key (Suc n), search_end t key (pos p key (Suc n))))"
proof -
  have p3: "3 < p" using assms(1) by (simp add: good_size_def)
  have r: "1 \<le> pos p key (Suc n)" "pos p key (Suc n) \<le> p" using pos_range [OF assms(1), of key "Suc n"] by auto
  show ?thesis
  proof (cases "Suc n = nat p")
    case True
    then have "next_index p (stride p key) (pos p key n) = first_index p key"
      using pos_period [OF assms(1), of key] pos_Suc [of p key n] by simp
    then show ?thesis using True by (subst probe_from_step) (simp add: probe_step_def)
  next
    case False
    then have "pos p key (Suc n) \<noteq> first_index p key"
      using pos_inj [OF assms(1), of "Suc n" 0 key] assms(4) p3 by (auto simp: pos_0)
    then show ?thesis
      using False get_bucket_at [OF assms(2) r] bucket_is_placed [of t "pos p key (Suc n)" p key] assms(3) r p3
      by (subst probe_from_step) (auto simp: probe_step_def passes_def search_end_def in_use_def simp flip: pos_Suc split: bool.splits)
  qed
qed

lemma probe_stops:
  assumes "good_size p" "int (length t) = p + 1" "\<forall>i\<in>{1..p}. in_use t i \<longrightarrow> placed p t i"
    and "k < n" "n < nat p" "\<not> passes t key (pos p key n)" "\<forall>m. k < m \<longrightarrow> m < n \<longrightarrow> passes t key (pos p key m)"
  shows "probe_from t p (first_index p key) (stride p key) key (pos p key k) =
    Some (pos p key n, search_end t key (pos p key n))"
  using assms(4,7)
proof (induction "n - k" arbitrary: k)
  case (Suc d)
  show ?case
  proof (cases "Suc k = n")
    case True
    then show ?thesis using probe_one [OF assms(1-3), of k key] assms(5,6) by simp
  next
    case False
    then have "passes t key (pos p key (Suc k))" using Suc.prems by simp
    then show ?thesis using probe_one [OF assms(1-3), of k key] Suc.hyps(1) [of "Suc k"] Suc.hyps(2) Suc.prems False assms(5) by simp
  qed
qed simp

lemma probe_wraps:
  assumes "good_size p" "int (length t) = p + 1" "\<forall>i\<in>{1..p}. in_use t i \<longrightarrow> placed p t i"
    and "k < nat p" "\<forall>m. k < m \<longrightarrow> m < nat p \<longrightarrow> passes t key (pos p key m)"
  shows "probe_from t p (first_index p key) (stride p key) key (pos p key k) = Some (first_index p key, Wrapped)"
  using assms(4,5)
proof (induction "nat p - k" arbitrary: k)
  case (Suc d)
  then show ?case
    using probe_one [OF assms(1-3), of k key] Suc.hyps(1) [of "Suc k"] by (cases "Suc k = nat p") simp_all
qed simp

text \<open>The three ways a search ends.\<close>

lemma locate_cases:
  assumes "ht_inv h" "table h = Some t"
  obtains (found) i where "i \<in> {1..h_size h}" "in_use t i" "b_key (t ! nat i) = Some key" "locate h key = Some (i, Matched)"
  | (vacant) n where "n < nat (h_size h)" "\<not> in_use t (pos (h_size h) key n)" "\<forall>m<n. in_use t (pos (h_size h) key m)"
      "\<forall>i\<in>{1..h_size h}. in_use t i \<longrightarrow> b_key (t ! nat i) \<noteq> Some key" "locate h key = Some (pos (h_size h) key n, Vacant)"
  | (full) "\<forall>i\<in>{1..h_size h}. in_use t i \<and> b_key (t ! nat i) \<noteq> Some key" "locate h key = Some (first_index (h_size h) key, Wrapped)"
proof -
  let ?p = "h_size h"
  have g: "good_size ?p" and len: "int (length t) = ?p + 1" and pl: "\<forall>i\<in>{1..?p}. in_use t i \<longrightarrow> placed ?p t i"
    and uniq: "\<forall>i\<in>{1..?p}. \<forall>j\<in>{1..?p}. in_use t i \<longrightarrow> in_use t j \<longrightarrow> b_key (t ! nat i) = b_key (t ! nat j) \<longrightarrow> i = j"
    using assms by (auto simp: ht_inv_def)
  have p3: "3 < ?p" "?p < 2147483648" using g by (auto simp: good_size_def)
  have r: "pos ?p key n \<in> {1..?p}" for n using pos_range [OF g, of key n] by simp
  have u: "u32 (?p - 2) = ?p - 2" using p3 by (intro u32_id) (simp add: in_u32_def)
  have f0: "get_bucket t (first_index ?p key) = Some (t ! nat (first_index ?p key))"
    "bucket_is (t ! nat (first_index ?p key)) (first_index ?p key) key =
     Some (in_use t (first_index ?p key) \<and> b_key (t ! nat (first_index ?p key)) = Some key)"
    using get_bucket_at [OF len] bucket_is_placed [of t _ ?p key] pl r [of 0] p3 by (auto simp: pos_0)
  have loc: "locate h key =
    (if \<not> passes t key (pos ?p key 0) then Some (pos ?p key 0, search_end t key (pos ?p key 0))
     else probe_from t ?p (first_index ?p key) (stride ?p key) key (pos ?p key 0))"
    using assms(2) p3 f0 u by (auto simp: locate_def Let_def passes_def search_end_def in_use_def stride_def pos_0)
  show thesis
  proof (cases "\<exists>n<nat ?p. \<not> passes t key (pos ?p key n)")
    case True
    define n where "n = (LEAST n. n < nat ?p \<and> \<not> passes t key (pos ?p key n))"
    have n: "n < nat ?p" "\<not> passes t key (pos ?p key n)" using LeastI_ex [OF True] by (auto simp: n_def)
    have before: "passes t key (pos ?p key m)" if "m < n" for m
      using not_less_Least [of m "\<lambda>n. n < nat ?p \<and> \<not> passes t key (pos ?p key n)"] that n(1) by (auto simp: n_def)
    have l: "locate h key = Some (pos ?p key n, search_end t key (pos ?p key n))"
      using loc probe_stops [OF g len pl, of 0 n key] n before by (cases "n = 0") auto
    show thesis
    proof (cases "in_use t (pos ?p key n)")
      case True
      then show thesis using found [of "pos ?p key n"] l r n(2) by (auto simp: search_end_def passes_def)
    next
      case False
      have "b_key (t ! nat i) \<noteq> Some key" if i: "i \<in> {1..?p}" "in_use t i" for i
      proof
        assume k: "b_key (t ! nat i) = Some key"
        obtain j where j: "j < nat ?p" "pos ?p key j = i" "\<forall>m<j. in_use t (pos ?p key m)"
          using pl i k by (auto simp: placed_def)
        then have "j < n" using False i(2) by (metis nat_neq_iff)
        then show False using before [of j] j(2) k by (simp add: passes_def)
      qed
      then show thesis using vacant [of n] n before False l by (auto simp: search_end_def passes_def)
    qed
  next
    case False
    then have all: "\<forall>i\<in>{1..?p}. passes t key i" using pos_onto [OF g, of key] by (metis imageE lessThan_iff)
    have "locate h key = Some (first_index ?p key, Wrapped)"
      using loc probe_wraps [OF g len pl, of 0 key] all r p3 by simp
    then show thesis using full all by (auto simp: passes_def)
  qed
qed

lemma htD:
  assumes "ht_inv h"
  obtains t where "table h = Some t" "good_size (h_size h)" "int (length t) = h_size h + 1"
    "filled h = int (card {i\<in>{1..h_size h}. in_use t i})"
    "\<forall>i\<in>{1..h_size h}. in_use t i \<longrightarrow> placed (h_size h) t i"
    "\<forall>i\<in>{1..h_size h}. \<forall>j\<in>{1..h_size h}. in_use t i \<longrightarrow> in_use t j \<longrightarrow> b_key (t ! nat i) = b_key (t ! nat j) \<longrightarrow> i = j"
  using assms unfolding ht_inv_def by blast

lemma update_at:
  assumes "int (length t) = p + 1" "i \<in> {1..p}" "j \<in> {1..p}"
  shows "t[nat i := b] ! nat j = (if i = j then b else t ! nat j)"
  using assms by (auto simp: nth_list_update)

lemma in_use_update:
  assumes "int (length t) = p + 1" "i \<in> {1..p}" "j \<in> {1..p}"
  shows "in_use (t[nat i := b]) j = (if i = j then used b \<noteq> 0 else in_use t j)"
  using update_at [OF assms] by (simp add: in_use_def)

lemma placed_mono:
  assumes "good_size p" "placed p t j" "\<forall>i\<in>{1..p}. in_use t i \<longrightarrow> in_use t' i"
    and "b_key (t' ! nat j) = b_key (t ! nat j)" "used (t' ! nat j) = used (t ! nat j)" "b_data (t' ! nat j) \<noteq> None"
  shows "placed p t' j"
proof -
  obtain k d n where k: "b_key (t ! nat j) = Some k" "used (t ! nat j) = first_index p k" "n < nat p" "pos p k n = j"
    "\<forall>m<n. in_use t (pos p k m)" using assms(2) by (auto simp: placed_def)
  moreover obtain d' where "b_data (t' ! nat j) = Some d'" using assms(6) by blast
  moreover have "\<forall>m<n. in_use t' (pos p k m)" using k(5) assms(3) pos_range [OF assms(1), of k] by simp
  ultimately show ?thesis unfolding placed_def using assms(4,5) by (intro exI [of _ k] exI [of _ d'] exI [of _ n]) simp
qed

lemma ht_invI:
  assumes "table h = Some t" "good_size (h_size h)" "int (length t) = h_size h + 1"
    and "filled h = int (card {i\<in>{1..h_size h}. in_use t i})"
    and "\<And>i. i \<in> {1..h_size h} \<Longrightarrow> in_use t i \<Longrightarrow> placed (h_size h) t i"
    and "\<And>i j. i \<in> {1..h_size h} \<Longrightarrow> j \<in> {1..h_size h} \<Longrightarrow> in_use t i \<Longrightarrow> in_use t j \<Longrightarrow>
      b_key (t ! nat i) = b_key (t ! nat j) \<Longrightarrow> i = j"
  shows "ht_inv h"
  using assms unfolding ht_inv_def by blast

lemma maps_to_table:
  "table h = Some t \<Longrightarrow>
   maps_to h k d \<longleftrightarrow> (\<exists>i\<in>{1..h_size h}. in_use t i \<and> b_key (t ! nat i) = Some k \<and> b_data (t ! nat i) = Some d)"
  by (simp add: maps_to_def)

text \<open>Writing the entry of a key at the end of its search, be it the old entry of the key or a free bucket.\<close>

definition goes_to :: "int \<Rightarrow> bucket list \<Rightarrow> cstr \<Rightarrow> int \<Rightarrow> bool" where
  "goes_to p t k i \<longleftrightarrow>
     (\<exists>n<nat p. pos p k n = i \<and> (\<forall>m<n. in_use t (pos p k m))) \<and>
     (in_use t i \<longrightarrow> b_key (t ! nat i) = Some k) \<and> (\<forall>j\<in>{1..p}. in_use t j \<longrightarrow> b_key (t ! nat j) = Some k \<longrightarrow> j = i)"

definition entry_at :: "hsearch_data \<Rightarrow> int \<Rightarrow> cstr \<Rightarrow> cstr \<Rightarrow> hsearch_data" where
  "entry_at h i k v = put_bucket h i \<lparr>used = first_index (h_size h) k, b_key = Some k, b_data = Some v\<rparr>"

lemma goes_to_range: "good_size p \<Longrightarrow> goes_to p t k i \<Longrightarrow> i \<in> {1..p}"
  using pos_range by (auto simp: goes_to_def)

lemma entry_at_table:
  assumes "good_size (h_size h)" "table h = Some t" "int (length t) = h_size h + 1" "i \<in> {1..h_size h}"
  obtains t' where "table (entry_at h i k v) = Some t'" "int (length t') = h_size h + 1"
    "\<And>j. j \<in> {1..h_size h} \<Longrightarrow> in_use t' j \<longleftrightarrow> j = i \<or> in_use t j"
    "t' ! nat i = \<lparr>used = first_index (h_size h) k, b_key = Some k, b_data = Some v\<rparr>"
    "\<And>j. j \<in> {1..h_size h} \<Longrightarrow> j \<noteq> i \<Longrightarrow> t' ! nat j = t ! nat j"
proof
  let ?b = "\<lparr>used = first_index (h_size h) k, b_key = Some k, b_data = Some v\<rparr>"
  let ?t = "t[nat i := ?b]"
  show "table (entry_at h i k v) = Some ?t" using assms(2) by (simp add: entry_at_def put_bucket_def)
  show "int (length ?t) = h_size h + 1" using assms(3) by simp
  show "?t ! nat i = ?b" using update_at [OF assms(3,4,4), of ?b] by simp
  fix j assume j: "j \<in> {1..h_size h}"
  have "first_index (h_size h) k \<noteq> 0" using first_index_range [of "h_size h" k] assms(1) by (auto simp: good_size_def)
  then show "in_use ?t j \<longleftrightarrow> j = i \<or> in_use t j" using in_use_update [OF assms(3,4) j, of ?b] by auto
  show "j \<noteq> i \<Longrightarrow> ?t ! nat j = t ! nat j" using update_at [OF assms(3,4) j, of ?b] by simp
qed

lemma entry_at_inv:
  assumes "ht_inv h" "table h = Some t" "goes_to (h_size h) t k i"
  shows "ht_inv ((entry_at h i k v)\<lparr>filled := filled h + (if in_use t i then 0 else 1)\<rparr>)"
proof -
  let ?p = "h_size h" and ?h = "(entry_at h i k v)\<lparr>filled := filled h + (if in_use t i then 0 else 1)\<rparr>"
  obtain g: "good_size ?p" and len: "int (length t) = ?p + 1" and fl: "filled h = int (card {i\<in>{1..?p}. in_use t i})"
    and pl: "\<forall>i\<in>{1..?p}. in_use t i \<longrightarrow> placed ?p t i"
    and uq: "\<forall>i\<in>{1..?p}. \<forall>j\<in>{1..?p}. in_use t i \<longrightarrow> in_use t j \<longrightarrow> b_key (t ! nat i) = b_key (t ! nat j) \<longrightarrow> i = j"
    by (rule htD [OF assms(1)]) (use assms(2) in \<open>simp del: atLeastAtMost_iff\<close>)
  have i: "i \<in> {1..?p}" using goes_to_range [OF g assms(3)] .
  obtain t' where t': "table (entry_at h i k v) = Some t'" and len': "int (length t') = ?p + 1"
    and use: "\<And>j. j \<in> {1..?p} \<Longrightarrow> in_use t' j \<longleftrightarrow> j = i \<or> in_use t j"
    and ti: "t' ! nat i = \<lparr>used = first_index ?p k, b_key = Some k, b_data = Some v\<rparr>"
    and tj: "\<And>j. j \<in> {1..?p} \<Longrightarrow> j \<noteq> i \<Longrightarrow> t' ! nat j = t ! nat j"
    using entry_at_table [OF g assms(2) len i, of k v] by blast
  have sz: "h_size (entry_at h i k v) = ?p" by (simp add: entry_at_def put_bucket_def)
  have ok: "placed ?p t' j" if j: "j \<in> {1..?p}" "in_use t' j" for j
  proof (cases "j = i")
    case True
    obtain n where n: "n < nat ?p" "pos ?p k n = i" "\<forall>m<n. in_use t (pos ?p k m)" using assms(3) by (auto simp: goes_to_def)
    have "\<forall>m<n. in_use t' (pos ?p k m)" using n(3) use pos_range [OF g, of k] by auto
    then show ?thesis unfolding placed_def True using ti n by auto
  next
    case False
    then have "placed ?p t j" using pl use j by blast
    then show ?thesis using placed_mono [OF g, of t j t'] use tj [OF j(1) False] by (simp add: placed_def) blast
  qed
  have key: "b_key (t' ! nat x) = Some k \<longleftrightarrow> x = i" if "x \<in> {1..?p}" "in_use t' x" for x
    using that use tj [of x] ti assms(3) by (cases "x = i") (auto simp: goes_to_def)
  have one: "x = y" if xy: "x \<in> {1..?p}" "y \<in> {1..?p}" "in_use t' x" "in_use t' y" "b_key (t' ! nat x) = b_key (t' ! nat y)" for x y
  proof (cases "x = i \<or> y = i")
    case True
    then show ?thesis using key [OF xy(1,3)] key [OF xy(2,4)] xy(5) by auto
  next
    case False
    then show ?thesis using uq [rule_format, OF xy(1,2)] use xy tj by simp
  qed
  have "{j\<in>{1..?p}. in_use t' j} = insert i {j\<in>{1..?p}. in_use t j}" using use i by blast
  then have fl': "filled ?h = int (card {j\<in>{1..?p}. in_use t' j})" using fl i by (simp add: card_insert_if del: atLeastAtMost_iff)
  have h: "table ?h = Some t'" "h_size ?h = ?p" using t' sz by simp_all
  show ?thesis by (rule ht_invI [of _ t'], unfold h) ((rule refl g len' fl')+, (rule ok, assumption+), (rule one, assumption+))
qed

lemma entry_at_maps:
  assumes "ht_inv h" "table h = Some t" "goes_to (h_size h) t k i"
  shows "maps_to (entry_at h i k v) k' d \<longleftrightarrow> (if k' = k then d = v else maps_to h k' d)"
proof -
  let ?p = "h_size h"
  obtain g: "good_size ?p" and len: "int (length t) = ?p + 1" by (rule htD [OF assms(1)]) (use assms(2) in \<open>simp del: atLeastAtMost_iff\<close>)
  have i: "i \<in> {1..?p}" using goes_to_range [OF g assms(3)] .
  obtain t' where t': "table (entry_at h i k v) = Some t'" and len': "int (length t') = ?p + 1"
    and use: "\<And>j. j \<in> {1..?p} \<Longrightarrow> in_use t' j \<longleftrightarrow> j = i \<or> in_use t j"
    and ti: "t' ! nat i = \<lparr>used = first_index ?p k, b_key = Some k, b_data = Some v\<rparr>"
    and tj: "\<And>j. j \<in> {1..?p} \<Longrightarrow> j \<noteq> i \<Longrightarrow> t' ! nat j = t ! nat j"
    using entry_at_table [OF g assms(2) len i, of k v] by blast
  have sz: "h_size (entry_at h i k v) = ?p" by (simp add: entry_at_def put_bucket_def)
  have at: "in_use t' j \<and> b_key (t' ! nat j) = Some k' \<and> b_data (t' ! nat j) = Some d \<longleftrightarrow>
      (if j = i then k' = k \<and> d = v else k' \<noteq> k \<and> in_use t j \<and> b_key (t ! nat j) = Some k' \<and> b_data (t ! nat j) = Some d)"
    if "j \<in> {1..?p}" for j
    using that use [OF that] ti tj [OF that] assms(3) by (cases "j = i") (auto simp: goes_to_def)
  have out: "k' \<noteq> k \<Longrightarrow> in_use t i \<Longrightarrow> b_key (t ! nat i) \<noteq> Some k'" using assms(3) by (auto simp: goes_to_def)
  have "maps_to (entry_at h i k v) k' d \<longleftrightarrow> (\<exists>j\<in>{1..?p}. if j = i then k' = k \<and> d = v
      else k' \<noteq> k \<and> in_use t j \<and> b_key (t ! nat j) = Some k' \<and> b_data (t ! nat j) = Some d)"
    unfolding maps_to_table [OF t'] sz using at by (rule bex_cong [OF refl])
  also have "\<dots> \<longleftrightarrow> (if k' = k then d = v else maps_to h k' d)"
  proof (cases "k' = k")
    case False
    then have "j = i \<Longrightarrow> \<not> (in_use t j \<and> b_key (t ! nat j) = Some k' \<and> b_data (t ! nat j) = Some d)" for j using out by blast
    then show ?thesis unfolding maps_to_table [OF assms(2)] using False by (simp del: atLeastAtMost_iff) metis
  qed (use i in \<open>auto simp del: atLeastAtMost_iff\<close>)
  finally show ?thesis .
qed

subsection \<open>The entries as a list and as a map\<close>

definition used_entries :: "hsearch_data \<Rightarrow> (cstr \<times> cstr) list" where
  "used_entries h =
     (case table h of
        None \<Rightarrow> []
      | Some t \<Rightarrow> map (\<lambda>b. (the (b_key b), the (b_data b))) (filter (\<lambda>b. used b \<noteq> 0) (take (nat (h_size h)) (tl t))))"

definition lookup :: "hsearch_data \<Rightarrow> cstr \<Rightarrow> cstr option" where
  "lookup h = map_of (used_entries h)"

lemma distinct_map_filter_nth:
  "(\<And>i j. i < length xs \<Longrightarrow> j < length xs \<Longrightarrow> P (xs ! i) \<Longrightarrow> P (xs ! j) \<Longrightarrow> f (xs ! i) = f (xs ! j) \<Longrightarrow> i = j) \<Longrightarrow>
   distinct (map f (filter P xs))"
proof (induction xs)
  case (Cons x xs)
  have "distinct (map f (filter P xs))"
  proof (rule Cons.IH)
    fix i j assume "i < length xs" "j < length xs" "P (xs ! i)" "P (xs ! j)" "f (xs ! i) = f (xs ! j)"
    then show "i = j" using Cons.prems [of "Suc i" "Suc j"] by simp
  qed
  moreover have "f x \<notin> f ` set (filter P xs)" if "P x"
  proof
    assume "f x \<in> f ` set (filter P xs)"
    then obtain j where "j < length xs" "P (xs ! j)" "f x = f (xs ! j)" by (auto simp: in_set_conv_nth)
    then show False using Cons.prems [of 0 "Suc j"] that by simp
  qed
  ultimately show ?case by simp
qed simp

lemma table_tl:
  assumes "int (length t) = p + 1" "0 \<le> p"
  shows "take (nat p) (tl t) = tl t" "length (tl t) = nat p" "\<And>n. n < nat p \<Longrightarrow> tl t ! n = t ! nat (int n + 1)"
  using assms by (auto simp: nth_tl nat_add_distrib)

lemma set_used_entries:
  assumes "ht_inv h"
  shows "(k, d) \<in> set (used_entries h) \<longleftrightarrow> maps_to h k d"
proof -
  let ?p = "h_size h"
  obtain t where t: "table h = Some t" "good_size ?p" "int (length t) = ?p + 1"
    and pl: "\<forall>i\<in>{1..?p}. in_use t i \<longrightarrow> placed ?p t i" by (rule htD [OF assms])
  have "0 \<le> ?p" using t(2) by (simp add: good_size_def)
  note tl = table_tl [OF t(3) this]
  have ent: "k = the (b_key (t ! nat i)) \<and> d = the (b_data (t ! nat i)) \<longleftrightarrow> b_key (t ! nat i) = Some k \<and> b_data (t ! nat i) = Some d"
    if "i \<in> {1..?p}" "in_use t i" for i
    using pl [rule_format, OF that] by (auto simp: placed_def)
  have "(k, d) \<in> set (used_entries h) \<longleftrightarrow>
      (\<exists>n<nat ?p. in_use t (int n + 1) \<and> k = the (b_key (t ! nat (int n + 1))) \<and> d = the (b_data (t ! nat (int n + 1))))"
    unfolding used_entries_def t(1) using tl by (fastforce simp: in_set_conv_nth in_use_def image_iff)
  also have "\<dots> \<longleftrightarrow> (\<exists>i\<in>{1..?p}. in_use t i \<and> k = the (b_key (t ! nat i)) \<and> d = the (b_data (t ! nat i)))"
  proof
    assume "\<exists>i\<in>{1..?p}. in_use t i \<and> k = the (b_key (t ! nat i)) \<and> d = the (b_data (t ! nat i))"
    then obtain i where "i \<in> {1..?p}" "in_use t i \<and> k = the (b_key (t ! nat i)) \<and> d = the (b_data (t ! nat i))" by blast
    then show "\<exists>n<nat ?p. in_use t (int n + 1) \<and> k = the (b_key (t ! nat (int n + 1))) \<and> d = the (b_data (t ! nat (int n + 1)))"
      by (intro exI [of _ "nat (i - 1)"]) auto
  qed (auto intro!: bexI [of _ "int _ + 1"])
  also have "\<dots> \<longleftrightarrow> maps_to h k d" unfolding maps_to_table [OF t(1)] using ent by blast
  finally show ?thesis .
qed

lemma distinct_used_entries:
  assumes "ht_inv h"
  shows "distinct (map fst (used_entries h))"
proof -
  let ?p = "h_size h"
  obtain t where t: "table h = Some t" "good_size ?p" "int (length t) = ?p + 1"
    and pl: "\<forall>i\<in>{1..?p}. in_use t i \<longrightarrow> placed ?p t i"
    and uq: "\<forall>i\<in>{1..?p}. \<forall>j\<in>{1..?p}. in_use t i \<longrightarrow> in_use t j \<longrightarrow> b_key (t ! nat i) = b_key (t ! nat j) \<longrightarrow> i = j"
    by (rule htD [OF assms])
  have "0 \<le> ?p" using t(2) by (simp add: good_size_def)
  note tl = table_tl [OF t(3) this]
  have "distinct (map (\<lambda>b. the (b_key b)) (filter (\<lambda>b. used b \<noteq> 0) (tl t)))"
  proof (rule distinct_map_filter_nth)
    fix i j
    assume "i < length (tl t)" "j < length (tl t)" and u: "used (tl t ! i) \<noteq> 0" "used (tl t ! j) \<noteq> 0"
      and eq: "the (b_key (tl t ! i)) = the (b_key (tl t ! j))"
    then have ij: "i < nat ?p" "j < nat ?p" using tl(2) by simp_all
    then have r: "int i + 1 \<in> {1..?p}" "int j + 1 \<in> {1..?p}" by auto
    have use: "in_use t (int i + 1)" "in_use t (int j + 1)" using u tl(3) ij by (simp_all add: in_use_def)
    have "b_key (t ! nat (int i + 1)) = b_key (t ! nat (int j + 1))"
      using pl [rule_format, OF r(1) use(1)] pl [rule_format, OF r(2) use(2)] eq tl(3) ij by (auto simp: placed_def)
    then have "int i + 1 = int j + 1" using uq [rule_format, OF r use] by blast
    then show "i = j" by simp
  qed
  then show ?thesis using t(1) tl(1) by (simp add: used_entries_def comp_def)
qed

lemma lookup_maps_to: "ht_inv h \<Longrightarrow> lookup h k = Some d \<longleftrightarrow> maps_to h k d"
  using set_used_entries [of h k d] distinct_used_entries [of h] by (simp add: lookup_def)

lemma lookup_eqI: "ht_inv h \<Longrightarrow> (\<And>k d. maps_to h k d \<longleftrightarrow> f k = Some d) \<Longrightarrow> lookup h = f"
  using lookup_maps_to by (metis ext option.exhaust)

subsection \<open>Entering and finding\<close>

lemma locate_goes_to:
  assumes "ht_inv h" "table h = Some t"
  obtains (at) i where "locate h k = Some (i, if in_use t i then Matched else Vacant)" "goes_to (h_size h) t k i"
  | (full) "\<forall>i\<in>{1..h_size h}. in_use t i \<and> b_key (t ! nat i) \<noteq> Some k" "locate h k = Some (first_index (h_size h) k, Wrapped)"
  using assms
proof (cases rule: locate_cases [where key = k])
  case (found i)
  let ?p = "h_size h"
  obtain t2 where "table h = Some t2" and pl: "\<forall>i\<in>{1..?p}. in_use t2 i \<longrightarrow> placed ?p t2 i"
    and uq: "\<forall>i\<in>{1..?p}. \<forall>j\<in>{1..?p}. in_use t2 i \<longrightarrow> in_use t2 j \<longrightarrow> b_key (t2 ! nat i) = b_key (t2 ! nat j) \<longrightarrow> i = j"
    by (rule htD [OF assms(1)])
  then have [simp]: "t2 = t" using assms(2) by simp
  have "\<exists>n<nat ?p. pos ?p k n = i \<and> (\<forall>m<n. in_use t (pos ?p k m))"
    using pl [simplified \<open>t2 = t\<close>, rule_format, OF found(1,2)] found(3) unfolding placed_def by auto
  moreover have "j = i" if "j \<in> {1..?p}" "in_use t j" "b_key (t ! nat j) = Some k" for j
    using uq [simplified \<open>t2 = t\<close>, rule_format, OF that(1) found(1) that(2) found(2)] that(3) found(3) by simp
  ultimately have "goes_to ?p t k i" using found(3) unfolding goes_to_def by blast
  then show thesis using at found(2,4) by simp
next
  case (vacant n)
  then have "goes_to (h_size h) t k (pos (h_size h) k n)" unfolding goes_to_def by blast
  then show thesis using at vacant(2,5) by simp
qed (use full in blast)

lemma in_use_data:
  assumes "ht_inv h" "table h = Some t" "i \<in> {1..h_size h}" "in_use t i"
  obtains d where "b_data (t ! nat i) = Some d"
proof -
  obtain "\<forall>i\<in>{1..h_size h}. in_use t i \<longrightarrow> placed (h_size h) t i"
    by (rule htD [OF assms(1)]) (use assms(2) in \<open>simp del: atLeastAtMost_iff\<close>)
  then have "placed (h_size h) t i" using assms(3,4) by blast
  then show thesis using that unfolding placed_def by blast
qed

lemma lookup_goes_to:
  assumes "ht_inv h" "table h = Some t" "goes_to (h_size h) t k i"
  shows "lookup h k = (if in_use t i then b_data (t ! nat i) else None)"
proof -
  let ?p = "h_size h"
  obtain g: "good_size ?p" by (rule htD [OF assms(1)])
  note i = goes_to_range [OF g assms(3)]
  have only: "j = i" "b_key (t ! nat i) = Some k" if "j \<in> {1..?p}" "in_use t j" "b_key (t ! nat j) = Some k" for j
    using assms(3) that unfolding goes_to_def by blast+
  have m: "maps_to h k d \<longleftrightarrow> in_use t i \<and> b_data (t ! nat i) = Some d" for d
    unfolding maps_to_table [OF assms(2)] using only i assms(3) unfolding goes_to_def by blast
  show ?thesis
  proof (cases "in_use t i")
    case True
    then obtain d where "b_data (t ! nat i) = Some d" using in_use_data [OF assms(1,2) i] by blast
    then show ?thesis using True m [of d] lookup_maps_to [OF assms(1), of k d] by simp
  next
    case False
    then have "lookup h k \<noteq> Some d" for d using m [of d] lookup_maps_to [OF assms(1), of k d] by simp
    then show ?thesis using False by (cases "lookup h k") auto
  qed
qed

lemma filled_full:
  assumes "ht_inv h" "table h = Some t"
  shows "filled h \<le> h_size h" "filled h = h_size h \<longleftrightarrow> (\<forall>i\<in>{1..h_size h}. in_use t i)"
proof -
  let ?p = "h_size h" and ?U = "{i\<in>{1..h_size h}. in_use t i}"
  obtain fl: "filled h = int (card ?U)" and g: "good_size ?p" by (rule htD [OF assms(1)]) (use assms(2) in \<open>simp del: atLeastAtMost_iff\<close>)
  have c: "int (card {1..?p}) = ?p" "?U \<subseteq> {1..?p}" using g by (auto simp: good_size_def)
  have "card ?U \<le> card {1..?p}" by (rule card_mono [OF _ c(2)]) simp
  then show "filled h \<le> ?p" unfolding fl using c(1) by linarith
  have "filled h = ?p \<longleftrightarrow> card ?U = card {1..?p}" unfolding fl using c(1) by linarith
  also have "\<dots> \<longleftrightarrow> ?U = {1..?p}"
    using card_subset_eq [OF finite_atLeastAtMost_int c(2)] by (intro iffI arg_cong [of _ _ card])
  finally show "filled h = ?p \<longleftrightarrow> (\<forall>i\<in>{1..?p}. in_use t i)" by blast
qed

lemma full_absent:
  assumes "ht_inv h" "table h = Some t" "\<forall>i\<in>{1..h_size h}. in_use t i \<and> b_key (t ! nat i) \<noteq> Some k"
  shows "lookup h k = None" "filled h = h_size h"
proof -
  have "\<not> maps_to h k d" for d unfolding maps_to_table [OF assms(2)] using assms(3) by blast
  then have "lookup h k \<noteq> Some d" for d using lookup_maps_to [OF assms(1), of k d] by simp
  then show "lookup h k = None" by (cases "lookup h k") auto
  show "filled h = h_size h" using filled_full(2) [OF assms(1,2)] assms(3) by blast
qed

lemma hsearch_find:
  assumes "ht_inv h"
  shows "hsearch_r strdup free hp \<lparr>e_key = k, e_data = x\<rparr> FIND h =
    Some (if lookup h k = None then \<lparr>ret = 0, retval = None, errno = Some ESRCH\<rparr>
      else \<lparr>ret = fst (the (locate h k)), retval = Some (fst (the (locate h k))), errno = None\<rparr>, h, hp)"
    and "lookup h k \<noteq> None \<Longrightarrow> \<exists>t i. table h = Some t \<and> locate h k = Some (i, Matched) \<and> 1 \<le> i \<and> i \<le> h_size h \<and>
      int (length t) = h_size h + 1 \<and> in_use t i \<and> b_key (t ! nat i) = Some k \<and> b_data (t ! nat i) = lookup h k"
proof -
  obtain t where t: "table h = Some t" "good_size (h_size h)" "int (length t) = h_size h + 1" by (rule htD [OF assms])
  note g = goes_to_range [OF t(2)]
  show "hsearch_r strdup free hp \<lparr>e_key = k, e_data = x\<rparr> FIND h =
    Some (if lookup h k = None then \<lparr>ret = 0, retval = None, errno = Some ESRCH\<rparr>
      else \<lparr>ret = fst (the (locate h k)), retval = Some (fst (the (locate h k))), errno = None\<rparr>, h, hp)"
    using assms t(1)
  proof (cases rule: locate_goes_to [where k = k])
    case (at i)
    have "in_use t i \<Longrightarrow> b_data (t ! nat i) \<noteq> None"
      using in_use_data [OF assms t(1) g [OF at(2)]] by auto
    then show ?thesis using at lookup_goes_to [OF assms t(1) at(2)] t(1) by (auto simp: hsearch_r_def found_entry_def)
  next
    case full
    then show ?thesis using full_absent(1) [OF assms t(1) full(1)] t(1) by (simp add: hsearch_r_def)
  qed
  show "\<exists>t i. table h = Some t \<and> locate h k = Some (i, Matched) \<and> 1 \<le> i \<and> i \<le> h_size h \<and>
      int (length t) = h_size h + 1 \<and> in_use t i \<and> b_key (t ! nat i) = Some k \<and> b_data (t ! nat i) = lookup h k"
    if "lookup h k \<noteq> None"
    using assms t(1)
  proof (cases rule: locate_goes_to [where k = k])
    case (at i)
    have u: "in_use t i" using that lookup_goes_to [OF assms t(1) at(2)] by (simp split: if_splits)
    then have "b_key (t ! nat i) = Some k" "b_data (t ! nat i) = lookup h k"
      using at(2) lookup_goes_to [OF assms t(1) at(2)] unfolding goes_to_def by simp_all
    then show ?thesis using at(1) u g [OF at(2)] t(1,3) by (intro exI [of _ t] exI [of _ i]) simp
  next
    case full
    then show ?thesis using full_absent(1) [OF assms t(1) full(1)] that by simp
  qed
qed

text \<open>A heap that does not run out of memory.\<close>

definition reliable :: "'h strdup_fn \<Rightarrow> bool" where
  "reliable strdup \<longleftrightarrow> (\<forall>hp s. fst (strdup hp s) = Some s)"

lemma entry_at_result:
  assumes "ht_inv h" "table h = Some t" "goes_to (h_size h) t k i" "h' = (entry_at h i k v)\<lparr>filled := filled h + (if in_use t i then 0 else 1)\<rparr>"
  shows "ht_inv h'" "lookup h' = (lookup h)(k \<mapsto> v)" "h_size h' = h_size h" "filled h' = filled h + (if lookup h k = None then 1 else 0)"
    "table h' = map_option (\<lambda>t. t[nat i := \<lparr>used = first_index (h_size h) k, b_key = Some k, b_data = Some v\<rparr>]) (table h)"
proof -
  obtain g: "good_size (h_size h)" by (rule htD [OF assms(1)])
  show inv: "ht_inv h'" unfolding assms(4) by (rule entry_at_inv [OF assms(1-3)])
  have m: "maps_to h' k' d \<longleftrightarrow> maps_to (entry_at h i k v) k' d" for k' d using assms(4) by (simp add: maps_to_def)
  show "lookup h' = (lookup h)(k \<mapsto> v)"
  proof (rule lookup_eqI [OF inv])
    fix k' d
    show "maps_to h' k' d \<longleftrightarrow> ((lookup h)(k \<mapsto> v)) k' = Some d"
      unfolding m entry_at_maps [OF assms(1-3)] using lookup_maps_to [OF assms(1), of k' d] by auto
  qed
  show "h_size h' = h_size h" using assms(4) by (simp add: entry_at_def put_bucket_def)
  have "lookup h k = None \<longleftrightarrow> \<not> in_use t i"
    using lookup_goes_to [OF assms(1-3)] in_use_data [OF assms(1,2) goes_to_range [OF g assms(3)]] by auto
  then show "filled h' = filled h + (if lookup h k = None then 1 else 0)" using assms(4) by simp
  show "table h' = map_option (\<lambda>t. t[nat i := \<lparr>used = first_index (h_size h) k, b_key = Some k, b_data = Some v\<rparr>]) (table h)"
    using assms(4) by (simp add: entry_at_def put_bucket_def)
qed

lemma found_entry_at:
  assumes "reliable strdup" "b_key b = Some k" "used b = first_index (h_size h) k"
  shows "\<exists>hp'. found_entry strdup free hp \<lparr>e_key = k, e_data = Some v\<rparr> ENTER h i b =
    (\<lparr>ret = i, retval = Some i, errno = None\<rparr>, (entry_at h i k v)\<lparr>filled := filled h\<rparr>, hp')"
proof -
  obtain hp' where s: "strdup (free hp (b_data b)) v = (Some v, hp')" using assms(1) by (metis prod.collapse reliable_def)
  have "b\<lparr>b_data := Some v\<rparr> = \<lparr>used = first_index (h_size h) k, b_key = Some k, b_data = Some v\<rparr>" using assms(2,3) by simp
  then show ?thesis using s by (simp add: found_entry_def strdup_ptr_def entry_at_def put_bucket_def)
qed

lemma new_entry_at:
  assumes "reliable strdup" "filled h < h_size h" "0 \<le> filled h" "h_size h < 2147483648"
  shows "\<exists>hp'. new_entry strdup hp \<lparr>e_key = k, e_data = Some v\<rparr> h i =
    (\<lparr>ret = 1, retval = Some i, errno = None\<rparr>, (entry_at h i k v)\<lparr>filled := filled h + 1\<rparr>, hp')"
proof -
  obtain hp1 where k: "strdup hp k = (Some k, hp1)" using assms(1) by (metis prod.collapse reliable_def)
  obtain hp2 where v: "strdup hp1 v = (Some v, hp2)" using assms(1) by (metis prod.collapse reliable_def)
  have "u32 (filled h + 1) = filled h + 1" using assms(2-4) by (intro u32_id) (simp add: in_u32_def)
  then show ?thesis using k v assms(2) by (simp add: new_entry_def strdup_ptr_def entry_at_def put_bucket_def)
qed

definition same_or_added :: "hsearch_data \<Rightarrow> cstr \<Rightarrow> cstr \<Rightarrow> hresult \<Rightarrow> hsearch_data \<Rightarrow> bool" where
  "same_or_added h k v r h' \<longleftrightarrow>
     (if lookup h k = None \<and> filled h = h_size h
      then ret r = 0 \<and> retval r = None \<and> errno r = Some ENOMEM \<and> h' = h
      else ret r \<noteq> 0 \<and> errno r = None \<and> lookup h' = (lookup h)(k \<mapsto> v) \<and>
        filled h' = filled h + (if lookup h k = None then 1 else 0) \<and>
        (\<exists>t i. table h' = Some t \<and> retval r = Some i \<and> b_key (t ! nat i) = Some k \<and> b_data (t ! nat i) = Some v))"

lemma hsearch_enter:
  assumes "ht_inv h" "reliable strdup"
  shows "\<exists>r h' hp'. hsearch_r strdup free hp \<lparr>e_key = k, e_data = Some v\<rparr> ENTER h = Some (r, h', hp') \<and>
    ht_inv h' \<and> h_size h' = h_size h \<and> same_or_added h k v r h'"
proof -
  obtain t where t: "table h = Some t" "good_size (h_size h)" "int (length t) = h_size h + 1"
    and fl: "filled h = int (card {i\<in>{1..h_size h}. in_use t i})"
    and pl: "\<forall>i\<in>{1..h_size h}. in_use t i \<longrightarrow> placed (h_size h) t i" by (rule htD [OF assms(1)])
  show ?thesis
    using assms(1) t(1)
  proof (cases rule: locate_goes_to [where k = k])
    case (at i)
    note i = goes_to_range [OF t(2) at(2)]
    define h' where "h' = (entry_at h i k v)\<lparr>filled := filled h + (if in_use t i then 0 else 1)\<rparr>"
    note r = entry_at_result [OF assms(1) t(1) at(2) h'_def]
    have none: "lookup h k = None \<longleftrightarrow> \<not> in_use t i"
      using lookup_goes_to [OF assms(1) t(1) at(2)] in_use_data [OF assms(1) t(1) i] by auto
    have pre: "same_or_added h k v \<lparr>ret = x, retval = Some i, errno = None\<rparr> h'" if "x \<noteq> 0" "in_use t i \<or> filled h \<noteq> h_size h" for x
      unfolding same_or_added_def using that none r i t(3) by (auto simp: t(1))
    have "\<exists>x hp'. hsearch_r strdup free hp \<lparr>e_key = k, e_data = Some v\<rparr> ENTER h =
        Some (\<lparr>ret = x, retval = Some i, errno = None\<rparr>, h', hp') \<and> x \<noteq> 0 \<and> (in_use t i \<or> filled h \<noteq> h_size h)"
    proof (cases "in_use t i")
      case True
      then have "b_key (t ! nat i) = Some k" using at(2) by (simp add: goes_to_def)
      moreover have "used (t ! nat i) = first_index (h_size h) k" using calculation pl True i unfolding placed_def by fastforce
      ultimately obtain hp' where "found_entry strdup free hp \<lparr>e_key = k, e_data = Some v\<rparr> ENTER h i (t ! nat i) =
          (\<lparr>ret = i, retval = Some i, errno = None\<rparr>, h', hp')"
        using found_entry_at [OF assms(2)] True unfolding h'_def by fastforce
      then show ?thesis using True at(1) t(1) i by (simp add: hsearch_r_def)
    next
      case False
      have less: "filled h < h_size h" using filled_full [OF assms(1) t(1)] False i by (meson order_le_imp_less_or_eq)
      then obtain hp' where "new_entry strdup hp \<lparr>e_key = k, e_data = Some v\<rparr> h i =
          (\<lparr>ret = 1, retval = Some i, errno = None\<rparr>, h', hp')"
        using new_entry_at [OF assms(2) less] fl t(2) False unfolding h'_def good_size_def by fastforce
      then show ?thesis using False at(1) t(1) less by (simp add: hsearch_r_def)
    qed
    then show ?thesis using pre r(1,3) by blast
  next
    case full
    note a = full_absent [OF assms(1) t(1) full(1)]
    then show ?thesis using full(2) t(1) assms(1) by (simp add: hsearch_r_def new_entry_def same_or_added_def)
  qed
qed

lemma filled_entries:
  assumes "ht_inv h"
  shows "filled h = int (length (used_entries h))" "filled h = int (card (dom (lookup h)))"
proof -
  let ?p = "h_size h"
  obtain t where t: "table h = Some t" "good_size ?p" "int (length t) = ?p + 1"
    and fl: "filled h = int (card {i\<in>{1..?p}. in_use t i})" by (rule htD [OF assms])
  have "0 \<le> ?p" using t(2) by (simp add: good_size_def)
  note tl = table_tl [OF t(3) this]
  have "length (used_entries h) = card {n. n < nat ?p \<and> used (tl t ! n) \<noteq> 0}"
    using t(1) tl(1,2) by (simp add: used_entries_def length_filter_conv_card)
  also have "\<dots> = card ((\<lambda>n. int n + 1) ` {n. n < nat ?p \<and> used (tl t ! n) \<noteq> 0})"
    by (rule card_image [symmetric]) (simp add: inj_on_def)
  also have "(\<lambda>n. int n + 1) ` {n. n < nat ?p \<and> used (tl t ! n) \<noteq> 0} = {i\<in>{1..?p}. in_use t i}"
  proof (intro equalityI subsetI)
    fix i assume i: "i \<in> {i\<in>{1..?p}. in_use t i}"
    then have n: "nat (i - 1) < nat ?p" "int (nat (i - 1)) + 1 = i" by auto
    then have "used (tl t ! nat (i - 1)) \<noteq> 0" using i tl(3) [OF n(1)] by (simp add: in_use_def)
    then show "i \<in> (\<lambda>n. int n + 1) ` {n. n < nat ?p \<and> used (tl t ! n) \<noteq> 0}"
      using n by (intro image_eqI [of _ _ "nat (i - 1)"]) auto
  qed (use tl(3) in \<open>auto simp: in_use_def\<close>)
  finally show len: "filled h = int (length (used_entries h))" using fl by simp
  have "card (set (map fst (used_entries h))) = length (used_entries h)"
    using distinct_card [OF distinct_used_entries [OF assms]] by simp
  then show "filled h = int (card (dom (lookup h)))" using len by (simp add: lookup_def dom_map_of_conv_image_fst)
qed

subsection \<open>Creation\<close>

lemma ht_inv_empty:
  assumes "good_size p" "table h = Some (replicate (nat (p + 1)) empty_bucket)" "h_size h = p" "filled h = 0"
  shows "ht_inv h" "lookup h = Map.empty"
proof -
  let ?t = "replicate (nat (p + 1)) empty_bucket"
  have u: "\<not> in_use ?t i" if "i \<in> {1..p}" for i using that by (simp add: in_use_def empty_bucket_def)
  have "{i\<in>{1..p}. in_use ?t i} = {}" using u by blast
  then show "ht_inv h"
    by (intro ht_invI [OF assms(2)]; unfold assms(3)) (use assms(1,4) u in \<open>auto simp: good_size_def simp del: atLeastAtMost_iff\<close>)
  have "filter (\<lambda>b. used b \<noteq> 0) (take n (tl ?t)) = []" for n
    by (auto simp: filter_empty_conv empty_bucket_def simp flip: replicate_Suc dest!: in_set_takeD intro: list.set_sel(2))
  then show "lookup h = Map.empty" using assms(2) by (simp add: lookup_def used_entries_def)
qed

lemma next_prime_small:
  assumes "4 \<le> nel" "nel \<le> 521"
  shows "\<exists>p. next_prime (if even nel then nel + 1 else nel) = Some p \<and> good_size p \<and> nel \<le> p \<and> p \<le> 521"
proof -
  have "nel \<noteq> 520 + 2" and e: "even nel \<Longrightarrow> nel + 1 \<le> 521" using assms(2) by presburger+
  then show ?thesis
    using next_prime_found [of "if even nel then nel + 1 else nel" 521] assms prime_521 by (auto simp: good_size_def split: if_splits)
qed

lemma hcreate_ok:
  assumes "table h = None" "4 \<le> nel" "nel \<le> 521" "\<forall>hp n. fst (calloc hp n)"
  shows "\<exists>h' hp'. hcreate_r calloc hp nel (Some h) = Some (1, None, Some h', hp') \<and>
    ht_inv h' \<and> lookup h' = Map.empty \<and> filled h' = 0 \<and> nel \<le> h_size h' \<and> h_size h' \<le> 521"
proof -
  obtain p where p: "next_prime (if even nel then nel + 1 else nel) = Some p" "good_size p" "nel \<le> p" "p \<le> 521"
    using next_prime_small [OF assms(2,3)] by blast
  have "u32 (p + 1) = p + 1" using p assms(2) by (intro u32_id) (auto simp: in_u32_def)
  then show ?thesis
    using assms(1,4) p ht_inv_empty [OF p(2), of "h\<lparr>h_size := p, filled := 0, table := Some (replicate (nat (p + 1)) empty_bucket)\<rparr>"]
    by (cases "calloc hp (p + 1)") (auto simp: hcreate_r_def dest: spec2 [of _ hp "p + 1"])
qed

subsection \<open>Deletion\<close>

lemma put_unused_entries:
  assumes "ht_inv h" "table h = Some t" "i \<in> {1..h_size h}" "in_use t i"
  shows "set (used_entries ((put_bucket h i ((t ! nat i)\<lparr>used := 0\<rparr>))\<lparr>filled := n\<rparr>)) =
    set (used_entries h) - {(the (b_key (t ! nat i)), the (b_data (t ! nat i)))}"
proof -
  let ?p = "h_size h" and ?e = "\<lambda>b. (the (b_key b), the (b_data b))"
  obtain g: "good_size ?p" and len: "int (length t) = ?p + 1"
    by (rule htD [OF assms(1)]) (use assms(2) in \<open>simp del: atLeastAtMost_iff\<close>)
  have "0 \<le> ?p" using g by (simp add: good_size_def)
  note tl = table_tl [OF len this]
  define n' where "n' = nat (i - 1)"
  have n': "n' < length (tl t)" "tl t ! n' = t ! nat i" "nat i = Suc n'" using assms(3) tl by (auto simp: n'_def)
  have split: "tl t = take n' (tl t) @ (t ! nat i) # drop (Suc n') (tl t)" using id_take_nth_drop [OF n'(1)] n'(2) by simp
  obtain b0 where t: "t = b0 # tl t" using len g by (cases t) (auto simp: good_size_def)
  have upd: "tl (t[nat i := b]) = take n' (tl t) @ b # drop (Suc n') (tl t)" for b
    by (subst t, simp add: n'(3)) (rule upd_conv_take_nth_drop [OF n'(1)])
  define A where "A = map ?e (filter (\<lambda>b. used b \<noteq> 0) (take n' (tl t)))"
  define B where "B = map ?e (filter (\<lambda>b. used b \<noteq> 0) (drop (Suc n') (tl t)))"
  have "used_entries h = map ?e (filter (\<lambda>b. used b \<noteq> 0) (tl t))" using assms(2) tl(1) by (simp add: used_entries_def)
  also have "\<dots> = A @ ?e (t ! nat i) # B" using assms(4) by (subst split) (simp add: A_def B_def in_use_def)
  finally have e: "used_entries h = A @ ?e (t ! nat i) # B" .
  have "used_entries ((put_bucket h i ((t ! nat i)\<lparr>used := 0\<rparr>))\<lparr>filled := n\<rparr>) = A @ B"
    using assms(2) tl(1,2) upd n'(1) by (simp add: used_entries_def put_bucket_def A_def B_def)
  moreover have "?e (t ! nat i) \<notin> set (A @ B)" using distinct_used_entries [OF assms(1)] unfolding e by (auto simp: rev_image_eqI)
  ultimately show ?thesis unfolding e by auto
qed

text \<open>Deletion reports a missing name, and takes exactly the entry of a name out of the buckets in use.\<close>

lemma hdelete_value:
  assumes "ht_inv h"
  shows "\<exists>r e h' hp'. hdelete_r strdup free hp k h = Some (r, e, h', hp') \<and>
    (case lookup h k of
       None \<Rightarrow> r = 0 \<and> e = Some ESRCH \<and> h' = h \<and> hp' = hp
     | Some d \<Rightarrow> r = 1 \<and> e = None \<and> set (used_entries h') = set (used_entries h) - {(k, d)} \<and> filled h' = filled h - 1)"
proof (cases "lookup h k")
  case None
  then show ?thesis using hsearch_find(1) [OF assms, of strdup free hp k None] by (simp add: hdelete_r_def)
next
  case (Some d)
  then obtain t i where t: "table h = Some t" "locate h k = Some (i, Matched)" "1 \<le> i" "i \<le> h_size h"
    "int (length t) = h_size h + 1" "in_use t i" "b_key (t ! nat i) = Some k" "b_data (t ! nat i) = Some d"
    using hsearch_find(2) [OF assms, of k] by auto
  have f: "0 < filled h" using filled_full(1) [OF assms t(1)] filled_entries(2) [OF assms] Some
    by (auto simp: lookup_def finite_dom_map_of card_gt_0_iff)
  have g: "h_size h < 2147483648" using assms by (auto simp: ht_inv_def good_size_def)
  have "u32 (filled h - 1) = filled h - 1"
    using f g filled_full(1) [OF assms t(1)] by (intro u32_id) (simp add: in_u32_def)
  then show ?thesis
    using hsearch_find(1) [OF assms, of strdup free hp k None] Some t put_unused_entries [OF assms t(1) _ t(6)]
    by (auto simp: hdelete_r_def get_bucket_def put_bucket_def)
qed

section \<open>The table as a store of variables\<close>

text \<open>What the environment relies on: a store takes new values as long as it has room, and finds the
  value that was entered last.\<close>

primrec enter_list :: "('s \<Rightarrow> 'k \<Rightarrow> 'v \<Rightarrow> 's option) \<Rightarrow> 's \<Rightarrow> ('k \<times> 'v) list \<Rightarrow> 's option" where
  "enter_list enter s [] = Some s"
| "enter_list enter s (kv # kvs) = do { s \<leftarrow> enter s (fst kv) (snd kv); enter_list enter s kvs }"

locale var_store =
  fixes inv :: "'s \<Rightarrow> bool"
    and get :: "'s \<Rightarrow> 'k \<Rightarrow> 'v option"
    and room :: "'s \<Rightarrow> nat"
    and enter :: "'s \<Rightarrow> 'k \<Rightarrow> 'v \<Rightarrow> 's option"
    and find :: "'s \<Rightarrow> 'k \<Rightarrow> 'v option option"
  assumes enter_ok: "inv s \<Longrightarrow> card (insert k (dom (get s))) \<le> room s \<Longrightarrow>
      \<exists>s'. enter s k v = Some s' \<and> inv s' \<and> get s' = (get s)(k \<mapsto> v) \<and> room s' = room s"
    and finite_dom: "inv s \<Longrightarrow> finite (dom (get s))"
    and find_ok: "inv s \<Longrightarrow> find s k = Some (get s k)"
begin

lemma enter_list_ok:
  "inv s \<Longrightarrow> card (dom (get s) \<union> fst ` set kvs) \<le> room s \<Longrightarrow>
   \<exists>s'. enter_list enter s kvs = Some s' \<and> inv s' \<and> get s' = get s ++ map_of (rev kvs) \<and> room s' = room s"
proof (induction kvs arbitrary: s)
  case (Cons kv kvs)
  have "finite (dom (get s) \<union> fst ` set (kv # kvs))" using finite_dom [OF Cons.prems(1)] by simp
  then have "card (insert (fst kv) (dom (get s))) \<le> room s" using card_mono Cons.prems(2)
    by (meson Un_upper1 card_mono insert_subset list.set_intros(1) order_trans UnI2 imageI)
  then obtain s' where s': "enter s (fst kv) (snd kv) = Some s'" "inv s'" "get s' = (get s)(fst kv \<mapsto> snd kv)" "room s' = room s"
    using enter_ok [OF Cons.prems(1)] by blast
  have "dom (get s') \<union> fst ` set kvs = dom (get s) \<union> fst ` set (kv # kvs)" using s'(3) by auto
  then obtain s'' where "enter_list enter s' kvs = Some s''" "inv s''" "get s'' = get s' ++ map_of (rev kvs)" "room s'' = room s'"
    using Cons.IH [OF s'(2)] Cons.prems(2) s'(4) by auto
  moreover have "get s' ++ map_of (rev kvs) = get s ++ map_of (rev (kv # kvs))"
    using s'(3) by (cases kv) (auto simp: map_add_def fun_eq_iff split: option.splits)
  ultimately show ?case using s'(1,4) by simp
qed simp

lemma find_last:
  assumes "inv s" "get s = Map.empty" "card (fst ` set kvs) \<le> room s"
  shows "\<exists>s'. enter_list enter s kvs = Some s' \<and> (\<forall>k. find s' k = Some (map_of (rev kvs) k))"
  using enter_list_ok [OF assms(1), of kvs] assms(2,3) find_ok by auto

end

text \<open>The callers of the table: \<^verbatim>\<open>hsearch\<close> with \<^verbatim>\<open>ENTER\<close> and a value, and with \<^verbatim>\<open>FIND\<close>.\<close>

definition enter_var :: "'h strdup_fn \<Rightarrow> 'h free_fn \<Rightarrow> hsearch_data \<times> 'h \<Rightarrow> cstr \<Rightarrow> cstr \<Rightarrow> (hsearch_data \<times> 'h) option" where
  "enter_var strdup free s k v =
     do {
       (r, h, hp) \<leftarrow> hsearch_r strdup free (snd s) \<lparr>e_key = k, e_data = Some v\<rparr> ENTER (fst s);
       if retval r = None then None else Some (h, hp)
     }"

definition find_var :: "'h strdup_fn \<Rightarrow> 'h free_fn \<Rightarrow> hsearch_data \<times> 'h \<Rightarrow> cstr \<Rightarrow> cstr option option" where
  "find_var strdup free s k =
     do {
       (r, h, hp) \<leftarrow> hsearch_r strdup free (snd s) \<lparr>e_key = k, e_data = None\<rparr> FIND (fst s);
       t \<leftarrow> table h;
       case retval r of None \<Rightarrow> Some None | Some i \<Rightarrow> map_option b_data (get_bucket t i)
     }"

lemma find_var_lookup:
  assumes "ht_inv (fst s)"
  shows "find_var strdup free s k = Some (lookup (fst s) k)"
proof (cases "lookup (fst s) k = None")
  case True
  obtain t where "table (fst s) = Some t" by (rule htD [OF assms])
  then show ?thesis using True hsearch_find(1) [OF assms, of strdup free "snd s" k None] by (cases s) (simp add: find_var_def)
next
  case False
  then show ?thesis
    using hsearch_find(1) [OF assms, of strdup free "snd s" k None] hsearch_find(2) [OF assms False]
    by (cases s) (auto simp: find_var_def get_bucket_def)
qed

lemma enter_var_ok:
  assumes "ht_inv (fst s)" "reliable strdup" "card (insert k (dom (lookup (fst s)))) \<le> nat (h_size (fst s))"
  shows "\<exists>s'. enter_var strdup free s k v = Some s' \<and> ht_inv (fst s') \<and>
    lookup (fst s') = (lookup (fst s))(k \<mapsto> v) \<and> h_size (fst s') = h_size (fst s)"
proof -
  obtain r h' hp' where r: "hsearch_r strdup free (snd s) \<lparr>e_key = k, e_data = Some v\<rparr> ENTER (fst s) = Some (r, h', hp')"
    "ht_inv h'" "h_size h' = h_size (fst s)" "same_or_added (fst s) k v r h'"
    using hsearch_enter [OF assms(1,2)] by blast
  have fin: "finite (dom (lookup (fst s)))" by (simp add: lookup_def finite_dom_map_of)
  have "\<not> (lookup (fst s) k = None \<and> filled (fst s) = h_size (fst s))"
  proof
    assume c: "lookup (fst s) k = None \<and> filled (fst s) = h_size (fst s)"
    then have "card (insert k (dom (lookup (fst s)))) = Suc (card (dom (lookup (fst s))))" using fin by (intro card_insert_disjoint) auto
    then show False using assms(3) c filled_entries(2) [OF assms(1)] by linarith
  qed
  then have "retval r \<noteq> None" "lookup h' = (lookup (fst s))(k \<mapsto> v)" using r(4) unfolding same_or_added_def by auto
  then show ?thesis using r(1-3) by (simp add: enter_var_def)
qed

interpretation ht: var_store "\<lambda>s. ht_inv (fst s) \<and> reliable strdup" "\<lambda>s. lookup (fst s)" "\<lambda>s. nat (h_size (fst s))"
  "enter_var strdup free" "find_var strdup free"
  for strdup :: "'h strdup_fn" and free :: "'h free_fn"
proof unfold_locales
  fix s :: "hsearch_data \<times> 'h" and k v
  assume s: "ht_inv (fst s) \<and> reliable strdup"
  show "find_var strdup free s k = Some (lookup (fst s) k)" using s find_var_lookup by blast
  show "finite (dom (lookup (fst s)))" by (simp add: lookup_def finite_dom_map_of)
  assume "card (insert k (dom (lookup (fst s)))) \<le> nat (h_size (fst s))"
  then show "\<exists>s'. enter_var strdup free s k v = Some s' \<and> (ht_inv (fst s') \<and> reliable strdup) \<and>
      lookup (fst s') = (lookup (fst s))(k \<mapsto> v) \<and> nat (h_size (fst s')) = nat (h_size (fst s))"
    using enter_var_ok [of s strdup k free v] s by auto
qed

section \<open>Properties\<close>

definition sure_strdup :: "unit strdup_fn" where
  "sure_strdup hp s = (Some s, hp)"

definition sure_free :: "unit free_fn" where
  "sure_free hp p = hp"

lemma good_size_5: "good_size 5"
  using isprime_exact [of 5] by (simp add: good_size_def isprime_def while_option_unfold u32_def)

lemma sure_reliable: "reliable sure_strdup"
  by (simp add: reliable_def sure_strdup_def)

definition five_buckets :: hsearch_data where
  "five_buckets = \<lparr>table = Some (replicate 6 empty_bucket), h_size = 5, filled = 0\<rparr>"

lemma five_buckets_inv: "ht_inv five_buckets" "lookup five_buckets = Map.empty"
  using ht_inv_empty [OF good_size_5, of five_buckets] by (simp_all add: five_buckets_def)

text \<open>C12: a new table with room for \<open>nel\<close> names (at least 4, at most 521) is created with a prime number of
  buckets; any list of assignments to at most that many names can be entered, and afterwards every name
  is found with the value it was assigned last, and no other name is found.\<close>

theorem find_last_value:
  assumes "table h = None" "4 \<le> nel" "nel \<le> 521" "\<forall>hp n. fst (calloc hp n)" "reliable strdup"
    and "card (fst ` set kvs) \<le> nat nel"
  shows "\<exists>h0 hp0 s. hcreate_r calloc hp nel (Some h) = Some (1, None, Some h0, hp0) \<and> prime_size (h_size h0) \<and>
    enter_list (enter_var strdup free) (h0, hp0) kvs = Some s \<and>
    (\<forall>k. find_var strdup free s k = Some (map_of (rev kvs) k))"
proof -
  obtain h0 hp0 where h0: "hcreate_r calloc hp nel (Some h) = Some (1, None, Some h0, hp0)" "ht_inv h0"
    "lookup h0 = Map.empty" "nel \<le> h_size h0"
    using hcreate_ok [OF assms(1-4)] by blast
  moreover have "prime_size (h_size h0)" using h0(2) by (auto simp: ht_inv_def good_size_def)
  ultimately show ?thesis using ht.find_last [of "(h0, hp0)" strdup kvs free] assms(5,6) by auto
qed

lemma find_last_value_witness:
  "\<exists>h0 hp0 s. hcreate_r (\<lambda>hp n. (True, hp)) () 4 (Some \<lparr>table = None, h_size = 0, filled = 0\<rparr>) = Some (1, None, Some h0, hp0) \<and>
    enter_list (enter_var sure_strdup sure_free) (h0, hp0) [([97], [49]), ([102], [50]), ([97], [51])] = Some s \<and>
    find_var sure_strdup sure_free s [97] = Some (Some [51]) \<and> find_var sure_strdup sure_free s [98] = Some None"
proof -
  let ?h = "\<lparr>table = None, h_size = 0, filled = 0\<rparr>" and ?kvs = "[([97], [49]), ([102], [50]), ([97], [51])] :: (cstr \<times> cstr) list"
  have "card (fst ` set ?kvs) \<le> nat 4" using card_length [of "map fst ?kvs"] by simp
  then show ?thesis
    using find_last_value [of ?h 4 "\<lambda>hp n. (True, hp)" sure_strdup ?kvs "()" sure_free] sure_reliable by auto
qed

definition two_vars :: hsearch_data where
  "two_vars =
     \<lparr>table = Some [empty_bucket, empty_bucket, \<lparr>used = 3, b_key = Some [102], b_data = Some [50]\<rparr>,
        \<lparr>used = 3, b_key = Some [97], b_data = Some [49]\<rparr>, empty_bucket, empty_bucket],
      h_size = 5, filled = 2\<rparr>"

definition one_var :: hsearch_data where
  "one_var =
     \<lparr>table = Some [empty_bucket, empty_bucket, \<lparr>used = 3, b_key = Some [102], b_data = Some [50]\<rparr>,
        \<lparr>used = 0, b_key = Some [97], b_data = Some [49]\<rparr>, empty_bucket, empty_bucket],
      h_size = 5, filled = 1\<rparr>"


end
