(* ===== verification/Qsort.thy ===== *)
theory Qsort
  imports Boot_Prelude "HOL-Library.Monad_Syntax" "HOL-Library.Multiset"
begin

text \<open>
  The sorting routine \<^verbatim>\<open>lib/qsort.c\<close>, a Shell sort over byte offsets, and the comparison of strings
  \<^verbatim>\<open>strcmp\<close> of \<^verbatim>\<open>lib/string.c\<close>.  The array is the list of its elements; offsets and gaps are counted in bytes,
  and an access that is not inside the array is \<^const>\<open>None\<close>.
\<close>

section \<open>The sort\<close>

function gap_start :: "nat \<Rightarrow> nat \<Rightarrow> nat" where
  "gap_start nel wgap = (let wgap = 3 * wgap + 1 in if wgap < (nel - 1) div 3 then gap_start nel wgap else wgap)"
  by pat_completeness auto
termination
  by (relation "measure (\<lambda>(nel, wgap). nel - wgap)") auto

declare gap_start.simps [simp del]

definition swap_at :: "'a list \<Rightarrow> nat \<Rightarrow> nat \<Rightarrow> 'a list" where
  "swap_at xs a b = xs[a := xs ! b, b := xs ! a]"

text \<open>The innermost loop: the element at the offset moves down in steps of the gap while it is smaller.\<close>

function sift :: "('a \<Rightarrow> 'a \<Rightarrow> int) \<Rightarrow> nat \<Rightarrow> nat \<Rightarrow> 'a list \<Rightarrow> nat \<Rightarrow> 'a list option" where
  "sift compar width wgap xs j =
     (if wgap = 0 \<or> j < wgap \<or> length xs \<le> j div width then None
      else
        (let j = j - wgap; a = j div width; b = (j + wgap) div width
         in if compar (xs ! a) (xs ! b) \<le> 0 then Some xs
            else
              (let xs = swap_at xs a b
               in if wgap \<le> j then sift compar width wgap xs j else Some xs)))"
  by pat_completeness auto
termination
  by (relation "measure (\<lambda>(compar, width, wgap, xs, j). j)") auto

declare sift.simps [simp del]

function sift_all :: "('a \<Rightarrow> 'a \<Rightarrow> int) \<Rightarrow> nat \<Rightarrow> nat \<Rightarrow> nat \<Rightarrow> 'a list \<Rightarrow> nat \<Rightarrow> 'a list option" where
  "sift_all compar width nel wgap xs i =
     do {
       xs \<leftarrow> sift compar width wgap xs i;
       let i = i + width;
       if width = 0 then None
       else if i < nel then sift_all compar width nel wgap xs i else Some xs
     }"
  by pat_completeness auto
termination
  by (relation "measure (\<lambda>(compar, width, nel, wgap, xs, i). nel - i)") auto

declare sift_all.simps [simp del]

function gap_passes :: "('a \<Rightarrow> 'a \<Rightarrow> int) \<Rightarrow> nat \<Rightarrow> nat \<Rightarrow> nat \<Rightarrow> 'a list \<Rightarrow> 'a list option" where
  "gap_passes compar width nel wgap xs =
     (if wgap < width \<or> wgap = 0 then None
      else
        do {
          xs \<leftarrow> sift_all compar width nel wgap xs wgap;
          let wgap = (wgap - width) div 3;
          if wgap = 0 then Some xs else gap_passes compar width nel wgap xs
        })"
  by pat_completeness auto
termination
  by (relation "measure (\<lambda>(compar, width, nel, wgap, xs). wgap)") auto

declare gap_passes.simps [simp del]

definition qsort :: "('a \<Rightarrow> 'a \<Rightarrow> int) \<Rightarrow> nat \<Rightarrow> 'a list \<Rightarrow> 'a list option" where
  "qsort compar width xs =
     (let nel = length xs
      in if 1 < nel \<and> 0 < width then gap_passes compar width (nel * width) (gap_start nel 0 * width) xs
         else Some xs)"

section \<open>The result is a permutation\<close>

lemma mset_swap_at: "a < length xs \<Longrightarrow> b < length xs \<Longrightarrow> mset (swap_at xs a b) = mset xs"
  by (simp add: swap_at_def mset_swap)

lemma length_swap_at [simp]: "length (swap_at xs a b) = length xs"
  by (simp add: swap_at_def)

lemma sift_step:
  assumes "0 < w" "0 < m" "m \<le> n" "n < length xs"
  shows "sift compar w (m * w) xs (n * w) =
    (if compar (xs ! (n - m)) (xs ! n) \<le> 0 then Some xs
     else if m \<le> n - m then sift compar w (m * w) (swap_at xs (n - m) n) ((n - m) * w) else Some (swap_at xs (n - m) n))"
proof -
  have d: "n * w - m * w = (n - m) * w" "\<not> n * w < m * w" "m * w \<le> (n - m) * w \<longleftrightarrow> m \<le> n - m"
    using assms(1,3) by (simp_all flip: diff_mult_distrib)
  have s: "(n - m) * w + m * w = n * w" using assms(3) by (simp flip: add_mult_distrib)
  show ?thesis using assms d(2,3) by (subst sift.simps) (simp add: Let_def d(1) s)
qed

lemma sift_permutes:
  assumes "0 < w" "0 < m" "m \<le> n" "n < length xs"
  shows "\<exists>ys. sift compar w (m * w) xs (n * w) = Some ys \<and> mset ys = mset xs"
  using assms(3,4)
proof (induction n arbitrary: xs rule: less_induct)
  case (less n)
  have "mset (swap_at xs (n - m) n) = mset xs" using less.prems by (intro mset_swap_at) auto
  moreover have "m \<le> n - m \<Longrightarrow> \<exists>ys. sift compar w (m * w) (swap_at xs (n - m) n) ((n - m) * w) = Some ys \<and> mset ys = mset (swap_at xs (n - m) n)"
    using less.IH [of "n - m" "swap_at xs (n - m) n"] less.prems assms(2) by auto
  ultimately show ?case using sift_step [OF assms(1,2) less.prems, of compar] by (auto split: if_splits)
qed

lemma sift_all_step:
  assumes "0 < w"
  shows "sift_all compar w (l * w) g xs (n * w) =
    do { xs \<leftarrow> sift compar w g xs (n * w); if Suc n < l then sift_all compar w (l * w) g xs (Suc n * w) else Some xs }"
proof -
  have "n * w + w = Suc n * w" by simp
  then show ?thesis using assms by (subst sift_all.simps) (simp only: Let_def mult_less_cancel2 if_False simp_thms less_imp_neq [THEN not_sym])
qed

lemma sift_all_permutes:
  assumes "0 < w" "0 < m" "m \<le> n" "n < length xs"
  shows "\<exists>ys. sift_all compar w (length xs * w) (m * w) xs (n * w) = Some ys \<and> mset ys = mset xs"
  using assms(3,4)
proof (induction "length xs - n" arbitrary: n xs)
  case (Suc d)
  obtain ys where ys: "sift compar w (m * w) xs (n * w) = Some ys" "mset ys = mset xs"
    using sift_permutes [OF assms(1,2) Suc.prems] by blast
  have len: "length ys = length xs" using ys(2) by (rule mset_eq_length)
  show ?case
  proof (cases "Suc n < length xs")
    case True
    then show ?thesis
      using Suc.hyps(1) [of ys "Suc n"] Suc.hyps(2) Suc.prems ys len by (subst sift_all_step [OF assms(1)]) auto
  next
    case False
    then show ?thesis using ys by (subst sift_all_step [OF assms(1)]) simp
  qed
qed simp

section \<open>The result is sorted\<close>

definition ordered_to :: "('a \<Rightarrow> 'a \<Rightarrow> int) \<Rightarrow> 'a list \<Rightarrow> nat \<Rightarrow> bool" where
  "ordered_to compar xs n \<longleftrightarrow> (\<forall>p q. p < q \<longrightarrow> q \<le> n \<longrightarrow> compar (xs ! p) (xs ! q) \<le> 0)"

text \<open>Only the element at the position may be too far up.\<close>

definition ordered_but :: "('a \<Rightarrow> 'a \<Rightarrow> int) \<Rightarrow> 'a list \<Rightarrow> nat \<Rightarrow> nat \<Rightarrow> bool" where
  "ordered_but compar xs n i \<longleftrightarrow>
     (\<forall>p q. p < q \<longrightarrow> q \<le> n \<longrightarrow> q \<noteq> i \<longrightarrow> compar (xs ! p) (xs ! q) \<le> 0)"

text \<open>What the sort relies on: on the elements of interest the comparison is total and transitive.\<close>

locale comparison =
  fixes good :: "'a \<Rightarrow> bool"
    and compar :: "'a \<Rightarrow> 'a \<Rightarrow> int"
  assumes total: "good x \<Longrightarrow> good y \<Longrightarrow> compar x y \<le> 0 \<or> compar y x \<le> 0"
    and trans: "good x \<Longrightarrow> good y \<Longrightarrow> good z \<Longrightarrow> compar x y \<le> 0 \<Longrightarrow> compar y z \<le> 0 \<Longrightarrow> compar x z \<le> 0"
begin

lemma ordered_but_self: "ordered_to compar xs (n - 1) \<Longrightarrow> ordered_but compar xs n n"
  unfolding ordered_to_def ordered_but_def by auto

lemma ordered_but_stop:
  assumes "ordered_but compar xs n i" "i \<le> n" "n < length xs" "\<forall>x\<in>set xs. good x"
    and "i = 0 \<or> compar (xs ! (i - 1)) (xs ! i) \<le> 0"
  shows "ordered_to compar xs n"
  unfolding ordered_to_def
proof (intro allI impI)
  fix p q assume pq: "p < q" "q \<le> n"
  show "compar (xs ! p) (xs ! q) \<le> 0"
  proof (cases "q = i \<and> p \<noteq> i - 1")
    case True
    then have "compar (xs ! p) (xs ! (i - 1)) \<le> 0" using assms(1) pq unfolding ordered_but_def by auto
    then show ?thesis using assms pq True trans [of "xs ! p" "xs ! (i - 1)" "xs ! i"] by auto
  qed (use assms pq in \<open>auto simp: ordered_but_def\<close>)
qed

lemma ordered_but_swap:
  assumes "ordered_but compar xs n (Suc i)" "Suc i \<le> n" "n < length xs" "\<forall>x\<in>set xs. good x" "0 < compar (xs ! i) (xs ! Suc i)"
  shows "ordered_but compar (swap_at xs i (Suc i)) n i"
  unfolding ordered_but_def
proof (intro allI impI)
  have c: "compar (xs ! Suc i) (xs ! i) \<le> 0" using total [of "xs ! i" "xs ! Suc i"] assms by auto
  fix p q assume pq: "p < q" "q \<le> n" "q \<noteq> i"
  have at: "swap_at xs i (Suc i) ! k = (if k = i then xs ! Suc i else if k = Suc i then xs ! i else xs ! k)" if "k \<le> n" for k
    using that assms(2,3) by (auto simp: swap_at_def nth_list_update)
  have o: "compar (xs ! p) (xs ! q) \<le> 0" if "p < q" "q \<le> n" "q \<noteq> Suc i" for p q
    using assms(1) that unfolding ordered_but_def by blast
  show "compar (swap_at xs i (Suc i) ! p) (swap_at xs i (Suc i) ! q) \<le> 0"
  proof (cases "q = Suc i")
    case True
    then show ?thesis using at pq c o [of p i] assms(2) by (cases "p = i") auto
  next
    case False
    consider "p = i" | "p = Suc i" | "p \<noteq> i" "p \<noteq> Suc i" by blast
    then show ?thesis
    proof cases
      case 1
      then show ?thesis using at pq False o [of "Suc i" q] by auto
    next
      case 2
      then show ?thesis using at pq False o [of i q] by auto
    qed (use at pq False o in auto)
  qed
qed

lemma sift_orders:
  assumes "0 < w" "0 < i" "i \<le> n" "n < length xs" "ordered_but compar xs n i" "\<forall>x\<in>set xs. good x"
    and "sift compar w (1 * w) xs (i * w) = Some ys"
  shows "ordered_to compar ys n"
  using assms(2-7)
proof (induction i arbitrary: xs)
  case (Suc i)
  have s: "sift compar w (1 * w) xs (Suc i * w) =
    (if compar (xs ! i) (xs ! Suc i) \<le> 0 then Some xs
     else if 1 \<le> i then sift compar w (1 * w) (swap_at xs i (Suc i)) (i * w) else Some (swap_at xs i (Suc i)))"
    using sift_step [OF assms(1) zero_less_one, of "Suc i" xs compar] Suc.prems(2,3) by simp
  show ?case
  proof (cases "compar (xs ! i) (xs ! Suc i) \<le> 0")
    case True
    then show ?thesis using Suc.prems s ordered_but_stop [of xs n "Suc i"] by simp
  next
    case False
    have o: "ordered_but compar (swap_at xs i (Suc i)) n i" using ordered_but_swap [of xs n i] Suc.prems False by simp
    have g: "\<forall>x\<in>set (swap_at xs i (Suc i)). good x"
      using mset_eq_setD [OF mset_swap_at [of i xs "Suc i"]] Suc.prems by simp
    show ?thesis
    proof (cases "i = 0")
      case True
      then have "ys = swap_at xs 0 (Suc 0)" using False s Suc.prems(6) by simp
      then show ?thesis using True Suc.prems(3) o g ordered_but_stop [of ys n 0] by simp
    next
      case i: False
      then have "sift compar w (1 * w) (swap_at xs i (Suc i)) (i * w) = Some ys" using False s Suc.prems(6) by simp
      then show ?thesis using Suc.IH [of "swap_at xs i (Suc i)"] i o g Suc.prems by simp
    qed
  qed
qed simp

lemma sift_all_orders:
  assumes "0 < w" "0 < n" "n < length xs" "ordered_to compar xs (n - 1)" "\<forall>x\<in>set xs. good x"
    and "sift_all compar w (length xs * w) (1 * w) xs (n * w) = Some ys"
  shows "ordered_to compar ys (length xs - 1)"
  using assms(2-6)
proof (induction "length xs - n" arbitrary: n xs)
  case (Suc d)
  obtain zs where zs: "sift compar w (1 * w) xs (n * w) = Some zs" "mset zs = mset xs"
    using sift_permutes [OF assms(1) zero_less_one, of n xs compar] Suc.prems by auto
  have len: "length zs = length xs" using zs(2) by (rule mset_eq_length)
  have g: "\<forall>x\<in>set zs. good x" using Suc.prems(4) mset_eq_setD [OF zs(2)] by simp
  have o: "ordered_to compar zs n"
    using sift_orders [OF assms(1) Suc.prems(1) order_refl Suc.prems(2)] ordered_but_self Suc.prems(3,4) zs(1) by blast
  have step: "(if Suc n < length xs then sift_all compar w (length xs * w) (1 * w) zs (Suc n * w) else Some zs) = Some ys"
    using Suc.prems(5) by (subst (asm) sift_all_step [OF assms(1)]) (simp only: zs(1) bind.bind_lunit)
  show ?case
  proof (cases "Suc n < length xs")
    case True
    then show ?thesis using step Suc.hyps(1) [of zs "Suc n"] Suc.hyps(2) len g o by simp
  next
    case False
    then have "n = length xs - 1" "zs = ys" using step Suc.prems(2) by simp_all
    then show ?thesis using o by simp
  qed
qed simp

end

subsection \<open>The gaps\<close>

primrec knuth :: "nat \<Rightarrow> nat" where
  "knuth 0 = 0"
| "knuth (Suc k) = 3 * knuth k + 1"

lemma knuth_pos: "0 < knuth (Suc k)"
  by simp

lemma gap_start_knuth:
  assumes "1 < nel" "knuth k = 0 \<or> knuth k < (nel - 1) div 3"
  shows "\<exists>m. gap_start nel (knuth k) = knuth (Suc m) \<and> knuth (Suc m) < nel"
  using assms(2)
proof (induction "nel - knuth k" arbitrary: k rule: less_induct)
  case less
  have s: "gap_start nel (knuth k) = (if knuth (Suc k) < (nel - 1) div 3 then gap_start nel (knuth (Suc k)) else knuth (Suc k))"
    by (subst gap_start.simps) (simp only: Let_def knuth.simps)
  show ?case
  proof (cases "knuth (Suc k) < (nel - 1) div 3")
    case True
    then have "nel - knuth (Suc k) < nel - knuth k" by auto
    then show ?thesis using less.hyps [of "Suc k"] True unfolding s by (simp only: if_True simp_thms)
  next
    case False
    have "knuth (Suc k) < nel"
      using less.prems assms(1) div_times_less_eq_dividend [of "nel - 1" 3] unfolding knuth.simps by linarith
    then show ?thesis using False unfolding s by (intro exI [of _ k]) (simp only: if_False simp_thms)
  qed
qed

lemma gap_passes_step:
  assumes "0 < w"
  shows "gap_passes compar w nel (knuth (Suc k) * w) xs =
    do {
      xs \<leftarrow> sift_all compar w nel (knuth (Suc k) * w) xs (knuth (Suc k) * w);
      if k = 0 then Some xs else gap_passes compar w nel (knuth k * w) xs
    }"
proof -
  have "knuth (Suc k) * w - w = 3 * (knuth k * w)" by simp
  then have d: "(knuth (Suc k) * w - w) div 3 = knuth k * w" by (metis nonzero_mult_div_cancel_left zero_neq_numeral)
  have z: "knuth k * w = 0 \<longleftrightarrow> k = 0" using assms by (cases k) auto
  have p: "\<not> (knuth (Suc k) * w < w \<or> knuth (Suc k) * w = 0)" using assms by simp
  show ?thesis by (subst gap_passes.simps) (simp only: Let_def d z p if_False)
qed

lemma gap_passes_permutes:
  assumes "0 < w" "knuth (Suc k) < length xs"
  shows "\<exists>ys. gap_passes compar w (length xs * w) (knuth (Suc k) * w) xs = Some ys \<and> mset ys = mset xs"
  using assms(2)
proof (induction k arbitrary: xs)
  case (Suc k)
  obtain ys where ys: "sift_all compar w (length xs * w) (knuth (Suc (Suc k)) * w) xs (knuth (Suc (Suc k)) * w) = Some ys" "mset ys = mset xs"
    using sift_all_permutes [OF assms(1) knuth_pos order_refl Suc.prems] by blast
  moreover have "knuth (Suc k) < length xs" using Suc.prems by simp
  ultimately obtain zs where "gap_passes compar w (length xs * w) (knuth (Suc k) * w) ys = Some zs" "mset zs = mset xs"
    using Suc.IH [of ys] mset_eq_length [OF ys(2)] by auto
  moreover have "gap_passes compar w (length xs * w) (knuth (Suc (Suc k)) * w) xs = gap_passes compar w (length xs * w) (knuth (Suc k) * w) ys"
    by (subst gap_passes_step [OF assms(1)]) (simp only: ys(1) bind.bind_lunit nat.distinct(2) if_False)
  ultimately show ?case by simp
next
  case 0
  obtain ys where "sift_all compar w (length xs * w) (knuth (Suc 0) * w) xs (knuth (Suc 0) * w) = Some ys" "mset ys = mset xs"
    using sift_all_permutes [OF assms(1) knuth_pos order_refl 0] by blast
  then show ?case by (subst gap_passes_step [OF assms(1)]) simp
qed

lemma qsort_permutes:
  assumes "0 < w"
  shows "\<exists>ys. qsort compar w xs = Some ys \<and> mset ys = mset xs"
proof (cases "1 < length xs")
  case True
  obtain m where m: "gap_start (length xs) 0 = knuth (Suc m)" "knuth (Suc m) < length xs"
    using gap_start_knuth [OF True, of 0] unfolding knuth.simps(1) by blast
  show ?thesis unfolding qsort_def Let_def m(1) using gap_passes_permutes [OF assms m(2)] True assms by (simp only: simp_thms if_True)
qed (simp add: qsort_def)

context comparison
begin

lemma gap_passes_sorts:
  assumes "0 < w" "\<forall>x\<in>set xs. good x" "knuth (Suc k) < length xs"
  shows "\<exists>ys. gap_passes compar w (length xs * w) (knuth (Suc k) * w) xs = Some ys \<and> mset ys = mset xs \<and> ordered_to compar ys (length xs - 1)"
  using assms(2,3)
proof (induction k arbitrary: xs)
  case 0
  then have l: "1 < length xs" by simp
  obtain ys where ys: "sift_all compar w (length xs * w) (1 * w) xs (1 * w) = Some ys" "mset ys = mset xs"
    using sift_all_permutes [OF assms(1) zero_less_one order_refl l] by blast
  have "ordered_to compar ys (length xs - 1)"
    by (rule sift_all_orders [OF assms(1) zero_less_one l _ 0(1) ys(1)]) (simp add: ordered_to_def)
  moreover have "gap_passes compar w (length xs * w) (knuth (Suc 0) * w) xs = Some ys"
    using ys(1) by (subst gap_passes_step [OF assms(1)]) simp
  ultimately show ?case using ys(2) by blast
next
  case (Suc k)
  obtain ys where ys: "sift_all compar w (length xs * w) (knuth (Suc (Suc k)) * w) xs (knuth (Suc (Suc k)) * w) = Some ys" "mset ys = mset xs"
    using sift_all_permutes [OF assms(1) knuth_pos order_refl Suc.prems(2)] by blast
  have "length ys = length xs" "set ys = set xs" using mset_eq_length [OF ys(2)] mset_eq_setD [OF ys(2)] by simp_all
  moreover have "knuth (Suc k) < length xs" using Suc.prems(2) by simp
  ultimately obtain zs where "gap_passes compar w (length xs * w) (knuth (Suc k) * w) ys = Some zs" "mset zs = mset ys"
      "ordered_to compar zs (length xs - 1)"
    using Suc.IH [of ys] Suc.prems(1) by auto
  moreover have "gap_passes compar w (length xs * w) (knuth (Suc (Suc k)) * w) xs = gap_passes compar w (length xs * w) (knuth (Suc k) * w) ys"
    by (subst gap_passes_step [OF assms(1)]) (simp only: ys(1) bind.bind_lunit nat.distinct(2) if_False)
  ultimately show ?case using ys(2) by simp
qed

lemma qsort_sorts:
  assumes "\<forall>x\<in>set xs. good x" "0 < w"
  shows "\<exists>ys. qsort compar w xs = Some ys \<and> mset ys = mset xs \<and> sorted_wrt (\<lambda>x y. compar x y \<le> 0) ys"
proof (cases "1 < length xs")
  case True
  obtain m where m: "gap_start (length xs) 0 = knuth (Suc m)" "knuth (Suc m) < length xs"
    using gap_start_knuth [OF True, of 0] unfolding knuth.simps(1) by blast
  obtain ys where ys: "gap_passes compar w (length xs * w) (knuth (Suc m) * w) xs = Some ys" "mset ys = mset xs" "ordered_to compar ys (length xs - 1)"
    using gap_passes_sorts [OF assms(2,1) m(2)] by blast
  have "sorted_wrt (\<lambda>x y. compar x y \<le> 0) ys"
    unfolding sorted_wrt_iff_nth_less
  proof (intro allI impI)
    fix i j assume "i < j" "j < length ys"
    then show "compar (ys ! i) (ys ! j) \<le> 0" using ys(3) mset_eq_length [OF ys(2)] unfolding ordered_to_def by simp
  qed
  moreover have "qsort compar w xs = Some ys" unfolding qsort_def Let_def m(1) using True assms(2) ys(1) by (simp only: simp_thms if_True)
  ultimately show ?thesis using ys(2) by blast
next
  case False
  then have "sorted_wrt (\<lambda>x y. compar x y \<le> 0) xs" by (auto simp: sorted_wrt_iff_nth_less)
  then show ?thesis using False by (auto simp: qsort_def)
qed

end

text \<open>C11: for a comparison that is total and transitive on the elements of the array, the sort terminates
  without leaving the array, and gives a permutation of the elements in ascending order.\<close>

theorem qsort_sorted:
  assumes "0 < width"
    and "\<forall>x\<in>set xs. \<forall>y\<in>set xs. compar x y \<le> 0 \<or> compar y x \<le> 0"
    and "\<forall>x\<in>set xs. \<forall>y\<in>set xs. \<forall>z\<in>set xs. compar x y \<le> 0 \<longrightarrow> compar y z \<le> 0 \<longrightarrow> compar x z \<le> 0"
  shows "\<exists>ys. qsort compar width xs = Some ys \<and> mset ys = mset xs \<and> sorted_wrt (\<lambda>x y. compar x y \<le> 0) ys"
proof -
  have "comparison (\<lambda>x. x \<in> set xs) compar" using assms(2,3) by unfold_locales blast+
  from comparison.qsort_sorts [OF this _ assms(1)] show ?thesis by blast
qed

lemma qsort_sorted_witness:
  "\<exists>ys. qsort (-) 4 [3, 1, 2, 1 :: int] = Some ys \<and> mset ys = {#1, 1, 2, 3#} \<and> sorted_wrt (\<lambda>x y. x - y \<le> 0) ys"
  using qsort_sorted [of 4 "[3, 1, 2, 1 :: int]" "(-)"] by (auto simp: add_mset_commute)

end
