(* ===== verification/EnvText.thy ===== *)
theory EnvText
  imports Hashtable Qsort
begin

text \<open>
  The text form of the environment: \<^verbatim>\<open>hexport_r\<close> and \<^verbatim>\<open>himport_r\<close> of \<^verbatim>\<open>lib/hashtable.c\<close>.  A buffer is the list
  of its bytes; reading or writing outside of it is \<^const>\<open>None\<close>, as are the null pointers C must not follow.
\<close>

section \<open>Heap and buffers\<close>

text \<open>The operations of the allocator the two functions call; \<open>h_malloc\<close> and \<open>h_release\<close> are \<^verbatim>\<open>malloc\<close> and \<^verbatim>\<open>free\<close>
  of a block of the given size.\<close>

record 'h heap_ops =
  h_strdup :: "'h strdup_fn"
  h_free :: "'h free_fn"
  h_calloc :: "'h calloc_fn"
  h_free_table :: "'h \<Rightarrow> bucket list \<Rightarrow> 'h"
  h_malloc :: "'h \<Rightarrow> nat \<Rightarrow> bool \<times> 'h"
  h_release :: "'h \<Rightarrow> nat \<Rightarrow> 'h"

definition rd :: "u8 list \<Rightarrow> nat \<Rightarrow> u8 option" where
  "rd buf p = (if p < length buf then Some (buf ! p) else None)"

definition put :: "u8 list \<Rightarrow> nat \<Rightarrow> u8 \<Rightarrow> (u8 list \<times> nat) option" where
  "put buf p c = (if p < length buf then Some (buf[p := c], Suc p) else None)"

text \<open>The string that starts at a position.\<close>

definition cstr_at :: "u8 list \<Rightarrow> nat \<Rightarrow> cstr option" where
  "cstr_at buf p = (if 0 \<in> set (drop p buf) then Some (takeWhile (\<lambda>c. c \<noteq> 0) (drop p buf)) else None)"

text \<open>The first position from the given one at which the condition fails.\<close>

function scan_while :: "(u8 \<Rightarrow> bool) \<Rightarrow> u8 list \<Rightarrow> nat \<Rightarrow> nat option" where
  "scan_while P buf p =
     (if p < length buf then if P (buf ! p) then scan_while P buf (Suc p) else Some p else None)"
  by pat_completeness auto
termination
  by (relation "measure (\<lambda>(P, buf, p). length buf - p)") auto

declare scan_while.simps [simp del]

section \<open>Export\<close>

definition cmpkey :: "cstr \<times> cstr \<Rightarrow> cstr \<times> cstr \<Rightarrow> int" where
  "cmpkey e1 e2 = strcmp (fst e1) (fst e2)"

text \<open>The entries in use; a null key or value cannot be measured.\<close>

fun collect :: "bucket list \<Rightarrow> (cstr \<times> cstr) list option" where
  "collect [] = Some []"
| "collect (b # bs) =
     (if used b \<noteq> 0 then do { k \<leftarrow> b_key b; d \<leftarrow> b_data b; es \<leftarrow> collect bs; Some ((k, d) # es) }
      else collect bs)"

definition escaped :: "u8 \<Rightarrow> u8 \<Rightarrow> bool" where
  "escaped sep c \<longleftrightarrow> c = sep \<or> c = 92"

definition data_room :: "u8 \<Rightarrow> cstr \<Rightarrow> nat" where
  "data_room sep d =
     (if sep = 0 then length d else sum_list (map (\<lambda>c. if escaped sep c then 2 else 1) d))"

definition totlen :: "u8 \<Rightarrow> (cstr \<times> cstr) list \<Rightarrow> nat" where
  "totlen sep es = sum_list (map (\<lambda>(k, d). length k + 2 + data_room sep d + 2) es)"

primrec put_bytes :: "u8 list \<Rightarrow> nat \<Rightarrow> cstr \<Rightarrow> (u8 list \<times> nat) option" where
  "put_bytes buf p [] = Some (buf, p)"
| "put_bytes buf p (c # cs) = do { (buf, p) \<leftarrow> put buf p c; put_bytes buf p cs }"

primrec put_escaped :: "u8 \<Rightarrow> u8 list \<Rightarrow> nat \<Rightarrow> cstr \<Rightarrow> (u8 list \<times> nat) option" where
  "put_escaped sep buf p [] = Some (buf, p)"
| "put_escaped sep buf p (c # cs) =
     do {
       (buf, p) \<leftarrow> (if escaped sep c then put buf p 92 else Some (buf, p));
       (buf, p) \<leftarrow> put buf p c;
       put_escaped sep buf p cs
     }"

primrec put_entries :: "u8 \<Rightarrow> u8 list \<Rightarrow> nat \<Rightarrow> (cstr \<times> cstr) list \<Rightarrow> (u8 list \<times> nat) option" where
  "put_entries sep buf p [] = Some (buf, p)"
| "put_entries sep buf p (e # es) =
     do {
       (buf, p) \<leftarrow> put_bytes buf p (fst e);
       (buf, p) \<leftarrow> put buf p 61;
       (buf, p) \<leftarrow> put_escaped sep buf p (snd e);
       (buf, p) \<leftarrow> put buf p sep;
       put_entries sep buf p es
     }"

text \<open>The buffer: the caller's, cleared up to the size, or a new one.\<close>

definition result_buffer :: "'h heap_ops \<Rightarrow> 'h \<Rightarrow> u8 list option \<Rightarrow> nat \<Rightarrow> (u8 list option \<times> 'h) option" where
  "result_buffer H hp res size' =
     (case res of
        Some buf \<Rightarrow> if size' \<le> length buf then Some (Some (replicate size' 0 @ drop size' buf), hp) else None
      | None \<Rightarrow> (case h_malloc H hp size' of (ok, hp) \<Rightarrow> Some (if ok then Some (replicate size' 0) else None, hp)))"

definition hexport_r :: "'h heap_ops \<Rightarrow> 'h \<Rightarrow> hsearch_data option \<Rightarrow> u8 \<Rightarrow> u8 list option option \<Rightarrow> nat \<Rightarrow>
    (int \<times> errno option \<times> u8 list option option \<times> 'h) option" where
  "hexport_r H hp htab sep resp size' =
     do {
       h \<leftarrow> htab;
       (case resp of
          None \<Rightarrow> Some (-1, Some EINVAL, None, hp)
        | Some res \<Rightarrow>
            do {
              t \<leftarrow> table h;
              es \<leftarrow> (if h_size h < int (length t) then collect (take (nat (h_size h)) (tl t)) else None);
              es' \<leftarrow> qsort cmpkey 4 es;
              if size' \<noteq> 0 \<and> size' < totlen sep es + 1 then Some (-1, Some ENOMEM, Some res, hp)
              else
                do {
                  let size' = (if size' \<noteq> 0 then size' else totlen sep es + 1);
                  (buf, hp) \<leftarrow> result_buffer H hp res size';
                  (case buf of
                     None \<Rightarrow> Some (-1, Some ENOMEM, Some None, hp)
                   | Some buf \<Rightarrow>
                       do {
                         (buf, p) \<leftarrow> put_entries sep buf 0 es';
                         (buf, p) \<leftarrow> put buf p 0;
                         Some (int size', None, Some (Some buf), hp)
                       })
                }
            })
     }"

section \<open>Import\<close>

text \<open>The value is moved over its escapes inside the buffer; a backslash before the end of the string stands
  for itself.\<close>

definition unescape :: "u8 list \<Rightarrow> nat \<Rightarrow> nat option" where
  "unescape buf dp =
     (if buf ! dp = 92 then do { c \<leftarrow> rd buf (Suc dp); Some (if c \<noteq> 0 then Suc dp else dp) } else Some dp)"

function parse_value :: "u8 \<Rightarrow> u8 list \<Rightarrow> nat \<Rightarrow> nat \<Rightarrow> (u8 list \<times> nat \<times> nat) option" where
  "parse_value sep buf sp dp =
     (if dp < length buf then
        if buf ! dp \<noteq> 0 \<and> buf ! dp \<noteq> sep then
          do {
            dp \<leftarrow> unescape buf dp;
            c \<leftarrow> rd buf dp;
            (buf, sp) \<leftarrow> put buf sp c;
            parse_value sep buf sp (Suc dp)
          }
        else Some (buf, sp, dp)
      else None)"
  by pat_completeness auto
termination
  by (relation "measure (\<lambda>(sep, buf, sp, dp). length buf - dp)") (auto simp: put_def rd_def unescape_def split: if_splits bind_splits)

declare parse_value.simps [simp del]

text \<open>An entry without a value deletes the variable.\<close>

definition delete_entry :: "'h heap_ops \<Rightarrow> u8 list \<Rightarrow> nat \<Rightarrow> nat \<Rightarrow> hsearch_data \<Rightarrow> 'h \<Rightarrow>
    (bool \<times> u8 list \<times> nat \<times> hsearch_data \<times> 'h) option" where
  "delete_entry H buf name dp h hp =
     do {
       (buf, dp) \<leftarrow> (if buf ! dp = 61 then put buf dp 0 else Some (buf, dp));
       (buf, dp) \<leftarrow> put buf dp 0;
       key \<leftarrow> cstr_at buf name;
       (_, _, h, hp) \<leftarrow> hdelete_r (h_strdup H) (h_free H) hp key h;
       Some (True, buf, dp, h, hp)
     }"

definition enter_entry :: "'h heap_ops \<Rightarrow> u8 \<Rightarrow> u8 list \<Rightarrow> nat \<Rightarrow> nat \<Rightarrow> hsearch_data \<Rightarrow> 'h \<Rightarrow>
    (bool \<times> u8 list \<times> nat \<times> hsearch_data \<times> 'h) option" where
  "enter_entry H sep buf name dp h hp =
     do {
       (buf, dp) \<leftarrow> put buf dp 0;
       let value = dp;
       (buf, sp, dp) \<leftarrow> parse_value sep buf dp dp;
       (buf, sp) \<leftarrow> put buf sp 0;
       key \<leftarrow> cstr_at buf name;
       data \<leftarrow> cstr_at buf value;
       (r, h, hp) \<leftarrow> hsearch_r (h_strdup H) (h_free H) hp \<lparr>e_key = key, e_data = Some data\<rparr> ENTER h;
       Some (retval r \<noteq> None, buf, Suc dp, h, hp)
     }"

text \<open>Whether the name ends without a value; the byte after it is read unless the string ends there.\<close>

definition no_value :: "u8 \<Rightarrow> u8 list \<Rightarrow> nat \<Rightarrow> bool option" where
  "no_value sep buf dp =
     (if buf ! dp = 0 then Some True
      else do { c1 \<leftarrow> rd buf (Suc dp); Some (c1 = 0 \<or> buf ! dp = sep \<or> c1 = sep) })"

text \<open>One round of the loop: whether it goes on, the buffer, the position, the table and the heap.\<close>

definition import_entry :: "'h heap_ops \<Rightarrow> u8 \<Rightarrow> u8 list \<Rightarrow> nat \<Rightarrow> hsearch_data \<Rightarrow> 'h \<Rightarrow>
    (bool \<times> u8 list \<times> nat \<times> hsearch_data \<times> 'h) option" where
  "import_entry H sep buf dp h hp =
     do {
       name \<leftarrow> scan_while (\<lambda>c. c = 32 \<or> c = 9) buf dp;
       if buf ! name = 35 then
         do {
           dp \<leftarrow> scan_while (\<lambda>c. c \<noteq> 0 \<and> c \<noteq> sep) buf name;
           Some (True, buf, Suc dp, h, hp)
         }
       else
         do {
           dp \<leftarrow> scan_while (\<lambda>c. c \<noteq> 61 \<and> c \<noteq> 0 \<and> c \<noteq> sep) buf name;
           delete \<leftarrow> no_value sep buf dp;
           if delete then delete_entry H buf name dp h hp else enter_entry H sep buf name dp h hp
         }
     }"

lemma put_props: "put buf p c = Some (buf', p') \<Longrightarrow> length buf' = length buf \<and> p' = Suc p \<and> p < length buf"
  by (auto simp: put_def split: if_splits)

lemma scan_while_ge: "scan_while P buf p = Some q \<Longrightarrow> p \<le> q \<and> q < length buf"
proof (induction P buf p rule: scan_while.induct)
  case (1 P buf p)
  have s: "scan_while P buf p = (if p < length buf then if P (buf ! p) then scan_while P buf (Suc p) else Some p else None)"
    by (rule scan_while.simps)
  show ?case using 1 unfolding s by (cases "p < length buf \<and> P (buf ! p)") (simp_all split: if_splits)
qed

lemma unescape_ge: "unescape buf dp = Some dp' \<Longrightarrow> dp' = dp \<or> dp' = Suc dp"
  by (auto simp: unescape_def bind_eq_Some_conv split: if_splits)

lemma parse_value_ge: "parse_value sep buf sp dp = Some (buf', sp', dp') \<Longrightarrow> length buf' = length buf \<and> dp \<le> dp' \<and> dp' < length buf"
proof (induction sep buf sp dp rule: parse_value.induct)
  case (1 sep buf sp dp)
  have dp: "dp < length buf" using 1(2) by (subst (asm) parse_value.simps) (simp split: if_splits)
  show ?case
  proof (cases "buf ! dp \<noteq> 0 \<and> buf ! dp \<noteq> sep")
    case True
    then obtain d c b s where d: "unescape buf dp = Some d" "rd buf d = Some c" "put buf sp c = Some (b, s)"
      "parse_value sep b s (Suc d) = Some (buf', sp', dp')"
      using 1(2) dp by (subst (asm) parse_value.simps) (auto simp: bind_eq_Some_conv)
    then show ?thesis using 1(1) [OF dp True d(1,2,3) refl] put_props [OF d(3)] unescape_ge [OF d(1)] by auto
  next
    case False
    then show ?thesis using 1(2) dp by (subst (asm) parse_value.simps) (simp split: if_splits)
  qed
qed

lemma delete_entry_ge: "delete_entry H buf name dp h hp = Some (ok, buf', dp', h', hp') \<Longrightarrow> length buf' = length buf \<and> dp < dp'"
  by (auto simp: delete_entry_def put_def bind_eq_Some_conv split: if_splits)

lemma enter_entry_ge:
  assumes "enter_entry H sep buf name dp h hp = Some (ok, buf', dp', h', hp')"
  shows "length buf' = length buf \<and> dp < dp'"
proof -
  obtain b1 b2 sp d where "put buf dp 0 = Some (b1, Suc dp)" "parse_value sep b1 (Suc dp) (Suc dp) = Some (b2, sp, d)"
    "length buf' = length b2" "dp' = Suc d"
    using assms by (auto simp: enter_entry_def put_def bind_eq_Some_conv Let_def split: if_splits)
  then show ?thesis using put_props [of buf dp 0 b1 "Suc dp"] parse_value_ge [of sep b1 "Suc dp" "Suc dp" b2 sp d] by auto
qed

lemma import_entry_ge:
  assumes "import_entry H sep buf dp h hp = Some (ok, buf', dp', h', hp')"
  shows "length buf' = length buf" "dp < dp'" "dp < length buf"
proof -
  obtain d where d: "scan_while (\<lambda>c. c = 32 \<or> c = 9) buf dp = Some d"
    using assms by (auto simp: import_entry_def bind_eq_Some_conv)
  note ge = scan_while_ge [OF d]
  have "length buf' = length buf \<and> dp < dp'"
  proof (cases "buf ! d = 35")
    case True
    then obtain e where "scan_while (\<lambda>c. c \<noteq> 0 \<and> c \<noteq> sep) buf d = Some e" "buf' = buf" "dp' = Suc e"
      using assms d by (auto simp: import_entry_def bind_eq_Some_conv)
    then show ?thesis using scan_while_ge ge by fastforce
  next
    case False
    then obtain e where e: "scan_while (\<lambda>c. c \<noteq> 61 \<and> c \<noteq> 0 \<and> c \<noteq> sep) buf d = Some e"
      "delete_entry H buf d e h hp = Some (ok, buf', dp', h', hp') \<or> enter_entry H sep buf d e h hp = Some (ok, buf', dp', h', hp')"
      using assms d by (auto simp: import_entry_def bind_eq_Some_conv split: if_splits)
    then show ?thesis using scan_while_ge [OF e(1)] delete_entry_ge enter_entry_ge ge by fastforce
  qed
  then show "length buf' = length buf" "dp < dp'" by auto
  show "dp < length buf" using ge by simp
qed

lemma import_entry_less:
  "import_entry H sep buf dp h hp = Some (ok, buf', dp', h', hp') \<Longrightarrow> length buf' - dp' < length buf - dp"
  using import_entry_ge [of H sep buf dp h hp ok buf' dp' h' hp'] by linarith

text \<open>The loop: it ends at the end of the buffer and at an empty string.\<close>

function import_loop :: "'h heap_ops \<Rightarrow> u8 \<Rightarrow> u8 list \<Rightarrow> nat \<Rightarrow> hsearch_data \<Rightarrow> 'h \<Rightarrow> (bool \<times> hsearch_data \<times> 'h) option" where
  "import_loop H sep buf dp h hp =
     do {
       (ok, buf, dp, h, hp) \<leftarrow> import_entry H sep buf dp h hp;
       if \<not> ok then Some (False, h, hp)
       else if dp < length buf \<and> buf ! dp \<noteq> 0 then import_loop H sep buf dp h hp
       else Some (True, h, hp)
     }"
  by pat_completeness auto
termination
  by (relation "measure (\<lambda>(H, sep, buf, dp, h, hp). length buf - dp)") (auto dest: import_entry_less)

declare import_loop.simps [simp del]

definition nent :: "nat \<Rightarrow> int" where
  "nent size' = min (64 + int size' div 8) 512"

text \<open>The first part: the copy of the input, and a table.\<close>

definition himport_r :: "'h heap_ops \<Rightarrow> 'h \<Rightarrow> hsearch_data option \<Rightarrow> u8 list \<Rightarrow> nat \<Rightarrow> u8 \<Rightarrow> bool \<Rightarrow>
    (int \<times> errno option \<times> hsearch_data option \<times> 'h) option" where
  "himport_r H hp htab env size' sep noclear =
     (case htab of
        None \<Rightarrow> Some (0, Some EINVAL, None, hp)
      | Some h \<Rightarrow>
          (case h_malloc H hp size' of
             (False, hp) \<Rightarrow> Some (0, Some ENOMEM, Some h, hp)
           | (True, hp) \<Rightarrow>
               if length env < size' then None
               else
                 do {
                   (_, h, hp) \<leftarrow> (if \<not> noclear \<and> table h \<noteq> None then hdestroy_r (h_free H) (h_free_table H) hp (Some h)
                                  else Some (None, Some h, hp));
                   h \<leftarrow> h;
                   (ok, e, h, hp) \<leftarrow> (if table h = None then hcreate_r (h_calloc H) hp (nent size') (Some h)
                                     else Some (1, None, Some h, hp));
                   h \<leftarrow> h;
                   if ok = 0 then Some (0, e, Some h, h_release H hp size')
                   else
                     do {
                       (ok, h, hp) \<leftarrow> import_loop H sep (take size' env) 0 h hp;
                       Some (if ok then (1, None, Some h, h_release H hp size') else (0, Some ENOMEM, Some h, hp))
                     }
                 }))"

section \<open>What the export writes\<close>

text \<open>The text of a value, of a list of entries, and writing it in one piece.\<close>

definition esc :: "u8 \<Rightarrow> cstr \<Rightarrow> u8 list" where
  "esc sep d = concat (map (\<lambda>c. if escaped sep c then [92, c] else [c]) d)"

definition entry_text :: "u8 \<Rightarrow> cstr \<times> cstr \<Rightarrow> u8 list" where
  "entry_text sep e = fst e @ 61 # esc sep (snd e) @ [sep]"

definition text_of :: "u8 \<Rightarrow> (cstr \<times> cstr) list \<Rightarrow> u8 list" where
  "text_of sep es = concat (map (entry_text sep) es)"

definition emit :: "u8 list \<Rightarrow> nat \<Rightarrow> u8 list \<Rightarrow> (u8 list \<times> nat) option" where
  "emit buf p bs =
     (if p + length bs \<le> length buf then Some (take p buf @ bs @ drop (p + length bs) buf, p + length bs) else None)"

lemma esc_simps [simp]:
  "esc sep [] = []" "esc sep (c # cs) = (if escaped sep c then [92, c] else [c]) @ esc sep cs"
  by (simp_all add: esc_def)

lemma text_of_simps [simp]: "text_of sep [] = []" "text_of sep (e # es) = entry_text sep e @ text_of sep es"
  by (simp_all add: text_of_def)

lemma emit_Nil: "p \<le> length buf \<Longrightarrow> emit buf p [] = Some (buf, p)"
  by (simp add: emit_def)

lemma emit_append: "p \<le> length buf \<Longrightarrow> emit buf p (xs @ ys) = do { (b, q) \<leftarrow> emit buf p xs; emit b q ys }"
  by (auto simp: emit_def min_def ac_simps)

lemma put_emit: "put buf p c = emit buf p [c]"
  by (auto simp: put_def emit_def upd_conv_take_nth_drop)

lemma emit_le: "emit buf p bs = Some (b, q) \<Longrightarrow> q \<le> length b"
  by (auto simp: emit_def split: if_splits)

lemma emit_then:
  "p \<le> length buf \<Longrightarrow> (\<And>b q. q \<le> length b \<Longrightarrow> f b q = emit b q ys) \<Longrightarrow> do { (b, q) \<leftarrow> emit buf p xs; f b q } = emit buf p (xs @ ys)"
  by (cases "emit buf p xs") (auto simp: emit_append dest: emit_le)

lemma put_then:
  "p \<le> length buf \<Longrightarrow> (\<And>b q. q \<le> length b \<Longrightarrow> f b q = emit b q ys) \<Longrightarrow> do { (b, q) \<leftarrow> put buf p c; f b q } = emit buf p (c # ys)"
  using emit_then [of p buf f ys "[c]"] by (simp add: put_emit)

lemma put_bytes_emit: "p \<le> length buf \<Longrightarrow> put_bytes buf p bs = emit buf p bs"
  by (induction bs arbitrary: buf p) (simp_all add: emit_Nil put_then)

lemma put_escaped_emit: "p \<le> length buf \<Longrightarrow> put_escaped sep buf p d = emit buf p (esc sep d)"
  by (induction d arbitrary: buf p) (simp_all add: emit_Nil put_then)

lemma put_entries_emit: "p \<le> length buf \<Longrightarrow> put_entries sep buf p es = emit buf p (text_of sep es)"
proof (induction es arbitrary: buf p)
  case (Cons e es)
  have t1: "do { (b, q) \<leftarrow> put b q sep; put_entries sep b q es } = emit b q (sep # text_of sep es)" if "q \<le> length b" for b q
    by (rule put_then [OF that]) (rule Cons.IH)
  have t2: "do { (b, q) \<leftarrow> put_escaped sep b q (snd e); (b, q) \<leftarrow> put b q sep; put_entries sep b q es } = emit b q (esc sep (snd e) @ sep # text_of sep es)"
    if "q \<le> length b" for b q
    unfolding put_escaped_emit [OF that] by (rule emit_then [OF that]) (rule t1)
  have t3: "do { (b, q) \<leftarrow> put b q 61; (b, q) \<leftarrow> put_escaped sep b q (snd e); (b, q) \<leftarrow> put b q sep; put_entries sep b q es } =
      emit b q (61 # esc sep (snd e) @ sep # text_of sep es)" if "q \<le> length b" for b q
    by (rule put_then [OF that]) (rule t2)
  have "put_entries sep buf p (e # es) = emit buf p (fst e @ 61 # esc sep (snd e) @ sep # text_of sep es)"
    unfolding put_entries.simps put_bytes_emit [OF Cons.prems] by (rule emit_then [OF Cons.prems]) (rule t3)
  then show ?case by (simp add: entry_text_def)
qed (simp add: emit_Nil)

lemma collect_used:
  "(\<And>b. b \<in> set bs \<Longrightarrow> used b \<noteq> 0 \<Longrightarrow> b_key b \<noteq> None \<and> b_data b \<noteq> None) \<Longrightarrow>
   collect bs = Some (map (\<lambda>b. (the (b_key b), the (b_data b))) (filter (\<lambda>b. used b \<noteq> 0) bs))"
  by (induction bs) fastforce+

lemma collect_entries:
  assumes "ht_inv h" "table h = Some t"
  shows "h_size h < int (length t)" "collect (take (nat (h_size h)) (tl t)) = Some (used_entries h)"
proof -
  let ?p = "h_size h"
  obtain g: "good_size ?p" and len: "int (length t) = ?p + 1" and pl: "\<forall>i\<in>{1..?p}. in_use t i \<longrightarrow> placed ?p t i"
    by (rule htD [OF assms(1)]) (use assms(2) in \<open>simp del: atLeastAtMost_iff\<close>)
  show "?p < int (length t)" using len by simp
  have "0 \<le> ?p" using g by (simp add: good_size_def)
  note tl = table_tl [OF len this]
  have "b_key b \<noteq> None \<and> b_data b \<noteq> None" if b: "b \<in> set (take (nat ?p) (tl t))" "used b \<noteq> 0" for b
  proof -
    obtain n where n: "n < nat ?p" "b = t ! nat (int n + 1)" using b(1) tl by (auto simp: in_set_conv_nth)
    then have "int n + 1 \<in> {1..?p}" "in_use t (int n + 1)" using b(2) by (auto simp: in_use_def)
    then have "placed ?p t (int n + 1)" using pl by blast
    then show ?thesis unfolding n(2) placed_def by auto
  qed
  then show "collect (take (nat ?p) (tl t)) = Some (used_entries h)"
    using collect_used assms(2) by (simp add: used_entries_def)
qed

text \<open>How the text relates to the room that is set aside for it.\<close>

definition backslashes :: "(cstr \<times> cstr) list \<Rightarrow> nat" where
  "backslashes es = sum_list (map (\<lambda>e. length (filter (\<lambda>c. c = 92) (snd e))) es)"

lemma length_esc: "sep \<noteq> 0 \<Longrightarrow> length (esc sep d) = data_room sep d"
  by (induction d) (auto simp: data_room_def)

lemma length_esc_0: "plain d \<Longrightarrow> length (esc 0 d) = length d + length (filter (\<lambda>c. c = 92) d)"
  by (induction d) (auto simp: escaped_def)

lemma totlen_text: "sep \<noteq> 0 \<Longrightarrow> totlen sep es = length (text_of sep es) + 2 * length es"
  by (induction es) (auto simp: totlen_def entry_text_def length_esc)

lemma totlen_text_0:
  "\<forall>e\<in>set es. plain (snd e) \<Longrightarrow> totlen 0 es + backslashes es = length (text_of 0 es) + 2 * length es"
  by (induction es) (auto simp: totlen_def entry_text_def length_esc_0 data_room_def backslashes_def)

lemma mset_sums:
  assumes "mset es = mset es'"
  shows "totlen sep es = totlen sep es'" "length (text_of sep es) = length (text_of sep es')" "backslashes es = backslashes es'" "length es = length es'"
proof -
  have s: "sum_list (map f es) = sum_list (map f es')" for f :: "cstr \<times> cstr \<Rightarrow> nat"
    using assms by (metis mset_map sum_mset_sum_list)
  show "totlen sep es = totlen sep es'" "backslashes es = backslashes es'" unfolding totlen_def backslashes_def by (rule s)+
  show "length (text_of sep es) = length (text_of sep es')" unfolding text_of_def length_concat map_map by (rule s)
  show "length es = length es'" using assms by (rule mset_eq_length)
qed

interpretation ck: comparison "\<lambda>e. ascii (fst e)" cmpkey
  by unfold_locales (simp_all add: cmpkey_def strcmp_total, meson strcmp_trans)

definition sorted_entries :: "hsearch_data \<Rightarrow> (cstr \<times> cstr) list" where
  "sorted_entries h = (case qsort cmpkey 4 (used_entries h) of Some es \<Rightarrow> es | None \<Rightarrow> [])"

lemma sorted_entries:
  "qsort cmpkey 4 (used_entries h) = Some (sorted_entries h)" "mset (sorted_entries h) = mset (used_entries h)"
  using qsort_permutes [of 4 cmpkey "used_entries h"] by (auto simp: sorted_entries_def)

lemma sorted_entries_sorted:
  "\<forall>e\<in>set (used_entries h). ascii (fst e) \<Longrightarrow> sorted_wrt (\<lambda>e f. strcmp (fst e) (fst f) \<le> 0) (sorted_entries h)"
  using ck.qsort_sorts [of "used_entries h" 4] by (auto simp: cmpkey_def sorted_entries_def)

lemmas sorted_sums = mset_sums [OF sorted_entries(2)]

lemma set_sorted_entries: "set (sorted_entries h) = set (used_entries h)"
  using sorted_entries(2) by (rule mset_eq_setD)

lemma put_final:
  assumes "length text \<le> length buf"
  shows "do { (buf, p) \<leftarrow> emit buf 0 text; (buf, p) \<leftarrow> put buf p 0; Some (f buf) } =
    (if length text < length buf then Some (f (text @ 0 # drop (Suc (length text)) buf)) else None)"
proof -
  have "emit buf 0 text = Some (text @ drop (length text) buf, length text)" using assms by (simp add: emit_def)
  moreover have "put (text @ drop (length text) buf) (length text) 0 =
    (if length text < length buf then Some (text @ 0 # drop (Suc (length text)) buf, Suc (length text)) else None)"
    by (auto simp: put_def list_update_append drop_Suc nth_append simp flip: Cons_nth_drop_Suc)
  ultimately show ?thesis by simp
qed

text \<open>The export writes the text of the sorted entries and fills the rest of the buffer with zeros, as long as the
  text and the final zero fit in the buffer; otherwise it writes outside of the buffer.\<close>

lemma hexport_small:
  assumes "ht_inv h" "size' \<noteq> 0" "size' \<le> totlen sep (used_entries h)"
  shows "hexport_r H hp (Some h) sep (Some res) size' = Some (-1, Some ENOMEM, Some res, hp)"
proof -
  obtain t where t: "table h = Some t" by (rule htD [OF assms(1)])
  show ?thesis using assms t collect_entries [OF assms(1) t] sorted_entries(1) by (simp add: hexport_r_def)
qed

lemma new_buffer: "h_malloc H hp sz = (True, hp') \<Longrightarrow> result_buffer H hp None sz = Some (Some (replicate sz 0), hp')"
  by (simp add: result_buffer_def)

lemma own_buffer: "length buf = sz \<Longrightarrow> result_buffer H hp (Some buf) sz = Some (Some (replicate sz 0), hp)"
  by (simp add: result_buffer_def)

lemma hexport_value:
  assumes "ht_inv h" "sz = (if size' \<noteq> 0 then size' else totlen sep (used_entries h) + 1)" "totlen sep (used_entries h) < sz"
    and "result_buffer H hp res sz = Some (Some (replicate sz 0), hp')" "text = text_of sep (sorted_entries h)"
  shows "hexport_r H hp (Some h) sep (Some res) size' =
    (if length text < sz then Some (int sz, None, Some (Some (text @ replicate (sz - length text) 0)), hp') else None)"
proof -
  obtain t where t: "table h = Some t" by (rule htD [OF assms(1)])
  have "hexport_r H hp (Some h) sep (Some res) size' =
      do { (buf, p) \<leftarrow> emit (replicate sz 0) 0 text; (buf, p) \<leftarrow> put buf p 0; Some (int sz, None, Some (Some buf), hp') }"
    using t collect_entries [OF assms(1) t] sorted_entries(1) assms(2-5)
    by (simp add: hexport_r_def put_entries_emit Let_def split: if_splits)
  also have "\<dots> = (if length text < sz then Some (int sz, None, Some (Some (text @ replicate (sz - length text) 0)), hp') else None)"
  proof (cases "length text \<le> sz")
    case True
    moreover have "replicate (sz - length text) (0 :: u8) = 0 # replicate (sz - Suc (length text)) 0" if "length text < sz"
      using that by (simp flip: replicate_Suc Suc_diff_Suc)
    ultimately show ?thesis by (subst put_final) simp_all
  next
    case False
    then show ?thesis by (simp add: emit_def)
  qed
  finally show ?thesis .
qed

section \<open>What the import reads\<close>

lemma scan_while_skip:
  assumes "\<forall>c\<in>set xs. P c" "\<not> P y"
  shows "scan_while P (pre @ xs @ y # zs) (length pre) = Some (length pre + length xs)"
  using assms(1)
proof (induction xs arbitrary: pre)
  case Nil
  then show ?case using assms(2) by (subst scan_while.simps) (simp add: nth_append)
next
  case (Cons x xs)
  then show ?case using Cons.IH [of "pre @ [x]"] by (subst scan_while.simps) (simp add: nth_append)
qed

lemma cstr_at_text: "plain s \<Longrightarrow> cstr_at (pre @ s @ 0 # zs) (length pre) = Some s"
proof -
  assume "plain s"
  then have "takeWhile (\<lambda>c. c \<noteq> 0) (s @ 0 # zs) = s @ takeWhile (\<lambda>c. c \<noteq> 0) (0 # zs)"
    by (intro takeWhile_append2) (auto simp: plain_def)
  then show "cstr_at (pre @ s @ 0 # zs) (length pre) = Some s" by (simp add: cstr_at_def)
qed

text \<open>The separators the environment is written with.\<close>

definition sep_ok :: "u8 \<Rightarrow> bool" where
  "sep_ok sep \<longleftrightarrow> sep = 0 \<or> sep = 10"

lemma parse_value_step:
  assumes "sep_ok sep" "c \<noteq> 0"
  shows "\<exists>gap'. parse_value sep (pre @ gap @ (if escaped sep c then [92, c] else [c]) @ rest) (length pre) (length pre + length gap) =
      parse_value sep ((pre @ [c]) @ gap' @ rest) (length (pre @ [c])) (length (pre @ [c]) + length gap') \<and>
    length pre + length gap + length (if escaped sep c then [92, c] else [c]) = length (pre @ [c]) + length gap'"
proof -
  let ?x = "if escaped sep c then [92, c] else [c]"
  define b where "b = pre @ gap @ ?x @ rest"
  define d where "d = length pre + length gap + (if escaped sep c then 1 else 0)"
  have stop: "b ! (length pre + length gap) \<noteq> 0 \<and> b ! (length pre + length gap) \<noteq> sep"
    using assms by (auto simp: b_def nth_append escaped_def sep_ok_def)
  have un: "unescape b (length pre + length gap) = Some d"
    using assms by (auto simp: b_def d_def unescape_def rd_def nth_append escaped_def)
  have rd: "rd b d = Some c" by (auto simp: b_def d_def rd_def nth_append)
  have "parse_value sep b (length pre) (length pre + length gap) = parse_value sep (b[length pre := c]) (Suc (length pre)) (Suc d)"
    using stop un rd by (subst parse_value.simps) (auto simp: b_def put_def)
  moreover have "b[length pre := c] = (pre @ [c]) @ tl (gap @ ?x) @ rest"
    by (cases gap) (auto simp: b_def)
  moreover have "Suc d = length (pre @ [c]) + length (tl (gap @ ?x))"
    by (auto simp: d_def)
  ultimately show ?thesis unfolding b_def by (intro exI [of _ "tl (gap @ ?x)"]) (auto simp: Suc_diff_Suc)
qed

lemma parse_value_text:
  assumes "sep_ok sep" "plain d" "c = 0 \<or> c = sep"
  shows "\<exists>gap'. parse_value sep (pre @ gap @ esc sep d @ c # rest) (length pre) (length pre + length gap) =
    Some (pre @ d @ gap' @ c # rest, length pre + length d, length pre + length d + length gap') \<and>
    length d + length gap' = length gap + length (esc sep d)"
  using assms(2)
proof (induction d arbitrary: pre gap)
  case Nil
  then show ?case using assms(3) by (subst parse_value.simps) (auto simp: nth_append)
next
  case (Cons x xs)
  obtain g where g: "parse_value sep (pre @ gap @ (if escaped sep x then [92, x] else [x]) @ esc sep xs @ c # rest) (length pre) (length pre + length gap) =
      parse_value sep ((pre @ [x]) @ g @ esc sep xs @ c # rest) (length (pre @ [x])) (length (pre @ [x]) + length g)"
    "length pre + length gap + length (if escaped sep x then [92, x] else [x]) = length (pre @ [x]) + length g"
    using parse_value_step [OF assms(1), of x pre gap "esc sep xs @ c # rest"] Cons.prems by auto
  obtain gap' where "parse_value sep ((pre @ [x]) @ g @ esc sep xs @ c # rest) (length (pre @ [x])) (length (pre @ [x]) + length g) =
      Some ((pre @ [x]) @ xs @ gap' @ c # rest, length (pre @ [x]) + length xs, length (pre @ [x]) + length xs + length gap')"
    "length xs + length gap' = length g + length (esc sep xs)"
    using Cons.IH [of "pre @ [x]" g] Cons.prems by auto
  then show ?case using g by (intro exI [of _ gap']) simp
qed

text \<open>The variables that survive: names without \<open>=\<close> and separator that do not look like a comment or start with a
  blank, and values that are not empty.\<close>

definition good_name :: "u8 \<Rightarrow> cstr \<Rightarrow> bool" where
  "good_name sep k \<longleftrightarrow> plain k \<and> 61 \<notin> set k \<and> sep \<notin> set k \<and> (k = [] \<or> hd k \<notin> {32, 9, 35})"

definition good_entry :: "u8 \<Rightarrow> cstr \<times> cstr \<Rightarrow> bool" where
  "good_entry sep e \<longleftrightarrow> good_name sep (fst e) \<and> plain (snd e) \<and> snd e \<noteq> []"

lemma esc_first: "sep_ok sep \<Longrightarrow> plain d \<Longrightarrow> d \<noteq> [] \<Longrightarrow> \<exists>c cs. esc sep d = c # cs \<and> c \<noteq> 0 \<and> c \<noteq> sep"
  by (cases d) (auto simp: escaped_def sep_ok_def)

lemma entry_first:
  assumes "sep_ok sep" "good_entry sep e"
  shows "\<exists>c cs. entry_text sep e = c # cs \<and> c \<noteq> 0 \<and> c \<noteq> 32 \<and> c \<noteq> 9 \<and> c \<noteq> 35"
  using assms by (cases "fst e") (auto simp: entry_text_def good_entry_def good_name_def sep_ok_def)

lemma enter_entry_text:
  assumes "sep_ok sep" "good_entry sep (k, d)"
  shows "\<exists>mid. enter_entry H sep (pre @ entry_text sep (k, d) @ rest) (length pre) (length pre + length k) h hp =
    do {
      (r, h, hp) \<leftarrow> hsearch_r (h_strdup H) (h_free H) hp \<lparr>e_key = k, e_data = Some d\<rparr> ENTER h;
      Some (retval r \<noteq> None, mid @ rest, length mid, h, hp)
    } \<and> length mid = length pre + length (entry_text sep (k, d))"
proof -
  have pl: "plain k" "plain d" using assms(2) by (auto simp: good_entry_def good_name_def)
  define b1 where "b1 = (pre @ k @ [0]) @ [] @ esc sep d @ sep # rest"
  have p1: "put (pre @ entry_text sep (k, d) @ rest) (length pre + length k) 0 = Some (b1, length (pre @ k @ [0]))"
    by (simp add: put_def entry_text_def b1_def list_update_append)
  obtain gap where gap: "parse_value sep b1 (length (pre @ k @ [0])) (length (pre @ k @ [0])) =
      Some ((pre @ k @ [0]) @ d @ gap @ sep # rest, length (pre @ k @ [0]) + length d, length (pre @ k @ [0]) + length d + length gap)"
    "length d + length gap = length (esc sep d)"
    using parse_value_text [OF assms(1) pl(2), of sep "pre @ k @ [0]" "[]" rest] by (auto simp: b1_def)
  define tail where "tail = tl (gap @ [sep])"
  have p2: "put ((pre @ k @ [0]) @ d @ gap @ sep # rest) (length (pre @ k @ [0]) + length d) 0 =
      Some ((pre @ k @ [0]) @ d @ 0 # tail @ rest, Suc (length (pre @ k @ [0]) + length d))"
    by (cases gap) (auto simp: put_def list_update_append tail_def)
  have n: "cstr_at ((pre @ k @ [0]) @ d @ 0 # tail @ rest) (length pre) = Some k"
    using cstr_at_text [OF pl(1), of pre "d @ 0 # tail @ rest"] by simp
  have v: "cstr_at ((pre @ k @ [0]) @ d @ 0 # tail @ rest) (length (pre @ k @ [0])) = Some d"
    by (rule cstr_at_text [OF pl(2)])
  define mid where "mid = (pre @ k @ [0]) @ d @ 0 # tail"
  have len: "Suc (length (pre @ k @ [0]) + length d + length gap) = length mid" by (simp add: mid_def tail_def)
  have "enter_entry H sep (pre @ entry_text sep (k, d) @ rest) (length pre) (length pre + length k) h hp =
    do {
      (r, h, hp) \<leftarrow> hsearch_r (h_strdup H) (h_free H) hp \<lparr>e_key = k, e_data = Some d\<rparr> ENTER h;
      Some (retval r \<noteq> None, mid @ rest, length mid, h, hp)
    }"
    unfolding enter_entry_def p1 by (simp only: bind.bind_lunit case_prod_conv Let_def gap(1) p2 n v len) (simp add: mid_def)
  moreover have "length mid = length pre + length (entry_text sep (k, d))"
    using gap(2) by (simp add: mid_def tail_def entry_text_def)
  ultimately show ?thesis by blast
qed

lemma import_entry_text:
  assumes "sep_ok sep" "good_entry sep (k, d)"
  shows "import_entry H sep (pre @ entry_text sep (k, d) @ rest) (length pre) h hp =
    enter_entry H sep (pre @ entry_text sep (k, d) @ rest) (length pre) (length pre + length k) h hp"
proof -
  let ?b = "pre @ entry_text sep (k, d) @ rest"
  obtain c cs where c: "entry_text sep (k, d) = c # cs" "c \<noteq> 0" "c \<noteq> 32" "c \<noteq> 9" "c \<noteq> 35"
    using entry_first [OF assms] by blast
  have s1: "scan_while (\<lambda>c. c = 32 \<or> c = 9) ?b (length pre) = Some (length pre)"
    using c by (subst scan_while.simps) (simp add: nth_append)
  have name: "\<forall>x\<in>set k. x \<noteq> 61 \<and> x \<noteq> 0 \<and> x \<noteq> sep" using assms(2) by (auto simp: good_entry_def good_name_def plain_def)
  have s2: "scan_while (\<lambda>c. c \<noteq> 61 \<and> c \<noteq> 0 \<and> c \<noteq> sep) ?b (length pre) = Some (length pre + length k)"
    using scan_while_skip [of k "\<lambda>c. c \<noteq> 61 \<and> c \<noteq> 0 \<and> c \<noteq> sep" 61 pre "(esc sep d @ [sep]) @ rest"] name
    by (simp add: entry_text_def)
  obtain e es where e: "esc sep d = e # es" "e \<noteq> 0" "e \<noteq> sep"
    using esc_first [OF assms(1), of d] assms(2) by (auto simp: good_entry_def)
  have nv: "no_value sep ?b (length pre + length k) = Some False"
    using e assms(1) by (auto simp: no_value_def rd_def entry_text_def nth_append sep_ok_def)
  have at: "\<not> ?b ! length pre = 35" using c by (simp add: nth_append)
  show ?thesis unfolding import_entry_def by (simp only: s1 s2 nv at bind.bind_lunit if_False simp_thms)
qed

text \<open>The loop over a text enters its entries one after the other.\<close>

lemma import_loop_text:
  assumes "sep_ok sep" "\<forall>e\<in>set es. good_entry sep e" "es \<noteq> []" "rest = [] \<or> hd rest = 0"
    and "enter_list (enter_var (h_strdup H) (h_free H)) (h, hp) es = Some s"
  shows "import_loop H sep (pre @ text_of sep es @ rest) (length pre) h hp = Some (True, s)"
  using assms(2,3,5)
proof (induction es arbitrary: pre h hp)
  case (Cons e es)
  obtain k d where e: "e = (k, d)" by (cases e)
  obtain r h1 hp1 where r: "hsearch_r (h_strdup H) (h_free H) hp \<lparr>e_key = k, e_data = Some d\<rparr> ENTER h = Some (r, h1, hp1)" "retval r \<noteq> None"
    and s: "enter_list (enter_var (h_strdup H) (h_free H)) (h1, hp1) es = Some s"
  proof -
    obtain s1 where s1: "enter_var (h_strdup H) (h_free H) (h, hp) k d = Some s1" "enter_list (enter_var (h_strdup H) (h_free H)) s1 es = Some s"
      using Cons.prems(3) by (auto simp: e bind_eq_Some_conv)
    then show thesis using that by (cases s1) (auto simp: enter_var_def bind_eq_Some_conv split: if_splits)
  qed
  obtain mid where m: "import_entry H sep (pre @ entry_text sep e @ text_of sep es @ rest) (length pre) h hp =
      Some (True, mid @ text_of sep es @ rest, length mid, h1, hp1)"
    using enter_entry_text [OF assms(1), of k d H pre "text_of sep es @ rest" h hp] import_entry_text [OF assms(1), of k d H pre "text_of sep es @ rest" h hp]
      Cons.prems(1) r by (auto simp: e)
  show ?case
  proof (cases es)
    case Nil
    then show ?thesis using m s assms(4) by (subst import_loop.simps) (cases rest, auto simp: nth_append)
  next
    case (Cons f fs)
    then obtain c cs where "entry_text sep f = c # cs" "c \<noteq> 0" using entry_first [OF assms(1), of f] Cons.prems(1) by auto
    moreover have "import_loop H sep (mid @ text_of sep es @ rest) (length mid) h1 hp1 = Some (True, s)"
      using Cons.IH [of h1 hp1 mid] Cons.prems(1) s \<open>es = f # fs\<close> by simp
    ultimately show ?thesis using m \<open>es = f # fs\<close> by (subst import_loop.simps) (simp add: nth_append)
  qed
qed simp

text \<open>An empty text is an empty name, which is not found.\<close>

lemma import_loop_empty:
  assumes "ht_inv h" "lookup h = Map.empty" "0 < n"
  shows "import_loop H sep (replicate n 0) 0 h hp = Some (True, h, hp)"
proof -
  obtain m where n: "n = Suc m" using assms(3) by (cases n) auto
  have s1: "scan_while (\<lambda>c. c = 32 \<or> c = 9) (replicate n 0) 0 = Some 0"
    by (subst scan_while.simps) (simp add: n)
  have s2: "scan_while (\<lambda>c. c \<noteq> 61 \<and> c \<noteq> 0 \<and> c \<noteq> sep) (replicate n 0) 0 = Some 0"
    by (subst scan_while.simps) (simp add: n)
  have "hdelete_r (h_strdup H) (h_free H) hp [] h = Some (0, Some ESRCH, h, hp)"
    using hsearch_find(1) [OF assms(1), of "h_strdup H" "h_free H" hp "[]" None] assms(2) by (simp add: hdelete_r_def)
  then have "delete_entry H (replicate n 0) 0 0 h hp = Some (True, replicate n 0, 1, h, hp)"
    using cstr_at_text [of "[]" "[]" "replicate m 0"] by (simp add: delete_entry_def put_def n)
  moreover have "no_value sep (replicate n 0) 0 = Some True" "\<not> replicate n (0 :: u8) ! 0 = 35" by (simp_all add: no_value_def n)
  ultimately have "import_entry H sep (replicate n 0) 0 h hp = Some (True, replicate n 0, 1, h, hp)"
    unfolding import_entry_def by (simp only: s1 s2 bind.bind_lunit if_False if_True simp_thms)
  then show ?thesis by (subst import_loop.simps) auto
qed

text \<open>A heap that does not run out of memory.\<close>

definition sure_heap :: "'h heap_ops \<Rightarrow> bool" where
  "sure_heap H \<longleftrightarrow> reliable (h_strdup H) \<and> (\<forall>hp n. fst (h_calloc H hp n)) \<and> (\<forall>hp n. fst (h_malloc H hp n))"

lemma nent_range: "64 \<le> nent n" "nent n \<le> 512"
  by (auto simp: nent_def)

lemma himport_start:
  assumes "sure_heap H" "table h = None \<or> ht_inv h"
  obtains hp1 h1 where "himport_r H hp (Some h) buf (length buf) sep False =
      do {
        (ok, h, hp) \<leftarrow> import_loop H sep buf 0 h1 hp1;
        Some (if ok then (1, None, Some h, h_release H hp (length buf)) else (0, Some ENOMEM, Some h, hp))
      }" "ht_inv h1" "lookup h1 = Map.empty" "nent (length buf) \<le> h_size h1"
proof -
  obtain hp0 where m: "h_malloc H hp (length buf) = (True, hp0)" using assms(1) by (metis prod.collapse sure_heap_def)
  define clear where "clear = (if table h \<noteq> None then hdestroy_r (h_free H) (h_free_table H) hp0 (Some h) else Some (None, Some h, hp0))"
  have "\<exists>h2 hp2. clear = Some (None, Some h2, hp2) \<and> table h2 = None"
  proof (cases "table h")
    case (Some t)
    then have "ht_inv h" using assms(2) by simp
    from collect_entries(1) [OF this Some] show ?thesis using Some by (simp add: clear_def hdestroy_r_def)
  qed (simp add: clear_def)
  then obtain h2 hp2 where c: "clear = Some (None, Some h2, hp2)" "table h2 = None" by blast
  obtain h1 hp1 where h1: "hcreate_r (h_calloc H) hp2 (nent (length buf)) (Some h2) = Some (1, None, Some h1, hp1)"
    "ht_inv h1" "lookup h1 = Map.empty" "nent (length buf) \<le> h_size h1"
    using hcreate_ok [OF c(2), of "nent (length buf)" "h_calloc H" hp2] nent_range [of "length buf"] assms(1) by (auto simp: sure_heap_def)
  have "himport_r H hp (Some h) buf (length buf) sep False =
      do {
        (ok, h, hp) \<leftarrow> import_loop H sep buf 0 h1 hp1;
        Some (if ok then (1, None, Some h, h_release H hp (length buf)) else (0, Some ENOMEM, Some h, hp))
      }"
    using m c h1(1) by (simp add: himport_r_def clear_def)
  then show thesis using that h1 by blast
qed

lemma himport_text:
  assumes "sure_heap H" "table h = None \<or> ht_inv h" "sep_ok sep" "\<forall>e\<in>set es. good_entry sep e" "0 < k"
    and "buf = text_of sep es @ replicate k 0" "int (card (fst ` set es)) \<le> nent (length buf)"
  shows "\<exists>h' hp'. himport_r H hp (Some h) buf (length buf) sep False = Some (1, None, Some h', hp') \<and> ht_inv h' \<and> lookup h' = map_of (rev es)"
proof -
  obtain hp1 h1 where i: "himport_r H hp (Some h) buf (length buf) sep False =
      do {
        (ok, h, hp) \<leftarrow> import_loop H sep buf 0 h1 hp1;
        Some (if ok then (1, None, Some h, h_release H hp (length buf)) else (0, Some ENOMEM, Some h, hp))
      }" "ht_inv h1" "lookup h1 = Map.empty" "nent (length buf) \<le> h_size h1"
    by (rule himport_start [OF assms(1,2)])
  have rel: "reliable (h_strdup H)" using assms(1) by (simp add: sure_heap_def)
  have card: "card (fst ` set es) \<le> nat (h_size h1)" using i(4) assms(7) by linarith
  obtain s where s: "enter_list (enter_var (h_strdup H) (h_free H)) (h1, hp1) es = Some s" "ht_inv (fst s)" "lookup (fst s) = map_of (rev es)"
    using ht.enter_list_ok [of "(h1, hp1)" "h_strdup H" es "h_free H"] i(2,3) rel card by auto
  have "import_loop H sep buf 0 h1 hp1 = Some (True, s)"
  proof (cases "es = []")
    case True
    then show ?thesis using import_loop_empty [OF i(2,3) assms(5)] s(1) assms(6) by auto
  next
    case False
    then show ?thesis using import_loop_text [OF assms(3,4) False _ s(1), of "replicate k 0" "[]"] assms(5,6) by simp
  qed
  then show ?thesis using i(1) s by (cases s) simp
qed

subsection \<open>A small table\<close>

definition unit_heap :: "unit heap_ops" where
  "unit_heap = \<lparr>h_strdup = sure_strdup, h_free = sure_free, h_calloc = \<lambda>hp n. (True, hp), h_free_table = \<lambda>hp t. hp,
     h_malloc = \<lambda>hp n. (True, hp), h_release = \<lambda>hp n. hp\<rparr>"

lemma unit_heap_sure: "sure_heap unit_heap"
  by (simp add: sure_heap_def unit_heap_def sure_reliable)

lemma entered_inv:
  assumes "enter_list (enter_var sure_strdup sure_free) (five_buckets, ()) kvs = Some (h, ())" "length kvs \<le> 5"
  shows "ht_inv h"
proof -
  have "card (fst ` set kvs) \<le> 5" using card_length [of "map fst kvs"] assms(2) by simp
  moreover have "nat (h_size five_buckets) = 5" by (simp add: five_buckets_def)
  ultimately show ?thesis
    using ht.enter_list_ok [of "(five_buckets, ())" sure_strdup kvs sure_free] five_buckets_inv sure_reliable assms(1) by auto
qed

lemma two_vars_inv: "ht_inv two_vars"
  by (rule entered_inv [of "[([97], [49]), ([102], [50])]"]) (code_simp, simp)

definition slash_var :: hsearch_data where
  "slash_var = \<lparr>table = Some ((replicate 6 empty_bucket)[3 := \<lparr>used = 3, b_key = Some [97], b_data = Some [92, 92, 92]\<rparr>]), h_size = 5, filled = 1\<rparr>"

lemma slash_var_inv: "ht_inv slash_var"
  by (rule entered_inv [of "[([97], [92, 92, 92])]"]) (code_simp, simp)

lemma small_entries: "used_entries two_vars = [([102], [50]), ([97], [49])]" "used_entries slash_var = [([97], [92, 92, 92])]"
  by code_simp+

section \<open>Properties\<close>



text \<open>C30: with the separator zero the room for escapes is not counted.  The buffer the export allocates is large enough
  exactly when all values together have at most two backslashes per variable; otherwise it writes outside.\<close>

theorem hexport_binary_overflow:
  assumes "ht_inv h" "sure_heap H" "\<forall>e\<in>set (used_entries h). plain (snd e)"
  shows "hexport_r H hp (Some h) 0 (Some None) 0 = None \<longleftrightarrow> 2 * length (used_entries h) < backslashes (used_entries h)"
proof -
  let ?es = "sorted_entries h" and ?n = "totlen 0 (used_entries h) + 1"
  have n: "totlen 0 (used_entries h) + backslashes (used_entries h) = length (text_of 0 ?es) + 2 * length (used_entries h)"
    using totlen_text_0 [OF assms(3)] sorted_sums(2) [of 0 h] by simp
  obtain hp' where "h_malloc H hp ?n = (True, hp')" using assms(2) by (metis prod.collapse sure_heap_def)
  then have "hexport_r H hp (Some h) 0 (Some None) 0 = None \<longleftrightarrow> \<not> length (text_of 0 ?es) < ?n"
    using hexport_value [OF assms(1) _ _ new_buffer refl, of ?n 0 0 H hp hp'] by simp
  then show ?thesis using n by linarith
qed

lemma hexport_binary_overflow_witness: "hexport_r unit_heap () (Some slash_var) 0 (Some None) 0 = None"
  using hexport_binary_overflow [OF slash_var_inv unit_heap_sure, of "()"] by (simp add: small_entries backslashes_def)

text \<open>C4: exporting a table and importing the text gives back the variables: every heap that does not run out of memory,
  a buffer that has room for the text, names and values the text format can express, and no more variables than the new table
  is made for.  The imported table has the same map, whatever the table it replaces.\<close>

theorem env_roundtrip:
  assumes "ht_inv h" "sep_ok sep" "\<forall>e\<in>set (used_entries h). good_entry sep e" "sure_heap H" "table h0 = None \<or> ht_inv h0"
    and "totlen sep (used_entries h) < sz" "length (text_of sep (used_entries h)) < sz" "int (length (used_entries h)) \<le> nent sz"
  shows "\<exists>buf hp1 h' hp2. hexport_r H hp (Some h) sep (Some None) sz = Some (int sz, None, Some (Some buf), hp1) \<and>
    himport_r H hp1 (Some h0) buf sz sep False = Some (1, None, Some h', hp2) \<and> ht_inv h' \<and> lookup h' = lookup h"
proof -
  let ?es = "sorted_entries h"
  define img where "img = text_of sep ?es"
  obtain hp1 where "h_malloc H hp sz = (True, hp1)" using assms(4) by (metis prod.collapse sure_heap_def)
  moreover have len: "length img < sz" using assms(7) sorted_sums(2) [of sep h] by (simp add: img_def)
  ultimately have e: "hexport_r H hp (Some h) sep (Some None) sz = Some (int sz, None, Some (Some (img @ replicate (sz - length img) 0)), hp1)"
    using hexport_value [OF assms(1) _ assms(6) new_buffer, of sz H hp hp1 img] assms(6) by (simp add: img_def)
  have "int (card (fst ` set ?es)) \<le> nent (length (img @ replicate (sz - length img) 0))"
    using assms(8) len card_length [of "map fst ?es"] sorted_sums(4) [of h] by simp
  then obtain h' hp2 where i: "himport_r H hp1 (Some h0) (img @ replicate (sz - length img) 0) sz sep False = Some (1, None, Some h', hp2)"
      "ht_inv h'" "lookup h' = map_of (rev ?es)"
    using himport_text [OF assms(4,5,2), of ?es "sz - length img" "img @ replicate (sz - length img) 0" hp1]
      assms(3) set_sorted_entries [of h] len by (auto simp: img_def)
  have d: "distinct (map fst (used_entries h))" by (rule distinct_used_entries [OF assms(1)])
  have "mset (map fst ?es) = mset (map fst (used_entries h))" using sorted_entries(2) [of h] by simp
  then have "distinct (map fst ?es)" using d mset_eq_imp_distinct_iff by blast
  then have "map_of (rev ?es) = map_of (used_entries h)"
    using d set_sorted_entries [of h] map_of_inject_set [of "rev ?es" "used_entries h"] by (simp add: rev_map [symmetric])
  then show ?thesis using e i by (auto simp: lookup_def)
qed

lemma env_roundtrip_witness:
  "\<exists>buf hp1 h' hp2. hexport_r unit_heap () (Some two_vars) 0 (Some None) 64 = Some (64, None, Some (Some buf), hp1) \<and>
    himport_r unit_heap hp1 (Some five_buckets) buf 64 0 False = Some (1, None, Some h', hp2) \<and> ht_inv h' \<and> lookup h' = lookup two_vars"
  using env_roundtrip [OF two_vars_inv _ _ unit_heap_sure, of 0 five_buckets 64 "()"] five_buckets_inv(1)
  by (auto simp: small_entries sep_ok_def good_entry_def good_name_def totlen_def data_room_def entry_text_def escaped_def nent_def)

end
