(* ===== verification/Crc.thy ===== *)
theory Crc
  imports Memory
begin

text \<open>
  The checksums of the boot loader: \<^verbatim>\<open>lib/crc32.c\<close> (images, environment) and \<^verbatim>\<open>lib/crc16.c\<close>
  (serial transfers).  The target is little endian, so \<open>cpu_to_le32\<close>, \<open>le32_to_cpu\<close> and \<open>tole\<close>
  are the identity.
\<close>

section \<open>The tables\<close>

definition crc_table :: "u32w list" where
  "crc_table =
    [0x00000000, 0x77073096, 0xee0e612c, 0x990951ba, 0x076dc419, 0x706af48f, 0xe963a535, 0x9e6495a3,
     0x0edb8832, 0x79dcb8a4, 0xe0d5e91e, 0x97d2d988, 0x09b64c2b, 0x7eb17cbd, 0xe7b82d07, 0x90bf1d91,
     0x1db71064, 0x6ab020f2, 0xf3b97148, 0x84be41de, 0x1adad47d, 0x6ddde4eb, 0xf4d4b551, 0x83d385c7,
     0x136c9856, 0x646ba8c0, 0xfd62f97a, 0x8a65c9ec, 0x14015c4f, 0x63066cd9, 0xfa0f3d63, 0x8d080df5,
     0x3b6e20c8, 0x4c69105e, 0xd56041e4, 0xa2677172, 0x3c03e4d1, 0x4b04d447, 0xd20d85fd, 0xa50ab56b,
     0x35b5a8fa, 0x42b2986c, 0xdbbbc9d6, 0xacbcf940, 0x32d86ce3, 0x45df5c75, 0xdcd60dcf, 0xabd13d59,
     0x26d930ac, 0x51de003a, 0xc8d75180, 0xbfd06116, 0x21b4f4b5, 0x56b3c423, 0xcfba9599, 0xb8bda50f,
     0x2802b89e, 0x5f058808, 0xc60cd9b2, 0xb10be924, 0x2f6f7c87, 0x58684c11, 0xc1611dab, 0xb6662d3d,
     0x76dc4190, 0x01db7106, 0x98d220bc, 0xefd5102a, 0x71b18589, 0x06b6b51f, 0x9fbfe4a5, 0xe8b8d433,
     0x7807c9a2, 0x0f00f934, 0x9609a88e, 0xe10e9818, 0x7f6a0dbb, 0x086d3d2d, 0x91646c97, 0xe6635c01,
     0x6b6b51f4, 0x1c6c6162, 0x856530d8, 0xf262004e, 0x6c0695ed, 0x1b01a57b, 0x8208f4c1, 0xf50fc457,
     0x65b0d9c6, 0x12b7e950, 0x8bbeb8ea, 0xfcb9887c, 0x62dd1ddf, 0x15da2d49, 0x8cd37cf3, 0xfbd44c65,
     0x4db26158, 0x3ab551ce, 0xa3bc0074, 0xd4bb30e2, 0x4adfa541, 0x3dd895d7, 0xa4d1c46d, 0xd3d6f4fb,
     0x4369e96a, 0x346ed9fc, 0xad678846, 0xda60b8d0, 0x44042d73, 0x33031de5, 0xaa0a4c5f, 0xdd0d7cc9,
     0x5005713c, 0x270241aa, 0xbe0b1010, 0xc90c2086, 0x5768b525, 0x206f85b3, 0xb966d409, 0xce61e49f,
     0x5edef90e, 0x29d9c998, 0xb0d09822, 0xc7d7a8b4, 0x59b33d17, 0x2eb40d81, 0xb7bd5c3b, 0xc0ba6cad,
     0xedb88320, 0x9abfb3b6, 0x03b6e20c, 0x74b1d29a, 0xead54739, 0x9dd277af, 0x04db2615, 0x73dc1683,
     0xe3630b12, 0x94643b84, 0x0d6d6a3e, 0x7a6a5aa8, 0xe40ecf0b, 0x9309ff9d, 0x0a00ae27, 0x7d079eb1,
     0xf00f9344, 0x8708a3d2, 0x1e01f268, 0x6906c2fe, 0xf762575d, 0x806567cb, 0x196c3671, 0x6e6b06e7,
     0xfed41b76, 0x89d32be0, 0x10da7a5a, 0x67dd4acc, 0xf9b9df6f, 0x8ebeeff9, 0x17b7be43, 0x60b08ed5,
     0xd6d6a3e8, 0xa1d1937e, 0x38d8c2c4, 0x4fdff252, 0xd1bb67f1, 0xa6bc5767, 0x3fb506dd, 0x48b2364b,
     0xd80d2bda, 0xaf0a1b4c, 0x36034af6, 0x41047a60, 0xdf60efc3, 0xa867df55, 0x316e8eef, 0x4669be79,
     0xcb61b38c, 0xbc66831a, 0x256fd2a0, 0x5268e236, 0xcc0c7795, 0xbb0b4703, 0x220216b9, 0x5505262f,
     0xc5ba3bbe, 0xb2bd0b28, 0x2bb45a92, 0x5cb36a04, 0xc2d7ffa7, 0xb5d0cf31, 0x2cd99e8b, 0x5bdeae1d,
     0x9b64c2b0, 0xec63f226, 0x756aa39c, 0x026d930a, 0x9c0906a9, 0xeb0e363f, 0x72076785, 0x05005713,
     0x95bf4a82, 0xe2b87a14, 0x7bb12bae, 0x0cb61b38, 0x92d28e9b, 0xe5d5be0d, 0x7cdcefb7, 0x0bdbdf21,
     0x86d3d2d4, 0xf1d4e242, 0x68ddb3f8, 0x1fda836e, 0x81be16cd, 0xf6b9265b, 0x6fb077e1, 0x18b74777,
     0x88085ae6, 0xff0f6a70, 0x66063bca, 0x11010b5c, 0x8f659eff, 0xf862ae69, 0x616bffd3, 0x166ccf45,
     0xa00ae278, 0xd70dd2ee, 0x4e048354, 0x3903b3c2, 0xa7672661, 0xd06016f7, 0x4969474d, 0x3e6e77db,
     0xaed16a4a, 0xd9d65adc, 0x40df0b66, 0x37d83bf0, 0xa9bcae53, 0xdebb9ec5, 0x47b2cf7f, 0x30b5ffe9,
     0xbdbdf21c, 0xcabac28a, 0x53b39330, 0x24b4a3a6, 0xbad03605, 0xcdd70693, 0x54de5729, 0x23d967bf,
     0xb3667a2e, 0xc4614ab8, 0x5d681b02, 0x2a6f2b94, 0xb40bbe37, 0xc30c8ea1, 0x5a05df1b, 0x2d02ef8d]"

text \<open>\<^verbatim>\<open>make_crc_table\<close>: the pattern of the polynomial, and eight shifts for every byte.\<close>

definition crc_poly :: u32w where
  "crc_poly = foldl (\<lambda>poly p. poly OR push_bit (31 - p) 1) 0 [0, 1, 2, 4, 5, 7, 8, 10, 11, 12, 16, 22, 23, 26]"

definition crc_shift :: "u32w \<Rightarrow> u32w" where
  "crc_shift c = (if c AND 1 \<noteq> 0 then crc_poly XOR drop_bit 1 c else drop_bit 1 c)"

definition make_crc_table :: "u32w list" where
  "make_crc_table = map (\<lambda>n. for_loop (\<lambda>_ c. crc_shift c) 8 (word_of_nat n)) [0..<256]"

definition crc16_tab :: "u16 list" where
  "crc16_tab =
    [0x0000, 0x1021, 0x2042, 0x3063, 0x4084, 0x50a5, 0x60c6, 0x70e7, 0x8108, 0x9129, 0xa14a, 0xb16b,
     0xc18c, 0xd1ad, 0xe1ce, 0xf1ef, 0x1231, 0x0210, 0x3273, 0x2252, 0x52b5, 0x4294, 0x72f7, 0x62d6,
     0x9339, 0x8318, 0xb37b, 0xa35a, 0xd3bd, 0xc39c, 0xf3ff, 0xe3de, 0x2462, 0x3443, 0x0420, 0x1401,
     0x64e6, 0x74c7, 0x44a4, 0x5485, 0xa56a, 0xb54b, 0x8528, 0x9509, 0xe5ee, 0xf5cf, 0xc5ac, 0xd58d,
     0x3653, 0x2672, 0x1611, 0x0630, 0x76d7, 0x66f6, 0x5695, 0x46b4, 0xb75b, 0xa77a, 0x9719, 0x8738,
     0xf7df, 0xe7fe, 0xd79d, 0xc7bc, 0x48c4, 0x58e5, 0x6886, 0x78a7, 0x0840, 0x1861, 0x2802, 0x3823,
     0xc9cc, 0xd9ed, 0xe98e, 0xf9af, 0x8948, 0x9969, 0xa90a, 0xb92b, 0x5af5, 0x4ad4, 0x7ab7, 0x6a96,
     0x1a71, 0x0a50, 0x3a33, 0x2a12, 0xdbfd, 0xcbdc, 0xfbbf, 0xeb9e, 0x9b79, 0x8b58, 0xbb3b, 0xab1a,
     0x6ca6, 0x7c87, 0x4ce4, 0x5cc5, 0x2c22, 0x3c03, 0x0c60, 0x1c41, 0xedae, 0xfd8f, 0xcdec, 0xddcd,
     0xad2a, 0xbd0b, 0x8d68, 0x9d49, 0x7e97, 0x6eb6, 0x5ed5, 0x4ef4, 0x3e13, 0x2e32, 0x1e51, 0x0e70,
     0xff9f, 0xefbe, 0xdfdd, 0xcffc, 0xbf1b, 0xaf3a, 0x9f59, 0x8f78, 0x9188, 0x81a9, 0xb1ca, 0xa1eb,
     0xd10c, 0xc12d, 0xf14e, 0xe16f, 0x1080, 0x00a1, 0x30c2, 0x20e3, 0x5004, 0x4025, 0x7046, 0x6067,
     0x83b9, 0x9398, 0xa3fb, 0xb3da, 0xc33d, 0xd31c, 0xe37f, 0xf35e, 0x02b1, 0x1290, 0x22f3, 0x32d2,
     0x4235, 0x5214, 0x6277, 0x7256, 0xb5ea, 0xa5cb, 0x95a8, 0x8589, 0xf56e, 0xe54f, 0xd52c, 0xc50d,
     0x34e2, 0x24c3, 0x14a0, 0x0481, 0x7466, 0x6447, 0x5424, 0x4405, 0xa7db, 0xb7fa, 0x8799, 0x97b8,
     0xe75f, 0xf77e, 0xc71d, 0xd73c, 0x26d3, 0x36f2, 0x0691, 0x16b0, 0x6657, 0x7676, 0x4615, 0x5634,
     0xd94c, 0xc96d, 0xf90e, 0xe92f, 0x99c8, 0x89e9, 0xb98a, 0xa9ab, 0x5844, 0x4865, 0x7806, 0x6827,
     0x18c0, 0x08e1, 0x3882, 0x28a3, 0xcb7d, 0xdb5c, 0xeb3f, 0xfb1e, 0x8bf9, 0x9bd8, 0xabbb, 0xbb9a,
     0x4a75, 0x5a54, 0x6a37, 0x7a16, 0x0af1, 0x1ad0, 0x2ab3, 0x3a92, 0xfd2e, 0xed0f, 0xdd6c, 0xcd4d,
     0xbdaa, 0xad8b, 0x9de8, 0x8dc9, 0x7c26, 0x6c07, 0x5c64, 0x4c45, 0x3ca2, 0x2c83, 0x1ce0, 0x0cc1,
     0xef1f, 0xff3e, 0xcf5d, 0xdf7c, 0xaf9b, 0xbfba, 0x8fd9, 0x9ff8, 0x6e17, 0x7e36, 0x4e55, 0x5e74,
     0x2e93, 0x3eb2, 0x0ed1, 0x1ef0]"

section \<open>The checksums\<close>

definition DO_CRC :: "u32w \<Rightarrow> u32w \<Rightarrow> u32w" where
  "DO_CRC crc x = crc_table ! unat ((crc XOR x) AND 255) XOR drop_bit 8 crc"

text \<open>The bytes up to the next word boundary, the whole words, and the last bytes.\<close>

fun crc_align :: "mem \<Rightarrow> u32w \<Rightarrow> addr \<Rightarrow> nat \<Rightarrow> u32w \<times> addr \<times> nat" where
  "crc_align m crc p len =
     (let crc = DO_CRC crc (ucast (m p)); p = p + 1; len = len - 1
      in if len \<noteq> 0 \<and> p AND 3 \<noteq> 0 then crc_align m crc p len else (crc, p, len))"

declare crc_align.simps [simp del]

primrec crc_words :: "mem \<Rightarrow> u32w \<Rightarrow> addr \<Rightarrow> nat \<Rightarrow> u32w \<times> addr" where
  "crc_words m crc b 0 = (crc, b)"
| "crc_words m crc b (Suc len) =
     (let crc = crc XOR load_le 4 m b
      in crc_words m (DO_CRC (DO_CRC (DO_CRC (DO_CRC crc 0) 0) 0) 0) (b + 4) len)"

primrec crc_tail :: "mem \<Rightarrow> u32w \<Rightarrow> addr \<Rightarrow> nat \<Rightarrow> u32w" where
  "crc_tail m crc p 0 = crc"
| "crc_tail m crc p (Suc len) = crc_tail m (DO_CRC crc (ucast (m p))) (p + 1) len"

definition crc32_no_comp :: "mem \<Rightarrow> u32w \<Rightarrow> addr \<Rightarrow> nat \<Rightarrow> u32w" where
  "crc32_no_comp m crc buf len =
     (let (crc, b, len) = (if buf AND 3 \<noteq> 0 \<and> len \<noteq> 0 then crc_align m crc buf len else (crc, buf, len));
          rem_len = len mod 4;
          (crc, b) = crc_words m crc b (len div 4)
      in crc_tail m crc b rem_len)"

definition crc32 :: "mem \<Rightarrow> u32w \<Rightarrow> addr \<Rightarrow> nat \<Rightarrow> u32w" where
  "crc32 m crc p len = crc32_no_comp m (crc XOR 0xffffffff) p len XOR 0xffffffff"

text \<open>\<^verbatim>\<open>crc32_wd\<close> as a board without a watchdog builds it.\<close>

definition crc32_wd :: "mem \<Rightarrow> u32w \<Rightarrow> addr \<Rightarrow> nat \<Rightarrow> nat \<Rightarrow> u32w" where
  "crc32_wd m crc buf len chunk_sz = crc32 m crc buf len"

primrec cyg_crc16_from :: "mem \<Rightarrow> u16 \<Rightarrow> addr \<Rightarrow> nat \<Rightarrow> u16" where
  "cyg_crc16_from m cksum buf 0 = cksum"
| "cyg_crc16_from m cksum buf (Suc len) =
     cyg_crc16_from m (crc16_tab ! unat ((drop_bit 8 cksum XOR ucast (m buf)) AND 0xff) XOR push_bit 8 cksum) (buf + 1) len"

definition cyg_crc16 :: "mem \<Rightarrow> addr \<Rightarrow> nat \<Rightarrow> u16" where
  "cyg_crc16 m buf len = cyg_crc16_from m 0 buf len"

section \<open>Tables of linear functions\<close>

text \<open>
  A register update that commutes with exclusive or.  A table of such a function is determined by
  its entries at the powers of two: each of them doubles the part of the table filled so far.
\<close>

definition double_table :: "'b::len word list \<Rightarrow> 'b word \<Rightarrow> 'b word list" where
  "double_table xs t = xs @ map (\<lambda>x. x XOR t) xs"

locale xor_linear =
  fixes f :: "'a::len word \<Rightarrow> 'b::len word"
  assumes xor: "f (a XOR b) = f a XOR f b"
begin

lemma at_zero: "f 0 = 0"
  using xor [of 0 0] by simp

lemma table_double:
  assumes "k < LENGTH('a)"
  shows "map (\<lambda>i. f (word_of_nat i)) [0..<2 ^ Suc k] = double_table (map (\<lambda>i. f (word_of_nat i)) [0..<2 ^ k]) (f (2 ^ k))"
proof -
  have "f (word_of_nat (2 ^ k + i)) = f (word_of_nat i) XOR f (2 ^ k)" if "i < 2 ^ k" for i
  proof -
    have "(2 ^ k :: 'a word) AND word_of_nat i = 0"
    proof (rule bit_eqI)
      fix n
      have "\<not> bit i k" using that by (metis bit_take_bit_iff less_irrefl take_bit_nat_eq_self)
      then show "bit ((2 ^ k :: 'a word) AND word_of_nat i) n \<longleftrightarrow> bit (0 :: 'a word) n"
        by (auto simp: bit_simps)
    qed
    then have "(2 ^ k :: 'a word) + word_of_nat i = 2 ^ k XOR word_of_nat i" by (rule disjunctive_add_eq_xor)
    then show ?thesis by (simp add: xor xor.commute)
  qed
  moreover have "[0..<2 ^ Suc k] = [0..<2 ^ k] @ map (\<lambda>i. 2 ^ k + i) [0..<2 ^ k]"
    using map_add_upt [of "2 ^ k" "2 ^ k"] upt_add_eq_append [of 0 "2 ^ k" "2 ^ k"] by (simp add: add.commute mult_2)
  ultimately show ?thesis by (simp add: double_table_def)
qed

lemma table_256:
  assumes "8 \<le> LENGTH('a)"
  shows "map (\<lambda>i. f (word_of_nat i)) [0..<256] = foldl double_table [0] (map (\<lambda>k. f (2 ^ k)) [0..<8])"
proof -
  have "map (\<lambda>i. f (word_of_nat i)) [0..<2 ^ n] = foldl double_table [0] (map (\<lambda>k. f (2 ^ k)) [0..<n])" if "n \<le> 8" for n
    using that
  proof (induction n)
    case (Suc n)
    then show ?case using table_double [of n] assms by simp
  qed (simp add: at_zero)
  from this [of 8] show ?thesis by simp
qed

end

lemma mask_255: "(255 :: 'a::len word) = mask 8"
  by (simp add: mask_eq_exp_minus_1)

section \<open>The 32-bit register\<close>

definition crc_byte :: "u32w \<Rightarrow> u32w" where
  "crc_byte c = (crc_shift ^^ 8) c"

lemma crc_poly_value: "crc_poly = 0xedb88320"
  by code_simp

lemma crc_shift_xor: "crc_shift (a XOR b) = crc_shift a XOR crc_shift b"
proof -
  have "(a XOR b) AND 1 = (a AND 1) XOR (b AND 1)" by (rule bit_eqI) (auto simp: bit_simps)
  moreover have "a AND 1 = 0 \<or> a AND 1 = 1" "b AND 1 = 0 \<or> b AND 1 = 1" by (simp_all add: and_one_eq mod2_eq_if)
  ultimately show ?thesis
    by (auto simp: crc_shift_def drop_bit_xor ac_simps)
qed

lemma crc_shift_pow_xor: "(crc_shift ^^ n) (a XOR b) = (crc_shift ^^ n) a XOR (crc_shift ^^ n) b"
  by (induction n) (simp_all add: crc_shift_xor)

interpretation crc_bytewise: xor_linear crc_byte
  by unfold_locales (simp add: crc_byte_def crc_shift_pow_xor)

lemma crc_shift_double: "crc_shift (push_bit 1 y) = take_bit 31 y"
proof -
  have "push_bit 1 y AND 1 = 0" by (rule bit_eqI) (auto simp: bit_and_iff bit_1_iff bit_push_bit_iff simp del: push_bit_Suc One_nat_def)
  moreover have "drop_bit 1 (push_bit 1 y) = take_bit 31 y"
    by (rule bit_eqI) (auto simp: bit_drop_bit_eq bit_push_bit_iff bit_take_bit_iff simp del: push_bit_Suc One_nat_def
        dest: bit_imp_le_length)
  ultimately show ?thesis by (simp add: crc_shift_def del: push_bit_Suc One_nat_def)
qed

lemma crc_shift_push: "n \<le> 32 \<Longrightarrow> (crc_shift ^^ n) (push_bit n y) = take_bit (32 - n) y"
proof (induction n arbitrary: y)
  case 0
  show ?case by (simp add: take_bit_word_eq_self)
next
  case (Suc n)
  have "push_bit (Suc n) y = push_bit 1 (push_bit n y)" by (metis push_bit_push_bit plus_1_eq_Suc)
  moreover have "take_bit 31 (push_bit n y) = push_bit n (take_bit (31 - n) y)"
    using Suc.prems by (simp add: take_bit_push_bit)
  ultimately have "(crc_shift ^^ Suc n) (push_bit (Suc n) y) = (crc_shift ^^ n) (push_bit n (take_bit (31 - n) y))"
    by (simp only: funpow_Suc_right comp_apply crc_shift_double)
  also have "\<dots> = take_bit (32 - n) (take_bit (31 - n) y)" using Suc by simp
  finally show ?case by (simp add: min_def)
qed

lemma crc_byte_push: "crc_byte (push_bit 8 y) = take_bit 24 y"
  using crc_shift_push [of 8 y] by (simp add: crc_byte_def)

lemma crc_byte_split: "crc_byte c = crc_byte (c AND 255) XOR drop_bit 8 c"
proof -
  have "c = (c AND 255) XOR push_bit 8 (drop_bit 8 c)"
    unfolding mask_255 by (rule bit_eqI) (auto simp: bit_simps)
  then have "crc_byte c = crc_byte (c AND 255) XOR crc_byte (push_bit 8 (drop_bit 8 c))"
    by (metis crc_bytewise.xor)
  moreover have "take_bit 24 (drop_bit 8 c) = drop_bit 8 c"
    by (rule bit_eqI) (auto simp: bit_take_bit_iff bit_drop_bit_eq dest: bit_imp_le_length)
  ultimately show ?thesis by (simp only: crc_byte_push)
qed

text \<open>One more shift halves the argument, so the entries at the powers of two are shifts of the polynomial.\<close>

lemma crc_byte_half:
  assumes "crc_byte (push_bit 1 c) = t" "take_bit 31 c = c"
  shows "crc_byte c = crc_shift t"
proof -
  have "crc_byte c = (crc_shift ^^ 8) (crc_shift (push_bit 1 c))"
    using assms(2) by (simp add: crc_byte_def crc_shift_double del: push_bit_Suc One_nat_def)
  then show ?thesis using assms(1) funpow_swap1 [of crc_shift 8 "push_bit 1 c"] by (simp only: crc_byte_def)
qed

lemma crc_byte_128: "crc_byte 128 = 0xedb88320"
proof -
  have "crc_byte 128 = crc_shift ((crc_shift ^^ 7) (push_bit 7 1))" by (simp add: crc_byte_def numeral_eq_Suc)
  also have "\<dots> = crc_shift 1" using crc_shift_push [of 7 1] by simp
  finally show ?thesis by (simp add: crc_shift_def crc_poly_value)
qed

lemma crc_byte_64: "crc_byte 64 = 0x76dc4190"
  using crc_byte_half [of 64] crc_byte_128 by (simp add: crc_shift_def crc_poly_value)

lemma crc_byte_32: "crc_byte 32 = 0x3b6e20c8"
  using crc_byte_half [of 32] crc_byte_64 by (simp add: crc_shift_def crc_poly_value)

lemma crc_byte_16: "crc_byte 16 = 0x1db71064"
  using crc_byte_half [of 16] crc_byte_32 by (simp add: crc_shift_def crc_poly_value)

lemma crc_byte_8: "crc_byte 8 = 0x0edb8832"
  using crc_byte_half [of 8] crc_byte_16 by (simp add: crc_shift_def crc_poly_value)

lemma crc_byte_4: "crc_byte 4 = 0x076dc419"
  using crc_byte_half [of 4] crc_byte_8 by (simp add: crc_shift_def crc_poly_value)

lemma crc_byte_2: "crc_byte 2 = 0xee0e612c"
  using crc_byte_half [of 2] crc_byte_4 by (simp add: crc_shift_def crc_poly_value)

lemma crc_byte_1: "crc_byte 1 = 0x77073096"
  using crc_byte_half [of 1] crc_byte_2 by (simp add: crc_shift_def crc_poly_value)

lemma crc_basis: "map (\<lambda>k. crc_byte (2 ^ k)) [0..<8] = [0x77073096, 0xee0e612c, 0x076dc419, 0x0edb8832, 0x1db71064, 0x3b6e20c8, 0x76dc4190, 0xedb88320]"
  by (simp add: upt_rec crc_byte_1 crc_byte_2 crc_byte_4 crc_byte_8 crc_byte_16 crc_byte_32 crc_byte_64 crc_byte_128)

lemma crc_table_byte: "crc_table = map (\<lambda>n. crc_byte (word_of_nat n)) [0..<256]"
  using crc_bytewise.table_256 unfolding crc_basis by (simp add: crc_table_def double_table_def)

lemma crc_table_make: "make_crc_table = crc_table"
proof -
  have "for_loop (\<lambda>_ c. crc_shift c) n c = (crc_shift ^^ n) c" for n c by (induction n) simp_all
  then show ?thesis by (simp only: crc_table_byte make_crc_table_def crc_byte_def)
qed

lemma crc_table_nth: "crc_table ! unat (x AND 255) = crc_byte (x AND 255)"
proof -
  have "unat (x AND 255) < 256"
    unfolding mask_255 take_bit_eq_mask [symmetric] unsigned_take_bit_eq using take_bit_nat_less_exp [of 8] by simp
  then have "crc_table ! unat (x AND 255) = crc_byte (word_of_nat ([0..<256] ! unat (x AND 255)))"
    by (simp only: crc_table_byte length_upt nth_map)
  then show ?thesis using \<open>unat (x AND 255) < 256\<close> by (simp only: nth_upt) simp
qed

lemma DO_CRC_byte: "drop_bit 8 x = 0 \<Longrightarrow> DO_CRC crc x = crc_byte (crc XOR x)"
  using crc_byte_split [of "crc XOR x"] by (simp add: DO_CRC_def crc_table_nth drop_bit_xor)

section \<open>The checksum as a fold over bytes\<close>

definition crc_bytes :: "u32w \<Rightarrow> u8 list \<Rightarrow> u32w" where
  "crc_bytes crc bs = foldl (\<lambda>crc b. crc_byte (crc XOR ucast b)) crc bs"

lemma crc_bytes_simps [simp]:
  "crc_bytes crc [] = crc" "crc_bytes crc (b # bs) = crc_bytes (crc_byte (crc XOR ucast b)) bs"
  "crc_bytes crc (bs @ cs) = crc_bytes (crc_bytes crc bs) cs"
  by (simp_all add: crc_bytes_def)

lemma byte_high [simp]: "drop_bit 8 (ucast (b :: u8) :: u32w) = 0"
  by (rule bit_eqI) (auto simp: bit_simps dest: bit_imp_le_length)

text \<open>Up to four bytes can be combined before the register is shifted.\<close>

lemma crc_bytes_word:
  "length bs \<le> 4 \<Longrightarrow> crc_bytes crc bs = (crc_byte ^^ length bs) (crc XOR le_word bs)"
proof (induction bs arbitrary: crc)
  case (Cons b bs)
  have "ucast b OR push_bit 8 (le_word bs) = ucast b XOR push_bit 8 (le_word bs)"
    by (rule bit_eqI) (auto simp: bit_simps dest: bit_imp_le_length)
  moreover have "take_bit 24 (le_word bs) = le_word bs"
    using Cons.prems bit_le_word [of bs] by (intro bit_eqI) (force simp: bit_take_bit_iff)
  ultimately have "crc_byte (crc XOR le_word (b # bs)) = crc_byte (crc XOR ucast b) XOR le_word bs"
    by (simp add: crc_bytewise.xor crc_byte_push flip: xor.assoc)
  then show ?case using Cons by (simp add: funpow_swap1)
qed simp

lemma crc_words_bytes:
  "crc_words m crc b n = (crc_bytes crc (read_bytes m b (4 * n)), b + word_of_nat (4 * n))"
proof (induction n arbitrary: crc b)
  case (Suc n)
  have "DO_CRC (DO_CRC (DO_CRC (DO_CRC c 0) 0) 0) 0 = (crc_byte ^^ 4) c" for c
    by (simp add: DO_CRC_byte numeral_eq_Suc)
  then have "DO_CRC (DO_CRC (DO_CRC (DO_CRC (crc XOR load_le 4 m b) 0) 0) 0) 0 = crc_bytes crc (read_bytes m b 4)"
    by (simp add: crc_bytes_word load_le_def)
  moreover have "read_bytes m b (4 * Suc n) = read_bytes m b 4 @ read_bytes m (b + 4) (4 * n)"
    using read_bytes_append [of m b 4 "4 * n"] by simp
  ultimately show ?case using Suc by (simp add: algebra_simps)
qed simp

lemma crc_tail_bytes: "crc_tail m crc p n = crc_bytes crc (read_bytes m p n)"
  by (induction n arbitrary: crc p) (simp_all add: DO_CRC_byte)

lemma crc_align_bytes:
  "len \<noteq> 0 \<Longrightarrow> \<exists>k \<le> len. crc_align m crc p len = (crc_bytes crc (read_bytes m p k), p + word_of_nat k, len - k)"
proof (induction m crc p len rule: crc_align.induct)
  case (1 m crc p len)
  show ?case
  proof (cases "len - 1 \<noteq> 0 \<and> (p + 1) AND 3 \<noteq> 0")
    case True
    from "1.IH" [OF refl refl refl True] True obtain k where
      "k \<le> len - 1" "crc_align m (DO_CRC crc (ucast (m p))) (p + 1) (len - 1) =
        (crc_bytes (DO_CRC crc (ucast (m p))) (read_bytes m (p + 1) k), p + 1 + word_of_nat k, len - 1 - k)" by blast
    then show ?thesis using True "1.prems"
      by (intro exI [of _ "Suc k"]) (auto simp: crc_align.simps [of m crc p len] Let_def DO_CRC_byte add.assoc)
  next
    case False
    then show ?thesis using "1.prems"
      by (intro exI [of _ 1]) (auto simp: crc_align.simps [of m crc p len] Let_def DO_CRC_byte)
  qed
qed

lemma crc32_no_comp_bytes: "crc32_no_comp m crc buf len = crc_bytes crc (read_bytes m buf len)"
proof -
  obtain k where k: "k \<le> len"
    "(if buf AND 3 \<noteq> 0 \<and> len \<noteq> 0 then crc_align m crc buf len else (crc, buf, len)) =
     (crc_bytes crc (read_bytes m buf k), buf + word_of_nat k, len - k)"
    using crc_align_bytes [of len m crc buf] that [of 0] by (cases "buf AND 3 \<noteq> 0 \<and> len \<noteq> 0") auto
  have "read_bytes m buf len = read_bytes m buf k @ read_bytes m (buf + word_of_nat k) (4 * ((len - k) div 4)) @
      read_bytes m (buf + word_of_nat k + word_of_nat (4 * ((len - k) div 4))) ((len - k) mod 4)"
    using read_bytes_append [of m buf k "len - k"] k(1)
      read_bytes_append [of m "buf + word_of_nat k" "4 * ((len - k) div 4)" "(len - k) mod 4"] by simp
  then show ?thesis
    unfolding crc32_no_comp_def k(2) by (simp add: crc_words_bytes crc_tail_bytes)
qed

lemma crc32_append: "crc32 m (crc32 m crc p n) (p + word_of_nat n) k = crc32 m crc p (n + k)"
  by (simp add: crc32_def crc32_no_comp_bytes read_bytes_append xor.assoc)

section \<open>The checksum bit by bit\<close>

text \<open>The shift register of the comment above \<^verbatim>\<open>make_crc_table\<close>: the incoming bit is added to the bit
  shifted out, and the polynomial is added when their sum is one.\<close>

definition crc_bit :: "u32w \<Rightarrow> bool \<Rightarrow> u32w" where
  "crc_bit c d = (if bit c 0 \<noteq> d then crc_poly XOR drop_bit 1 c else drop_bit 1 c)"

definition byte_bits :: "u8 \<Rightarrow> bool list" where
  "byte_bits b = map (bit b) [0..<8]"

lemma crc_shift_bit: "crc_shift (c XOR x) = crc_bit c (bit x 0) XOR drop_bit 1 x"
proof -
  have "(c XOR x) AND 1 \<noteq> 0 \<longleftrightarrow> bit c 0 \<noteq> bit x 0"
    by (simp add: and_one_eq bit_0 even_xor_iff flip: odd_iff_mod_2_eq_one)
  then show ?thesis by (simp add: crc_shift_def crc_bit_def drop_bit_xor xor.assoc)
qed

lemma crc_shift_bits: "(crc_shift ^^ n) (c XOR x) = foldl crc_bit c (map (bit x) [0..<n]) XOR drop_bit n x"
  by (induction n) (simp_all add: crc_shift_bit bit_drop_bit_eq drop_bit_drop_bit)

lemma crc_byte_bits: "crc_byte (c XOR ucast b) = foldl crc_bit c (byte_bits b)"
proof -
  have "map (bit (ucast b :: u32w)) [0..<8] = byte_bits b"
    unfolding byte_bits_def by (intro map_cong refl) (auto simp: bit_ucast_iff)
  then show ?thesis unfolding crc_byte_def crc_shift_bits by simp
qed

lemma crc_bytes_bits: "crc_bytes crc bs = foldl crc_bit crc (concat (map byte_bits bs))"
  by (induction bs arbitrary: crc) (simp_all add: crc_byte_bits)

section \<open>Error detection\<close>

lemma crc_shift_inj: "crc_shift a = crc_shift b \<Longrightarrow> a = b"
proof -
  have zero: "c = 0" if "crc_shift c = 0" for c
  proof (cases "c AND 1 = 0")
    case True
    then have d: "drop_bit 1 c = 0" using that by (simp add: crc_shift_def)
    show ?thesis
    proof (rule bit_eqI)
      fix n
      have "bit c n = bit (drop_bit 1 c) (n - 1)" if "n \<noteq> 0" using that by (simp add: bit_drop_bit_eq)
      moreover have "\<not> bit c 0" using True by (simp add: bit_0 and_one_eq even_iff_mod_2_eq_zero)
      ultimately show "bit c n \<longleftrightarrow> bit 0 n" using d by (cases "n = 0") simp_all
    qed
  next
    case False
    then have "bit (crc_poly XOR drop_bit 1 c) 31 = bit (0 :: u32w) 31" using that by (simp add: crc_shift_def)
    moreover have "bit crc_poly 31" unfolding crc_poly_value by code_simp
    moreover have "\<not> bit (drop_bit 1 c) 31" by (auto simp: bit_drop_bit_eq dest: bit_imp_le_length)
    ultimately show ?thesis by (simp add: bit_xor_iff)
  qed
  assume "crc_shift a = crc_shift b"
  then have "crc_shift (a XOR b) = 0" by (simp add: crc_shift_xor)
  from zero [OF this] have "(a XOR b) XOR b = b" by simp
  then show "a = b" by (simp add: xor.assoc)
qed

lemma crc_byte_pow_inj: "(crc_byte ^^ n) a = (crc_byte ^^ n) b \<Longrightarrow> a = b"
proof -
  have "inj crc_shift" by (rule injI) (rule crc_shift_inj)
  then have "inj (crc_shift ^^ 8)" by (rule inj_fn)
  moreover have "crc_byte = crc_shift ^^ 8" by (rule ext) (rule crc_byte_def)
  ultimately have "inj (crc_byte ^^ n)" by (simp only: inj_fn)
  then show "(crc_byte ^^ n) a = (crc_byte ^^ n) b \<Longrightarrow> a = b" by (rule injD)
qed

lemma xor_cancel_right: "(a :: u32w) XOR c = b XOR c \<longleftrightarrow> a = b"
proof
  assume "a XOR c = b XOR c"
  then have "(a XOR c) XOR c = (b XOR c) XOR c" by simp
  then show "a = b" by (simp add: xor.assoc)
qed simp

lemma crc_bytes_inj: "crc_bytes a bs = crc_bytes b bs \<longleftrightarrow> a = b"
proof (induction bs arbitrary: a b)
  case (Cons x bs)
  then show ?case using crc_byte_pow_inj [of 1 "a XOR ucast x" "b XOR ucast x"] by (auto simp: xor_cancel_right)
qed simp

lemma crc_bytes_window:
  assumes "length w \<le> 4" "length w' = length w" "w \<noteq> w'"
  shows "crc_bytes crc w \<noteq> crc_bytes crc w'"
proof
  assume "crc_bytes crc w = crc_bytes crc w'"
  then have "(crc_byte ^^ length w) (crc XOR le_word w) = (crc_byte ^^ length w) (crc XOR le_word w')"
    using assms(1,2) crc_bytes_word [of w] crc_bytes_word [of w'] by simp
  then have "crc XOR le_word w = crc XOR le_word w'" by (rule crc_byte_pow_inj)
  then have "le_word w XOR crc = le_word w' XOR crc" by (simp only: xor.commute)
  then have "le_bytes (length w) (le_word w) = le_bytes (length w') (le_word w')"
    by (simp only: xor_cancel_right assms(2))
  moreover have "le_bytes (length w) (le_word w) = w" "le_bytes (length w') (le_word w') = w'"
    using assms(1,2) by (intro le_bytes_word; simp)+
  ultimately show False using assms(3) by argo
qed

section \<open>The 16-bit register\<close>

definition crc16_shift :: "u16 \<Rightarrow> u16" where
  "crc16_shift c = (if bit c 15 then push_bit 1 c XOR 0x1021 else push_bit 1 c)"

definition crc16_byte :: "u16 \<Rightarrow> u16" where
  "crc16_byte c = (crc16_shift ^^ 8) c"

lemma crc16_shift_xor: "crc16_shift (a XOR b) = crc16_shift a XOR crc16_shift b"
  by (auto simp: crc16_shift_def bit_xor_iff push_bit_xor ac_simps simp del: push_bit_Suc One_nat_def)

lemma crc16_shift_pow_xor: "(crc16_shift ^^ n) (a XOR b) = (crc16_shift ^^ n) a XOR (crc16_shift ^^ n) b"
  by (induction n) (simp_all add: crc16_shift_xor)

interpretation crc16_bytewise: xor_linear "\<lambda>x. crc16_byte (push_bit 8 x)"
  by unfold_locales (simp add: crc16_byte_def crc16_shift_pow_xor push_bit_xor)

lemma crc16_shift_small: "n + k \<le> 16 \<Longrightarrow> (crc16_shift ^^ n) (take_bit k c) = push_bit n (take_bit k c)"
proof (induction n)
  case (Suc n)
  have "\<not> bit (push_bit n (take_bit k c)) 15" using Suc.prems by (auto simp: bit_push_bit_iff bit_take_bit_iff)
  then show ?case using Suc by (simp add: crc16_shift_def push_bit_push_bit)
qed simp

lemma crc16_basis: "map (\<lambda>k. crc16_byte (push_bit 8 (2 ^ k))) [0..<8] = [0x1021, 0x2042, 0x4084, 0x8108, 0x1231, 0x2462, 0x48c4, 0x9188]"
  by code_simp

lemma crc16_tab_byte: "crc16_tab = map (\<lambda>n. crc16_byte (push_bit 8 (word_of_nat n))) [0..<256]"
  using crc16_bytewise.table_256 unfolding crc16_basis by (simp add: crc16_tab_def double_table_def)

lemma crc16_tab_nth: "crc16_tab ! unat (x AND 0xff) = crc16_byte (push_bit 8 (x AND 0xff))"
proof -
  have "unat (x AND 0xff) < 256"
    unfolding mask_255 take_bit_eq_mask [symmetric] unsigned_take_bit_eq using take_bit_nat_less_exp [of 8] by simp
  then have "crc16_tab ! unat (x AND 0xff) = crc16_byte (push_bit 8 (word_of_nat ([0..<256] ! unat (x AND 0xff))))"
    by (simp only: crc16_tab_byte length_upt nth_map)
  then show ?thesis using \<open>unat (x AND 0xff) < 256\<close> by (simp only: nth_upt) simp
qed

text \<open>One step of \<^verbatim>\<open>cyg_crc16\<close> adds the byte at the top of the register and shifts eight times.\<close>

lemma crc16_step:
  "crc16_tab ! unat ((drop_bit 8 c XOR ucast (b :: u8)) AND 0xff) XOR push_bit 8 c = crc16_byte (c XOR push_bit 8 (ucast b))"
proof -
  have "(drop_bit 8 c XOR ucast b) AND 0xff = drop_bit 8 c XOR ucast b"
    unfolding mask_255 by (rule bit_eqI) (auto simp: bit_simps dest: bit_imp_le_length)
  moreover have "c XOR push_bit 8 (ucast b) = push_bit 8 (drop_bit 8 c XOR ucast b) XOR take_bit 8 c"
    by (rule bit_eqI) (auto simp: bit_simps)
  moreover have "crc16_byte (take_bit 8 c) = push_bit 8 (take_bit 8 c)"
    using crc16_shift_small [of 8 8 c] by (simp only: crc16_byte_def)
  moreover have "push_bit 8 (take_bit 8 c) = push_bit 8 c"
    by (rule bit_eqI) (auto simp: bit_simps)
  moreover have "crc16_byte (x XOR y) = crc16_byte x XOR crc16_byte y" for x y
    by (simp only: crc16_byte_def crc16_shift_pow_xor)
  ultimately show ?thesis using crc16_tab_nth [of "drop_bit 8 c XOR ucast b"] by simp
qed

lemma cyg_crc16_bytes:
  "cyg_crc16 m buf len = foldl (\<lambda>c b. crc16_byte (c XOR push_bit 8 (ucast b))) 0 (read_bytes m buf len)"
proof -
  have "cyg_crc16_from m c p n = foldl (\<lambda>c b. crc16_byte (c XOR push_bit 8 (ucast b))) c (read_bytes m p n)" for c p n
    by (induction n arbitrary: c p) (simp_all add: crc16_step)
  then show ?thesis by (simp add: cyg_crc16_def)
qed

section \<open>Properties\<close>

text \<open>C10: The table-driven checksum, which works on aligned words where it can, is the checksum of the
  bit-serial shift register with the polynomial 0xedb88320, fed with the bits of every byte of the
  buffer, lowest bit first, for every address and length.\<close>

theorem crc32_bitwise:
  "crc32 m crc buf len =
   foldl crc_bit (crc XOR 0xffffffff) (concat (map byte_bits (read_bytes m buf len))) XOR 0xffffffff"
  by (simp add: crc32_def crc32_no_comp_bytes crc_bytes_bits)

text \<open>C33: Two buffers of the same length that differ only inside a window of at most four bytes, anywhere
  in the buffer, have different checksums.\<close>

theorem crc32_detects_burst:
  assumes "read_bytes m buf len = pre @ w @ post" "read_bytes m' buf' len = pre @ w' @ post"
    and "length w \<le> 4" "w \<noteq> w'"
  shows "crc32 m crc buf len \<noteq> crc32 m' crc buf' len"
proof -
  have "length w' = length w"
    using arg_cong [OF assms(1), of length] arg_cong [OF assms(2), of length] by simp
  from crc_bytes_window [OF assms(3) this assms(4)] show ?thesis
    by (simp add: crc32_def crc32_no_comp_bytes assms(1,2) xor_cancel_right crc_bytes_inj)
qed

lemma crc32_detects_burst_witness:
  "crc32 (\<lambda>a. ucast a) 0 0x1001 7 \<noteq> crc32 ((\<lambda>a. ucast a)(0x1003 := 0x55)) 0 0x1001 7"
proof (rule crc32_detects_burst)
  show "read_bytes (\<lambda>a. ucast a) 0x1001 7 = [1, 2] @ [3] @ [4, 5, 6, 7]"
    "read_bytes ((\<lambda>a. ucast a)(0x1003 := 0x55)) 0x1001 7 = [1, 2] @ [0x55] @ [4, 5, 6, 7]" by code_simp+
qed simp_all

end
