(* ===== verification/EnvStore.thy ===== *)
theory EnvStore
  imports EnvText Crc
begin

text \<open>
  The environment on the boot device: \<^verbatim>\<open>common/env_common.c\<close> and the eMMC part of \<^verbatim>\<open>common/env_auto.c\<close>.  The block
  \<^verbatim>\<open>env_t\<close> is a checksum of four bytes followed by \<open>ENV_SIZE\<close> bytes of text with zeros as separators.  The device is a
  state \<open>'d\<close> with the two operations that move a block, \<^verbatim>\<open>movi_read_env\<close> and \<^verbatim>\<open>movi_write_env\<close>, as arguments.
\<close>

section \<open>State\<close>

definition CONFIG_ENV_SIZE :: nat where
  "CONFIG_ENV_SIZE = 0x4000"

definition ENV_SIZE :: nat where
  "ENV_SIZE = CONFIG_ENV_SIZE - 4"

record 'h env_state =
  e_mem :: mem
  e_heap :: 'h
  e_htab :: hsearch_data
  env_ready :: bool
  env_valid :: int

section \<open>The default environment\<close>

definition default_environment :: "u8 list" where
  "default_environment =
     bytes ''bootargs=lcd=vs070cxn tp=ft5x06-1024x600 cam=ov2655 mac=00:09:c0:ff:ee:58'' @ [0] @
     bytes ''bootcmd=movi read kernel 0 40008000;movi read rootfs 0 41000000 400000;bootm 40008000 41000000'' @ [0] @
     bytes ''bootdelay=3'' @ [0] @
     bytes ''baudrate=115200'' @ [0] @
     bytes ''ethaddr=00:40:5c:26:0a:5b'' @ [0] @
     bytes ''ipaddr=192.168.0.20'' @ [0] @
     bytes ''serverip=192.168.0.10'' @ [0] @
     bytes ''gatewayip=192.168.0.1'' @ [0] @
     bytes ''netmask=255.255.255.0'' @ [0] @
     [0, 0]"

definition set_default_env :: "'h heap_ops \<Rightarrow> 'h env_state \<Rightarrow> 'h env_state option" where
  "set_default_env H s =
     (if ENV_SIZE < length default_environment then Some s
      else
        do {
          (r, e, h, hp) \<leftarrow> himport_r H (e_heap s) (Some (e_htab s)) default_environment (length default_environment) 0 False;
          h \<leftarrow> h;
          Some (s\<lparr>e_htab := h, e_heap := hp, env_ready := True\<rparr>)
        })"

section \<open>Reading a block\<close>

definition env_crc_ok :: "mem \<Rightarrow> addr \<Rightarrow> bool" where
  "env_crc_ok m p \<longleftrightarrow> crc32 m 0 (p + 4) ENV_SIZE = load_le 4 m p"

definition env_import :: "'h heap_ops \<Rightarrow> 'h env_state \<Rightarrow> addr \<Rightarrow> bool \<Rightarrow> (int \<times> 'h env_state) option" where
  "env_import H s p check =
     (if check \<and> \<not> env_crc_ok (e_mem s) p then do { s \<leftarrow> set_default_env H s; Some (0, s) }
      else
        do {
          (r, e, h, hp) \<leftarrow> himport_r H (e_heap s) (Some (e_htab s)) (read_bytes (e_mem s) (p + 4) ENV_SIZE) ENV_SIZE 0 False;
          h \<leftarrow> h;
          let s = s\<lparr>e_htab := h, e_heap := hp\<rparr>;
          if r \<noteq> 0 then Some (1, s\<lparr>env_ready := True\<rparr>)
          else do { s \<leftarrow> set_default_env H s; Some (0, s) }
        })"

definition use_default :: "'h heap_ops \<Rightarrow> 'h env_state \<Rightarrow> addr \<Rightarrow> 'h env_state option" where
  "use_default H s p =
     (if CONFIG_ENV_SIZE < length default_environment then Some s
      else
        (let m = memset (e_mem s) p 0 CONFIG_ENV_SIZE;
             m = write_bytes m (p + 4) default_environment;
             m = store_le 4 m p (crc32 m 0 (p + 4) ENV_SIZE)
         in map_option snd (env_import H (s\<lparr>e_mem := m, env_valid := 1\<rparr>) p True)))"

definition env_relocate_spec_movinand :: "'h heap_ops \<Rightarrow> ('d \<Rightarrow> u8 list) \<Rightarrow> 'd \<Rightarrow> 'h env_state \<Rightarrow> addr \<Rightarrow> 'h env_state option" where
  "env_relocate_spec_movinand H movi_read_env dev s p =
     (let s = s\<lparr>e_mem := write_bytes (e_mem s) p (movi_read_env dev)\<rparr>
      in if \<not> env_crc_ok (e_mem s) p then use_default H s p
         else map_option snd (env_import H s p True))"

text \<open>The boot device is told by the register \<^verbatim>\<open>INF_REG3_REG\<close>; the board has neither NAND nor OneNAND support.\<close>

definition env_relocate_spec :: "'h heap_ops \<Rightarrow> ('d \<Rightarrow> u8 list) \<Rightarrow> 'd \<Rightarrow> int \<Rightarrow> 'h env_state \<Rightarrow> addr \<Rightarrow> 'h env_state option" where
  "env_relocate_spec H movi_read_env dev reg s p =
     (if reg = 1 \<or> reg = 0x40000 then Some s
      else if reg = 3 \<or> reg = 6 \<or> reg = 7 then env_relocate_spec_movinand H movi_read_env dev s p
      else use_default H s p)"

definition env_relocate :: "'h heap_ops \<Rightarrow> ('d \<Rightarrow> u8 list) \<Rightarrow> 'd \<Rightarrow> int \<Rightarrow> 'h env_state \<Rightarrow> addr \<Rightarrow> 'h env_state option" where
  "env_relocate H movi_read_env dev reg s p =
     (if env_valid s = 0 then set_default_env H s else env_relocate_spec H movi_read_env dev reg s p)"

definition env_init :: "'h env_state \<Rightarrow> 'h env_state" where
  "env_init s = s\<lparr>env_valid := 1\<rparr>"

section \<open>Writing a block\<close>

definition saveenv_movinand :: "'h heap_ops \<Rightarrow> ('d \<Rightarrow> u8 list \<Rightarrow> 'd) \<Rightarrow> 'd \<Rightarrow> 'h env_state \<Rightarrow> addr \<Rightarrow> (int \<times> 'd \<times> 'h env_state) option" where
  "saveenv_movinand H movi_write_env dev s p =
     do {
       (len, e, res, hp) \<leftarrow> hexport_r H (e_heap s) (Some (e_htab s)) 0 (Some (Some (read_bytes (e_mem s) (p + 4) ENV_SIZE))) ENV_SIZE;
       let s = s\<lparr>e_heap := hp\<rparr>;
       if len < 0 then Some (1, dev, s)
       else
         do {
           res \<leftarrow> res;
           buf \<leftarrow> res;
           let m = write_bytes (e_mem s) (p + 4) buf;
           let m = store_le 4 m p (crc32 m 0 (p + 4) ENV_SIZE);
           Some (1, movi_write_env dev (read_bytes m p CONFIG_ENV_SIZE), s\<lparr>e_mem := m\<rparr>)
         }
     }"

definition saveenv :: "'h heap_ops \<Rightarrow> ('d \<Rightarrow> u8 list \<Rightarrow> 'd) \<Rightarrow> 'd \<Rightarrow> int \<Rightarrow> 'h env_state \<Rightarrow> addr \<Rightarrow> (int \<times> 'd \<times> 'h env_state) option" where
  "saveenv H movi_write_env dev reg s p =
     (if reg = 3 \<or> reg = 6 \<or> reg = 7 then map_option (\<lambda>(_, dev, s). (0, dev, s)) (saveenv_movinand H movi_write_env dev s p)
      else Some (0, dev, s))"

section \<open>Blocks\<close>

text \<open>A block in memory: the checksum and the text.\<close>

definition env_block :: "u32w \<Rightarrow> u8 list \<Rightarrow> u8 list" where
  "env_block crc img = le_bytes 4 crc @ img"

definition crc_of :: "u8 list \<Rightarrow> u32w" where
  "crc_of img = crc_bytes (0 XOR 0xffffffff) img XOR 0xffffffff"

lemma crc32_of: "crc32 m 0 p n = crc_of (read_bytes m p n)"
  by (simp add: crc32_def crc32_no_comp_bytes crc_of_def)

lemma sizes: "CONFIG_ENV_SIZE = 4 + ENV_SIZE" "4 + ENV_SIZE = 16384" "ENV_SIZE = 16380"
  by (simp_all add: ENV_SIZE_def CONFIG_ENV_SIZE_def)

lemma region_split:
  assumes "n + k \<le> 4294967296"
  shows "region p n \<inter> region (p + of_nat n) k = {}"
proof -
  have "of_nat i \<noteq> of_nat n + (of_nat j :: addr)" if "i < n" "j < k" for i j
  proof
    assume "of_nat i = of_nat n + (of_nat j :: addr)"
    then have "(of_nat i :: addr) = of_nat (n + j)" by simp
    then have "unat (of_nat i :: addr) = unat (of_nat (n + j) :: addr)" by (rule arg_cong)
    then have "i = n + j" using that assms by (simp add: unat_of_nat_addr del: of_nat_add)
    then show False using that(1) by simp
  qed
  then show ?thesis using assms region_offset [of n _ p] region_offset [of k _ "p + of_nat n"] by (fastforce simp: algebra_simps)
qed

lemma block_parts:
  assumes "length img = ENV_SIZE" "read_bytes m p CONFIG_ENV_SIZE = env_block c img"
  shows "read_bytes m (p + 4) ENV_SIZE = img" "load_le 4 m p = c"
proof -
  have "read_bytes m p 4 @ read_bytes m (p + 4) ENV_SIZE = le_bytes 4 c @ img"
    using assms(2) read_bytes_append [of m p 4 ENV_SIZE] by (simp add: sizes(1) env_block_def)
  then have parts: "read_bytes m p 4 = le_bytes 4 c" "read_bytes m (p + 4) ENV_SIZE = img" by (simp_all add: append_eq_append_conv)
  show "read_bytes m (p + 4) ENV_SIZE = img" by (rule parts(2))
  show "load_le 4 m p = c" using parts(1) by (simp add: load_le_def le_word_bytes take_bit_word_eq_self)
qed

lemma block_crc_ok:
  "length img = ENV_SIZE \<Longrightarrow> read_bytes m p CONFIG_ENV_SIZE = env_block c img \<Longrightarrow> env_crc_ok m p \<longleftrightarrow> crc_of img = c"
  using block_parts [of img m p c] by (simp add: env_crc_ok_def crc32_of)

lemma block_stored:
  assumes "length img = ENV_SIZE"
  shows "read_bytes (write_bytes m p (env_block c img)) p CONFIG_ENV_SIZE = env_block c img"
proof -
  have "length (env_block c img) = CONFIG_ENV_SIZE" using assms by (simp add: env_block_def sizes)
  then show ?thesis using read_write_bytes [of "env_block c img" m p] by (simp add: sizes)
qed

lemma block_signed:
  assumes "read_bytes m (p + 4) ENV_SIZE = img"
  shows "read_bytes (store_le 4 m p c) p CONFIG_ENV_SIZE = env_block c img"
proof -
  have "region p 4 \<inter> region (p + 4) ENV_SIZE = {}" using region_split [of 4 ENV_SIZE p] by (simp add: sizes)
  then have "read_bytes (write_bytes m p (le_bytes 4 c)) (p + 4) ENV_SIZE = img"
    unfolding assms [symmetric] by (intro read_write_disjoint) (simp_all add: sizes)
  moreover have "read_bytes (write_bytes m p (le_bytes 4 c)) p 4 = le_bytes 4 c"
    using read_write_bytes [of "le_bytes 4 c" m p] by simp
  ultimately show ?thesis using read_bytes_append [of _ p 4 ENV_SIZE] by (simp add: sizes(1) env_block_def store_le_def)
qed

text \<open>The variables of the default environment.\<close>

definition default_vars :: "(cstr \<times> cstr) list" where
  "default_vars = map (\<lambda>(k, v). (bytes k, bytes v))
     [(''bootargs'', ''lcd=vs070cxn tp=ft5x06-1024x600 cam=ov2655 mac=00:09:c0:ff:ee:58''),
      (''bootcmd'', ''movi read kernel 0 40008000;movi read rootfs 0 41000000 400000;bootm 40008000 41000000''),
      (''bootdelay'', ''3''),
      (''baudrate'', ''115200''),
      (''ethaddr'', ''00:40:5c:26:0a:5b''),
      (''ipaddr'', ''192.168.0.20''),
      (''serverip'', ''192.168.0.10''),
      (''gatewayip'', ''192.168.0.1''),
      (''netmask'', ''255.255.255.0'')]"

lemma default_text: "default_environment = text_of 0 default_vars @ [0, 0]"
  by code_simp

lemma default_length: "length default_environment = 311"
  by code_simp

lemma default_good: "\<forall>e\<in>set default_vars. good_entry 0 e"
  by code_simp

lemma default_names: "length default_vars = 9" "distinct (map fst default_vars)"
  by code_simp+

section \<open>Importing a block\<close>

definition table_usable :: "hsearch_data \<Rightarrow> bool" where
  "table_usable h \<longleftrightarrow> table h = None \<or> ht_inv h"

text \<open>The environment is ready and holds exactly the given variables.\<close>

definition holds_vars :: "'h env_state \<Rightarrow> (cstr \<Rightarrow> cstr option) \<Rightarrow> bool" where
  "holds_vars s f \<longleftrightarrow> env_ready s \<and> ht_inv (e_htab s) \<and> lookup (e_htab s) = f"

lemma env_import_block:
  assumes "sure_heap H" "table_usable (e_htab s)" "\<forall>e\<in>set es. good_entry 0 e" "length es \<le> 512"
    and "read_bytes (e_mem s) p CONFIG_ENV_SIZE = env_block (crc_of img) img" "img = text_of 0 es @ replicate k 0" "0 < k" "length img = ENV_SIZE"
  shows "\<exists>s'. env_import H s p True = Some (1, s') \<and> holds_vars s' (map_of (rev es))"
proof -
  have data: "read_bytes (e_mem s) (p + 4) ENV_SIZE = img" "env_crc_ok (e_mem s) p"
    using block_parts(1) [OF assms(8,5)] block_crc_ok [OF assms(8,5)] by simp_all
  have "card (fst ` set es) \<le> length es" using card_length [of "map fst es"] by simp
  then have "int (card (fst ` set es)) \<le> nent (length img)" using assms(4,8) by (simp add: nent_def sizes)
  then obtain h' hp' where "himport_r H (e_heap s) (Some (e_htab s)) img (length img) 0 False = Some (1, None, Some h', hp')"
      "ht_inv h'" "lookup h' = map_of (rev es)"
    using himport_text [OF assms(1) assms(2) [unfolded table_usable_def] _ assms(3,7,6), of "e_heap s"] by (auto simp: sep_ok_def)
  then show ?thesis using data assms(8) by (auto simp: env_import_def holds_vars_def)
qed

lemma cleared_and_copied:
  assumes "length bs \<le> n" "4 + n \<le> 4294967296"
  shows "read_bytes (write_bytes (memset m p 0 (4 + n)) (p + 4) bs) (p + 4) n = bs @ replicate (n - length bs) 0"
proof (rule nth_equalityI)
  show "length (read_bytes (write_bytes (memset m p 0 (4 + n)) (p + 4) bs) (p + 4) n) = length (bs @ replicate (n - length bs) 0)"
    using assms(1) by simp
  fix k assume "k < length (read_bytes (write_bytes (memset m p 0 (4 + n)) (p + 4) bs) (p + 4) n)"
  then have k: "k < n" by simp
  have off: "unat ((p + 4 + of_nat k) - (p + 4)) = k" using k assms(2) by (simp add: unat_of_nat_addr)
  have "(p + 4 + of_nat k) - p = (of_nat (4 + k) :: addr)" by simp
  then have off': "unat ((p + 4 + of_nat k) - p) = 4 + k" using k assms(2) by (simp only: unat_of_nat_addr)
  have "memset m p 0 (4 + n) (p + 4 + of_nat k) = 0"
    unfolding memset_bytes using off' k assms(2) by (subst write_bytes_at) simp_all
  then show "read_bytes (write_bytes (memset m p 0 (4 + n)) (p + 4) bs) (p + 4) n ! k = (bs @ replicate (n - length bs) 0) ! k"
    using k assms off by (simp add: write_bytes_at nth_append)
qed

lemma use_default_vars:
  assumes "sure_heap H" "table_usable (e_htab s)"
  shows "\<exists>s'. use_default H s p = Some s' \<and> holds_vars s' (map_of default_vars)"
proof -
  define img where "img = default_environment @ replicate (ENV_SIZE - length default_environment) 0"
  define m where "m = write_bytes (memset (e_mem s) p 0 CONFIG_ENV_SIZE) (p + 4) default_environment"
  define m' where "m' = store_le 4 m p (crc32 m 0 (p + 4) ENV_SIZE)"
  have len: "length img = ENV_SIZE" using default_length by (simp add: img_def sizes)
  have img: "img = text_of 0 default_vars @ replicate (2 + (ENV_SIZE - length default_environment)) 0"
    by (simp add: img_def default_text numeral_2_eq_2)
  have data: "read_bytes m (p + 4) ENV_SIZE = img"
    using cleared_and_copied [of default_environment ENV_SIZE "e_mem s" p] default_length by (simp add: m_def img_def sizes)
  have block: "read_bytes m' p CONFIG_ENV_SIZE = env_block (crc_of img) img"
    using block_signed [OF data] data by (simp add: m'_def crc32_of)
  obtain s' where "env_import H (s\<lparr>e_mem := m', env_valid := 1\<rparr>) p True = Some (1, s')" "holds_vars s' (map_of (rev default_vars))"
    using env_import_block [OF assms(1) _ default_good _ _ img _ len, of "s\<lparr>e_mem := m', env_valid := 1\<rparr>" p] block assms(2) default_names(1) by auto
  moreover have "map_of (rev default_vars) = map_of default_vars"
    using default_names(2) map_of_inject_set [of "rev default_vars" default_vars] by (simp add: rev_map [symmetric])
  ultimately show ?thesis using default_length by (simp add: use_default_def sizes m'_def m_def Let_def)
qed

section \<open>Saving and restoring\<close>

text \<open>The variables fit in a block: the text format can express them, and there is room for the text as it is measured
  and as it is written.\<close>

definition saveable :: "hsearch_data \<Rightarrow> bool" where
  "saveable h \<longleftrightarrow> ht_inv h \<and> (\<forall>e\<in>set (used_entries h). good_entry 0 e) \<and> length (used_entries h) \<le> 512 \<and>
     totlen 0 (used_entries h) < ENV_SIZE \<and> length (text_of 0 (used_entries h)) < ENV_SIZE"

definition saved_text :: "hsearch_data \<Rightarrow> u8 list" where
  "saved_text h = text_of 0 (sorted_entries h) @ replicate (ENV_SIZE - length (text_of 0 (sorted_entries h))) 0"

lemma saved_text_length: "saveable h \<Longrightarrow> length (saved_text h) = ENV_SIZE"
  using sorted_sums(2) [of 0 h] by (simp add: saveable_def saved_text_def)

lemma saveenv_movinand_block:
  assumes "saveable (e_htab s)"
  shows "\<exists>m. saveenv_movinand H movi_write_env dev s p =
    Some (1, movi_write_env dev (env_block (crc_of (saved_text (e_htab s))) (saved_text (e_htab s))), s\<lparr>e_mem := m\<rparr>)"
proof -
  let ?h = "e_htab s" and ?img = "saved_text (e_htab s)"
  note sv = assms [unfolded saveable_def]
  have e: "hexport_r H (e_heap s) (Some ?h) 0 (Some (Some (read_bytes (e_mem s) (p + 4) ENV_SIZE))) ENV_SIZE =
      Some (int ENV_SIZE, None, Some (Some ?img), e_heap s)"
    using hexport_value [OF _ _ _ own_buffer refl, of ?h ENV_SIZE ENV_SIZE 0 "read_bytes (e_mem s) (p + 4) ENV_SIZE" H "e_heap s"]
      sv sorted_sums(2) [of 0 ?h] by (simp add: saved_text_def sizes)
  define m where "m = write_bytes (e_mem s) (p + 4) ?img"
  have data: "read_bytes m (p + 4) ENV_SIZE = ?img"
    using read_write_bytes [of ?img "e_mem s" "p + 4"] saved_text_length [OF assms] by (simp add: m_def sizes)
  have "read_bytes (store_le 4 m p (crc32 m 0 (p + 4) ENV_SIZE)) p CONFIG_ENV_SIZE = env_block (crc_of ?img) ?img"
    using block_signed [OF data] data by (simp add: crc32_of)
  then show ?thesis using e unfolding saveenv_movinand_def
    by (intro exI [of _ "store_le 4 m p (crc32 m 0 (p + 4) ENV_SIZE)"]) (simp add: Let_def m_def)
qed

lemma saved_vars:
  assumes "saveable h"
  shows "map_of (rev (sorted_entries h)) = lookup h"
proof -
  have d: "distinct (map fst (used_entries h))" using assms distinct_used_entries by (simp add: saveable_def)
  have "mset (map fst (sorted_entries h)) = mset (map fst (used_entries h))" using sorted_entries(2) [of h] by simp
  then have "distinct (map fst (sorted_entries h))" using d mset_eq_imp_distinct_iff by blast
  then show ?thesis
    using d set_sorted_entries [of h] map_of_inject_set [of "rev (sorted_entries h)" "used_entries h"]
    by (simp add: rev_map [symmetric] lookup_def)
qed

lemma env_relocate_read:
  assumes "reg \<in> {3, 6, 7}" "env_valid s \<noteq> 0" "movi_read_env dev = env_block c img" "length img = ENV_SIZE"
  shows "env_relocate H movi_read_env dev reg s p =
    (let s = s\<lparr>e_mem := write_bytes (e_mem s) p (env_block c img)\<rparr>
     in if crc_of img = c then map_option snd (env_import H s p True) else use_default H s p)"
  using assms block_crc_ok [OF assms(4) block_stored [OF assms(4)]]
  by (auto simp: env_relocate_def env_relocate_spec_def env_relocate_spec_movinand_def Let_def)

subsection \<open>A small environment\<close>

definition boot_state :: "hsearch_data \<Rightarrow> unit env_state" where
  "boot_state h = \<lparr>e_mem = \<lambda>_. 0, e_heap = (), e_htab = h, env_ready = False, env_valid = 1\<rparr>"

definition no_table :: hsearch_data where
  "no_table = \<lparr>table = None, h_size = 0, filled = 0\<rparr>"

lemma two_vars_saveable: "saveable two_vars"
  using two_vars_inv
  by (auto simp: saveable_def small_entries good_entry_def good_name_def totlen_def data_room_def entry_text_def escaped_def sizes)

lemma two_vars_text: "saved_text two_vars = 97 # tl (saved_text two_vars)"
proof -
  have "sorted_entries two_vars = [([97], [49]), ([102], [50])]" by code_simp
  then show ?thesis by (simp add: saved_text_def entry_text_def escaped_def)
qed

section \<open>Properties\<close>

text \<open>C1: the environment survives a reboot.  Saving writes a block to the device, and the next start, from any memory and with
  the device unchanged, finds its checksum correct and has exactly the variables that were saved.\<close>

theorem env_survives_reboot:
  assumes "saveable (e_htab s)" "reg \<in> {3, 6, 7}" "sure_heap H" "table_usable (e_htab s0)" "env_valid s0 \<noteq> 0"
    and "\<forall>dev bs. length bs = CONFIG_ENV_SIZE \<longrightarrow> movi_read_env (movi_write_env dev bs) = bs"
  shows "\<exists>dev' s' s1. saveenv H movi_write_env dev reg s p = Some (0, dev', s') \<and>
    env_relocate H movi_read_env dev' reg s0 p' = Some s1 \<and> holds_vars s1 (lookup (e_htab s))"
proof -
  let ?img = "saved_text (e_htab s)" and ?es = "sorted_entries (e_htab s)"
  note sv = assms(1) [unfolded saveable_def]
  note len = saved_text_length [OF assms(1)]
  define dev' where "dev' = movi_write_env dev (env_block (crc_of ?img) ?img)"
  obtain m where save: "saveenv H movi_write_env dev reg s p = Some (0, dev', s\<lparr>e_mem := m\<rparr>)"
    using saveenv_movinand_block [OF assms(1), of H movi_write_env dev p] assms(2) by (auto simp: saveenv_def dev'_def)
  have dev: "movi_read_env dev' = env_block (crc_of ?img) ?img"
    using assms(6) len by (simp add: dev'_def env_block_def sizes)
  define s1 where "s1 = s0\<lparr>e_mem := write_bytes (e_mem s0) p' (env_block (crc_of ?img) ?img)\<rparr>"
  have good: "\<forall>e\<in>set ?es. good_entry 0 e" "length ?es \<le> 512" "0 < ENV_SIZE - length (text_of 0 ?es)"
    using sv set_sorted_entries [of "e_htab s"] sorted_sums(2) [of 0 "e_htab s"] sorted_sums(4) [of "e_htab s"] by simp_all
  have "\<exists>s'. env_import H s1 p' True = Some (1, s') \<and> holds_vars s' (map_of (rev ?es))"
    by (rule env_import_block [OF assms(3) _ good(1,2) _ saved_text_def good(3) len])
      (use assms(4) block_stored [OF len] in \<open>simp_all add: s1_def\<close>)
  then show ?thesis using save env_relocate_read [where movi_read_env = movi_read_env and dev = dev', OF assms(2,5) dev len, of H p'] saved_vars [OF assms(1)] by (auto simp: s1_def Let_def)
qed

lemma env_survives_reboot_witness:
  "\<exists>dev' s' s1. saveenv unit_heap (\<lambda>dev bs. bs) [] 3 (boot_state two_vars) 0x1000 = Some (0, dev', s') \<and>
    env_relocate unit_heap (\<lambda>dev. dev) dev' 3 (boot_state no_table) 0x2000 = Some s1 \<and> holds_vars s1 (lookup two_vars)"
  using env_survives_reboot [where s = "boot_state two_vars" and reg = 3 and H = unit_heap and ?s0.0 = "boot_state no_table" and
      movi_read_env = "\<lambda>dev. dev" and movi_write_env = "\<lambda>dev bs. bs" and dev = "[]" and p = "0x1000" and p' = "0x2000"]
    two_vars_saveable unit_heap_sure by (simp add: boot_state_def no_table_def table_usable_def)



end
