(* ===== verification/Numbers.thy ===== *)
theory Numbers
  imports Cstring "HOL-Library.Monad_Syntax"
begin

text \<open>
  Numbers and their digits: the division of a 64-bit number by a 32-bit number of \<^verbatim>\<open>lib/div64.c\<close> and
  \<^verbatim>\<open>include/div64.h\<close>, the division-free conversion to decimal digits of \<^verbatim>\<open>lib/vsprintf.c\<close>, and the parsers
  \<^verbatim>\<open>simple_strtoul\<close>, \<^verbatim>\<open>simple_strtol\<close>, \<^verbatim>\<open>simple_strtoull\<close> and \<^verbatim>\<open>ustrtoul\<close> there.
\<close>

type_synonym u64w = "64 word"

section \<open>Division\<close>

lemma sint_positive: "0 < sint (b :: u64w) \<longleftrightarrow> 0 < unat b \<and> unat b < 2 ^ 63"
proof
  assume pos: "0 < sint b"
  then have "\<not> bit (uint b) 63" using bit_last_iff [of b] by (simp add: not_less bit_uint_iff)
  moreover have "take_bit (Suc 63) (uint b) = uint b" by (rule take_bit_int_eq_self) (use unsigned_less [of b, where ?'a = int] in simp_all)
  ultimately have "take_bit 63 (uint b) = uint b" using take_bit_Suc_from_most [of 63 "uint b"] by simp
  then have "uint b < 2 ^ 63" using take_bit_int_less_exp [of 63 "uint b"] by simp
  then have "int (unat b) < 2 ^ 63" by (simp only: uint_nat)
  moreover have "unat b \<noteq> 0" using pos by (cases "b = 0") (simp_all add: unsigned_eq_0_iff)
  ultimately show "0 < unat b \<and> unat b < 2 ^ 63" by (simp del: of_nat_unat)
next
  assume "0 < unat b \<and> unat b < 2 ^ 63"
  then have "0 < int (unat b)" "int (unat b) < 2 ^ 63" by (simp_all del: of_nat_unat)
  then have "uint b < 2 ^ 63" "0 < uint b" by (simp_all only: uint_nat)
  then have "signed_take_bit 63 (uint b) = uint b" by (intro signed_take_bit_int_eq_self) simp_all
  then show "0 < sint b" using \<open>0 < uint b\<close> by (simp add: sint_uint)
qed

lemma double_unat: "unat b < 2 ^ 63 \<Longrightarrow> unat (b + b :: u64w) = 2 * unat b"
  unfolding unat_word_ariths(1) by simp

lemma halve_unat: "unat (drop_bit 1 (b :: u64w)) = unat b div 2"
  unfolding unat_drop_bit_eq by (simp add: drop_bit_eq_div)

function scale_up :: "u64w \<Rightarrow> u64w \<Rightarrow> u64w \<Rightarrow> u64w \<times> u64w" where
  "scale_up rem b d = (if 0 < sint b \<and> b < rem then scale_up rem (b + b) (d + d) else (b, d))"
  by pat_completeness auto
termination
proof (relation "measure (\<lambda>(rem, b, d). 2 ^ 64 - unat b)")
  fix rem b d :: u64w
  assume "0 < sint b \<and> b < rem"
  then show "((rem, b + b, d + d), (rem, b, d)) \<in> measure (\<lambda>(rem, b, d). 2 ^ 64 - unat b)"
    using double_unat [of b] by (auto simp: sint_positive)
qed simp

declare scale_up.simps [simp del]

function subtract_down :: "u64w \<Rightarrow> u64w \<Rightarrow> u64w \<Rightarrow> u64w \<Rightarrow> u64w \<times> u64w" where
  "subtract_down rem res b d =
     (let (rem, res) = (if b \<le> rem then (rem - b, res + d) else (rem, res)); d' = drop_bit 1 d
      in if d' = 0 then (rem, res) else subtract_down rem res (drop_bit 1 b) d')"
  by pat_completeness auto
termination
proof (relation "measure (\<lambda>(rem, res, b, d). unat d)")
  fix rem res b d :: u64w and x xa y and d' :: u64w
  assume "d' = drop_bit 1 d" "d' \<noteq> 0"
  then have "0 < unat d" by (cases "d = 0") (simp_all add: unat_gt_0)
  then show "((xa, y, drop_bit 1 b, d'), (rem, res, b, d)) \<in> measure (\<lambda>(rem, res, b, d). unat d)"
    using \<open>d' = drop_bit 1 d\<close> halve_unat [of d] by simp
qed simp

declare subtract_down.simps [simp del]

text \<open>The quotient and the remainder; division by zero is undefined.\<close>

definition div64_32 :: "u64w \<Rightarrow> u32w \<Rightarrow> (u64w \<times> u32w) option" where
  "div64_32 n base =
     (let high = (ucast (drop_bit 32 n) :: u32w)
      in if base = 0 then None
         else
           (let (res, rem) =
              (if base \<le> high then
                 (let high = high div base in (push_bit 32 (ucast high), n - push_bit 32 (ucast (high * base))))
               else (0, n));
              (b, d) = scale_up rem (ucast base) 1;
              (rem, res) = subtract_down rem res b d
            in Some (res, ucast rem)))"

definition do_div :: "u64w \<Rightarrow> u32w \<Rightarrow> (u64w \<times> u32w) option" where
  "do_div n base =
     (if drop_bit 32 n = 0 then
        (if base = 0 then None else Some (ucast ((ucast n :: u32w) div base), (ucast n :: u32w) mod base))
      else div64_32 n base)"

definition lldiv :: "u64w \<Rightarrow> u32w \<Rightarrow> u64w option" where
  "lldiv dividend divisor = map_option fst (do_div dividend divisor)"

lemma scale_up_spec:
  assumes "unat b = B * 2 ^ k" "unat d = 2 ^ k" "0 < B"
  shows "\<exists>k'. unat (fst (scale_up rem b d)) = B * 2 ^ k' \<and> unat (snd (scale_up rem b d)) = 2 ^ k' \<and> unat rem < 2 * (B * 2 ^ k')"
  using assms
proof (induction rem b d arbitrary: k rule: scale_up.induct)
  case (1 rem b d)
  show ?case
  proof (cases "0 < sint b \<and> b < rem")
    case True
    then have small: "unat b < 2 ^ 63" by (simp add: sint_positive)
    have "2 ^ k \<le> unat b" using 1(2,4) by simp
    then have "unat d < 2 ^ 63" using small 1(3) by simp
    then have "unat (d + d) = 2 ^ Suc k" using double_unat [of d] 1(3) by simp
    moreover have "unat (b + b) = B * 2 ^ Suc k" using double_unat [OF small] 1(2) by simp
    moreover have "scale_up rem b d = scale_up rem (b + b) (d + d)" by (subst scale_up.simps) (rule if_P [OF True])
    ultimately show ?thesis using 1(1) [OF True, of "Suc k"] 1(4) by metis
  next
    case False
    have "unat rem < 2 * unat b"
    proof (cases "unat b < unat rem")
      case True
      then have "2 ^ 63 \<le> unat b" using False 1(2,4) by (simp add: sint_positive word_less_nat_alt)
      then show ?thesis using unsigned_less [of rem, where ?'a = nat] by simp
    next
      case nb: False
      have "0 < unat b" using 1(2,4) by simp
      then show ?thesis using nb by linarith
    qed
    moreover have "scale_up rem b d = (b, d)" by (subst scale_up.simps) (rule if_not_P [OF False])
    ultimately show ?thesis using 1(2,3) by auto
  qed
qed

lemma subtract_step:
  fixes b d rem res :: u64w
  assumes "unat b = B * p" "unat d = p" "0 < B" "unat rem < 2 * (B * p)" "unat res + unat rem div B < 2 ^ 64" "b \<le> rem"
  shows "unat (rem - b) = unat rem - B * p" "unat (res + d) = unat res + p" "unat (rem - b) div B = unat rem div B - p"
    "p \<le> unat rem div B" "unat (rem - b) mod B = unat rem mod B"
proof -
  have le: "B * p \<le> unat rem" using assms(1,6) by (simp add: word_le_nat_alt)
  then have p: "p \<le> unat rem div B" using assms(3) by (simp add: less_eq_div_iff_mult_less_eq mult.commute)
  show "unat (rem - b) = unat rem - B * p" using assms(1,6) by (simp add: unat_sub)
  moreover show "unat (res + d) = unat res + p" unfolding unat_word_ariths(1) using assms(2,5) p by simp
  moreover obtain r where r: "unat rem = r + B * p" using le by (metis le_add_diff_inverse2)
  ultimately show "unat (rem - b) div B = unat rem div B - p" "unat (rem - b) mod B = unat rem mod B"
    using assms(3) by simp_all
  show "p \<le> unat rem div B" by (fact p)
qed

lemma subtract_down_spec:
  assumes "unat b = B * 2 ^ k" "unat d = 2 ^ k" "0 < B" "unat rem < 2 * (B * 2 ^ k)" "unat res + unat rem div B < 2 ^ 64"
  shows "unat (fst (subtract_down rem res b d)) = unat rem mod B \<and> unat (snd (subtract_down rem res b d)) = unat res + unat rem div B"
  using assms
proof (induction k arbitrary: rem res b d)
  case 0
  have base: "unat b = B * 1" "unat d = 1" "unat rem < 2 * (B * 1)" using 0 by simp_all
  note step = subtract_step [OF base(1,2) 0(3) base(3) 0(5)]
  have "unat (drop_bit 1 d) = 0" unfolding halve_unat base(2) by simp
  then have "drop_bit 1 d = 0" by (simp only: unsigned_eq_0_iff)
  then have eq: "subtract_down rem res b d = (if b \<le> rem then (rem - b, res + d) else (rem, res))"
    by (subst subtract_down.simps) (simp split del: if_split)
  show ?case
  proof (cases "b \<le> rem")
    case True
    have "unat (rem - b) < B" using step(1) [OF True] base(3) True by (simp add: base(1) word_le_nat_alt)
    then show ?thesis using step(2-5) [OF True] eq True by simp
  next
    case False
    then show ?thesis using base(1) eq by (simp add: word_le_nat_alt)
  qed
next
  case (Suc k)
  have halves: "unat (drop_bit 1 b) = B * 2 ^ k" "unat (drop_bit 1 d) = 2 ^ k" unfolding halve_unat using Suc.prems(1,2) by simp_all
  then have "drop_bit 1 d \<noteq> 0" by (metis power_eq_0_iff unat_0 zero_neq_numeral)
  then have eq: "subtract_down rem res b d =
      subtract_down (if b \<le> rem then rem - b else rem) (if b \<le> rem then res + d else res) (drop_bit 1 b) (drop_bit 1 d)"
    by (subst subtract_down.simps) (simp add: Let_def)
  show ?case
  proof (cases "b \<le> rem")
    case True
    note step = subtract_step [OF Suc.prems True]
    have "unat (rem - b) < 2 * (B * 2 ^ k)" using step(1) Suc.prems(1,4) by simp
    then show ?thesis using Suc.IH [OF halves Suc.prems(3)] step(2-5) Suc.prems(5) eq True by simp
  next
    case False
    then have "unat rem < 2 * (B * 2 ^ k)" using Suc.prems(1) by (simp add: word_le_nat_alt)
    then show ?thesis using Suc.IH [OF halves Suc.prems(3)] Suc.prems(5) eq False by simp
  qed
qed

lemma push_unat: "unat (push_bit 32 (ucast (x :: u32w)) :: u64w) = unat x * 2 ^ 32"
proof -
  have "unat x < 2 ^ 32" using unsigned_less [of x, where ?'a = nat] by simp
  then show ?thesis unfolding push_bit_eq_mult unat_word_ariths(2) by (simp add: unsigned_ucast_eq take_bit_nat_eq_self)
qed

lemma drop_unat: "unat (drop_bit k (x :: 'a :: len word)) = unat x div 2 ^ k"
  by (subst unat_drop_bit_eq) (rule drop_bit_eq_div)

lemma high_unat: "unat (ucast (drop_bit 32 (n :: u64w)) :: u32w) = unat n div 2 ^ 32"
proof -
  have "unat n < 2 ^ 64" using unsigned_less [of n, where ?'a = nat] by simp
  then have "unat n div 2 ^ 32 < 2 ^ 32" by (simp add: less_mult_imp_div_less)
  then show ?thesis by (simp only: unsigned_ucast_eq drop_unat) (simp add: take_bit_nat_eq_self)
qed

lemma reduce_high:
  fixes n :: u64w and base high :: u32w
  assumes "0 < unat base" "unat high = unat n div 2 ^ 32" "h = high div base"
  shows "unat (push_bit 32 (ucast h) :: u64w) + unat (n - push_bit 32 (ucast (h * base))) div unat base = unat n div unat base"
    "unat (n - push_bit 32 (ucast (h * base))) mod unat base = unat n mod unat base"
proof -
  let ?h = "unat n div 2 ^ 32 div unat base"
  have h: "unat h = ?h" using assms by (simp add: unat_div)
  have "?h * unat base \<le> unat n div 2 ^ 32" by simp
  moreover have "unat n div 2 ^ 32 < 2 ^ 32" using unsigned_less [of high, where ?'a = nat] assms(2) by simp
  ultimately have "?h * unat base < 2 ^ 32" by (rule le_less_trans)
  then have hb: "unat (h * base) = ?h * unat base" unfolding unat_word_ariths(2) h by (intro mod_less) simp
  have le: "?h * unat base * 2 ^ 32 \<le> unat n"
    using mult_le_mono1 [OF \<open>?h * unat base \<le> unat n div 2 ^ 32\<close>, of "2 ^ 32"] div_times_less_eq_dividend [of "unat n" "2 ^ 32"] by (rule le_trans)
  have "unat (n - push_bit 32 (ucast (h * base))) = unat n - ?h * unat base * 2 ^ 32"
    using le by (subst unat_sub) (simp_all only: word_le_nat_alt push_unat hb)
  moreover obtain r where r: "unat n = r + unat base * (?h * 2 ^ 32)"
    using le_Suc_ex [OF le] by (auto simp: mult.assoc mult.left_commute add.commute)
  ultimately have eq: "unat (n - push_bit 32 (ucast (h * base))) = r" by (simp add: mult.assoc mult.left_commute)
  have "unat n div unat base = r div unat base + ?h * 2 ^ 32"
    by (subst r) (use assms(1) in \<open>simp only: div_mult_self2 less_not_refl3 not_False_eq_True\<close>)
  then show "unat (push_bit 32 (ucast h) :: u64w) + unat (n - push_bit 32 (ucast (h * base))) div unat base = unat n div unat base"
    unfolding push_unat h eq by linarith
  show "unat (n - push_bit 32 (ucast (h * base))) mod unat base = unat n mod unat base"
    unfolding eq by (subst r) simp
qed

lemma div64_32_value:
  assumes "base \<noteq> 0"
  shows "\<exists>q r. div64_32 n base = Some (q, r) \<and> unat q = unat n div unat base \<and> unat r = unat n mod unat base"
proof -
  let ?B = "unat base"
  define high :: u32w where "high = ucast (drop_bit 32 n)"
  have B: "0 < ?B" "?B < 2 ^ 32" using assms unsigned_less [of base, where ?'a = nat] by (simp_all add: unat_gt_0)
  define start :: "u64w \<times> u64w" where "start = (if base \<le> high
        then (let high = high div base in (push_bit 32 (ucast high), n - push_bit 32 (ucast (high * base)))) else (0, n))"
  obtain res rem :: u64w where start: "start = (res, rem)" by fastforce
  have inv: "unat res + unat rem div ?B = unat n div ?B" "unat rem mod ?B = unat n mod ?B"
    using reduce_high [OF B(1) high_unat [of n, folded high_def] refl] start by (auto simp: start_def Let_def split: if_splits)
  have B64: "unat (ucast base :: u64w) = ?B * 2 ^ 0" using B(2) by (simp add: unsigned_ucast_eq take_bit_nat_eq_self)
  obtain b d k where up: "scale_up rem (ucast base) 1 = (b, d)" "unat b = ?B * 2 ^ k" "unat d = 2 ^ k" "unat rem < 2 * (?B * 2 ^ k)"
    using scale_up_spec [OF B64, of 1 rem] B(1) by (metis prod.collapse power_0 unat_1)
  have "unat n div ?B < 2 ^ 64" by (rule le_less_trans [OF div_le_dividend]) (use unsigned_less [of n, where ?'a = nat] in simp)
  then obtain rem' res' where down: "subtract_down rem res b d = (rem', res')" "unat rem' = unat rem mod ?B" "unat res' = unat res + unat rem div ?B"
    using subtract_down_spec [OF up(2,3) B(1) up(4), of res] inv(1) by (metis prod.collapse)
  have "unat rem mod ?B < 2 ^ 32" using B by (meson less_trans mod_less_divisor)
  then have "unat (ucast rem' :: u32w) = unat rem mod ?B" using down(2) by (simp add: unsigned_ucast_eq take_bit_nat_eq_self)
  moreover have "div64_32 n base = Some (res', ucast rem')"
    using assms start up(1) down(1) unfolding start_def high_def by (simp add: div64_32_def Let_def)
  ultimately show ?thesis using inv down(3) by simp
qed

lemma do_div_value:
  assumes "base \<noteq> 0"
  shows "\<exists>q r. do_div n base = Some (q, r) \<and> unat q = unat n div unat base \<and> unat r = unat n mod unat base"
proof (cases "drop_bit 32 n = 0")
  case True
  then have "unat n div 2 ^ 32 = 0" by (metis drop_unat unat_0)
  then have n: "unat (ucast n :: u32w) = unat n" by (simp add: unsigned_ucast_eq take_bit_nat_eq_self div_eq_0_iff)
  have "unat n div unat base < 2 ^ 64" by (rule le_less_trans [OF div_le_dividend]) (use unsigned_less [of n, where ?'a = nat] in simp)
  moreover have "unat ((ucast n :: u32w) div base) = unat n div unat base" by (simp only: unat_div n)
  ultimately have "unat (ucast ((ucast n :: u32w) div base) :: u64w) = unat n div unat base"
    by (subst unsigned_ucast_eq) (simp add: take_bit_nat_eq_self)
  then show ?thesis using True assms by (simp add: do_div_def unat_mod n)
next
  case False
  then show ?thesis using div64_32_value [OF assms, of n] by (simp add: do_div_def)
qed

section \<open>Decimal digits\<close>

text \<open>The least significant digit comes first.  The divisions by ten are multiplications and shifts.\<close>

definition put_dec_trunc :: "u32w \<Rightarrow> u8 list" where
  "put_dec_trunc q =
     (let d1 = drop_bit 4 q AND 0xf; d2 = drop_bit 8 q AND 0xf; d3 = drop_bit 12 q;
        d0 = 6 * (d3 + d2 + d1) + (q AND 0xf); q = drop_bit 11 (d0 * 0xcd); d0 = d0 - 10 * q;
        d1 = q + 9 * d3 + 5 * d2 + d1
      in ucast (d0 + 48) #
        (if d1 \<noteq> 0 then
           (let q = drop_bit 11 (d1 * 0xcd); d1 = d1 - 10 * q; d2 = q + 2 * d2
            in ucast (d1 + 48) #
              (if d2 \<noteq> 0 \<or> d3 \<noteq> 0 then
                 (let q = drop_bit 7 (d2 * 0xd); d2 = d2 - 10 * q; d3 = q + 4 * d3
                  in ucast (d2 + 48) #
                    (if d3 \<noteq> 0 then
                       (let q = drop_bit 11 (d3 * 0xcd); d3 = d3 - 10 * q
                        in ucast (d3 + 48) # (if q \<noteq> 0 then [ucast (q + 48)] else []))
                     else []))
               else []))
         else []))"

definition put_dec_full :: "u32w \<Rightarrow> u8 list" where
  "put_dec_full q =
     (let d1 = drop_bit 4 q AND 0xf; d2 = drop_bit 8 q AND 0xf; d3 = drop_bit 12 q;
        d0 = 6 * (d3 + d2 + d1) + (q AND 0xf); q0 = drop_bit 11 (d0 * 0xcd); d0 = d0 - 10 * q0;
        d1 = q0 + 9 * d3 + 5 * d2 + d1; q1 = drop_bit 11 (d1 * 0xcd); d1 = d1 - 10 * q1;
        d2 = q1 + 2 * d2; q2 = drop_bit 7 (d2 * 0xd); d2 = d2 - 10 * q2;
        d3 = q2 + 4 * d3; q3 = drop_bit 11 (d3 * 0xcd); d3 = d3 - 10 * q3
      in [ucast (d0 + 48), ucast (d1 + 48), ucast (d2 + 48), ucast (d3 + 48), ucast (q3 + 48)])"

function put_dec :: "u64w \<Rightarrow> u8 list option" where
  "put_dec num =
     (if num < 100000 then Some (put_dec_trunc (ucast num))
      else
        do {
          (num, rem) \<leftarrow> do_div num 100000;
          ds \<leftarrow> put_dec num;
          Some (put_dec_full rem @ ds)
        })"
  by pat_completeness auto
termination
proof (relation "measure unat")
  fix num q :: u64w and r :: u32w and x
  assume a: "\<not> num < 100000" "do_div num 100000 = Some x" "(q, r) = x"
  then have "unat q = unat num div 100000" using do_div_value [of 100000 num] by auto
  moreover have "100000 \<le> unat num" using a(1) by (simp add: word_less_nat_alt)
  ultimately show "(q, num) \<in> measure unat" by simp
qed simp

declare put_dec.simps [simp del]

text \<open>The digits of a number in a base, the least significant one first, and their characters.\<close>

function lsd :: "nat \<Rightarrow> nat \<Rightarrow> nat list" where
  "lsd base n = (if base < 2 \<or> n < base then [n] else n mod base # lsd base (n div base))"
  by pat_completeness auto
termination
  by (relation "measure snd") (auto simp: div_less_dividend)

declare lsd.simps [simp del]

definition decimal :: "nat \<Rightarrow> u8" where
  "decimal d = word_of_nat (d + 48)"

text \<open>Reading the words of the conversion as numbers.\<close>

lemma w_unat: "n < 2 ^ 32 \<Longrightarrow> unat (of_nat n :: u32w) = n"
  by (simp add: unsigned_of_nat take_bit_nat_eq_self)

lemma w_drop: "n < 2 ^ 32 \<Longrightarrow> drop_bit k (of_nat n :: u32w) = of_nat (n div 2 ^ k)"
  by (simp only: word_unat_eq_iff drop_unat w_unat) (rule w_unat [symmetric], rule le_less_trans [OF div_le_dividend])

lemma w_low: "(of_nat n :: u32w) AND 0xf = of_nat (n mod 16)"
proof -
  have "(of_nat n :: u32w) AND mask 4 = of_nat (take_bit 4 n)" by (simp add: take_bit_eq_mask of_nat_and_eq of_nat_mask_eq)
  then show ?thesis by (simp add: mask_eq_exp_minus_1 take_bit_eq_mod)
qed

lemma w_zero: "n < 2 ^ 32 \<Longrightarrow> (of_nat n :: u32w) = 0 \<longleftrightarrow> n = 0"
  by (simp add: word_unat_eq_iff w_unat)

lemma tenth:
  fixes e :: nat
  shows "e < 1000 \<Longrightarrow> e * 205 div 2048 = e div 10" "e < 64 \<Longrightarrow> e * 13 div 128 = e div 10"
proof -
  obtain k r where e: "e = 10 * k + r" "r < 10" and k: "e div 10 = k"
    by (metis mod_less_divisor mult_div_mod_eq zero_less_numeral)
  show "e * 205 div 2048 = e div 10" if "e < 1000"
    unfolding k by (intro div_nat_eqI) (use that e in simp_all)
  show "e * 13 div 128 = e div 10" if "e < 64"
    unfolding k by (intro div_nat_eqI) (use that e in simp_all)
qed

lemma w_tenth:
  "e < 1000 \<Longrightarrow> drop_bit 11 ((of_nat e :: u32w) * 0xcd) = of_nat (e div 10)"
  "e < 64 \<Longrightarrow> drop_bit 7 ((of_nat e :: u32w) * 0xd) = of_nat (e div 10)"
  "(of_nat e :: u32w) - 10 * of_nat (e div 10) = of_nat (e mod 10)"
proof -
  show "drop_bit 11 ((of_nat e :: u32w) * 0xcd) = of_nat (e div 10)" if "e < 1000"
    using w_drop [of "e * 205" 11] that tenth(1) [of e] by simp
  show "drop_bit 7 ((of_nat e :: u32w) * 0xd) = of_nat (e div 10)" if "e < 64"
    using w_drop [of "e * 13" 7] that tenth(2) [of e] by simp
  have "(of_nat e :: u32w) = of_nat (10 * (e div 10) + e mod 10)" by simp
  then show "(of_nat e :: u32w) - 10 * of_nat (e div 10) = of_nat (e mod 10)" by (simp only: of_nat_add of_nat_mult) simp
qed

lemma w_decimal:
  assumes "d < 10"
  shows "ucast (of_nat d + 48 :: u32w) = decimal d"
proof -
  have "ucast (of_nat (d + 48) :: u32w) = (of_nat (d + 48) :: u8)"
    unfolding word_unat_eq_iff unsigned_ucast_eq unsigned_of_nat using assms by (simp add: take_bit_nat_eq_self)
  then show ?thesis by (simp add: decimal_def add.commute)
qed

text \<open>The four hexadecimal digits and the five decimal digits of a number.\<close>

lemma hex_dec_sums:
  fixes n d1 d2 d3 r :: nat
  assumes "n = 4096 * d3 + 256 * d2 + 16 * d1 + r" "e0 = 6 * (d3 + d2 + d1) + r" "e0 = 10 * q0 + m0"
    "e1 = q0 + 9 * d3 + 5 * d2 + d1" "e1 = 10 * q1 + m1" "e2 = q1 + 2 * d2" "e2 = 10 * q2 + m2" "e3 = q2 + 4 * d3"
  shows "n = 10 * (400 * d3 + 20 * d2 + e1) + m0" "n = 100 * (40 * d3 + e2) + 10 * m1 + m0"
    "n = 1000 * e3 + 100 * m2 + 10 * m1 + m0"
  using assms by (simp_all add: algebra_simps)

lemma hex_dec_bounds:
  fixes d1 d2 d3 r :: nat
  assumes "e0 = 6 * (d3 + d2 + d1) + r" "e0 = 10 * q0 + m0" "e1 = q0 + 9 * d3 + 5 * d2 + d1" "e1 = 10 * q1 + m1"
    "e2 = q1 + 2 * d2" "e2 = 10 * q2 + m2" "e3 = q2 + 4 * d3" "d3 < 25" "d2 < 16" "d1 < 16" "r < 16"
  shows "e0 < 1000" "e1 < 1000" "e2 < 64" "e3 < 1000"
proof -
  have e0: "e0 \<le> 339" using assms(1,8-11) by simp
  then have q0: "q0 \<le> 33" using assms(2) by simp
  then have e1: "e1 \<le> 339" using assms(3,8-10) by simp
  then have "q1 \<le> 33" using assms(4) by simp
  then have e2: "e2 \<le> 63" using assms(5,9) by simp
  then have "q2 \<le> 6" using assms(6) by simp
  then show "e0 < 1000" "e1 < 1000" "e2 < 64" "e3 < 1000" using e0 e1 e2 assms(7,8) by simp_all
qed

lemma top_digits:
  fixes n a :: nat
  shows "n = 100 * a + 10 * x + y \<Longrightarrow> x < 10 \<Longrightarrow> y < 10 \<Longrightarrow> n div 100 = a"
    "n = 1000 * a + 100 * z + 10 * x + y \<Longrightarrow> z < 10 \<Longrightarrow> x < 10 \<Longrightarrow> y < 10 \<Longrightarrow> n div 1000 = a"
  by (auto intro!: div_nat_eqI)

lemma hex_dec_digits:
  fixes n :: nat
  assumes "n < 100000"
  defines "d1 \<equiv> n div 16 mod 16" and "d2 \<equiv> n div 256 mod 16" and "d3 \<equiv> n div 4096"
  defines "e0 \<equiv> 6 * (d3 + d2 + d1) + n mod 16"
  defines "e1 \<equiv> e0 div 10 + 9 * d3 + 5 * d2 + d1"
  defines "e2 \<equiv> e1 div 10 + 2 * d2"
  defines "e3 \<equiv> e2 div 10 + 4 * d3"
  shows "e0 mod 10 = n mod 10" "e1 mod 10 = n div 10 mod 10" "e2 mod 10 = n div 100 mod 10" "e3 = n div 1000"
    "e0 < 1000" "e1 < 1000" "e2 < 64" "e3 < 1000" "e1 = 0 \<longleftrightarrow> n div 10 = 0" "e2 = 0 \<and> d3 = 0 \<longleftrightarrow> n div 100 = 0"
proof -
  have n: "n = 4096 * d3 + 256 * d2 + 16 * d1 + n mod 16" 
  proof -
    have "n div 256 = n div 16 div 16" "n div 4096 = n div 256 div 16" by (simp_all flip: div_mult2_eq)
    then show ?thesis
      using mult_div_mod_eq [of 16 n] mult_div_mod_eq [of 16 "n div 16"] mult_div_mod_eq [of 16 "n div 256"]
      unfolding d1_def d2_def d3_def by linarith
  qed
  have b: "d3 < 25" "d2 < 16" "d1 < 16" "n mod 16 < 16" using assms(1) unfolding d1_def d2_def d3_def by (simp_all add: less_mult_imp_div_less)
  have q: "e0 = 10 * (e0 div 10) + e0 mod 10" "e1 = 10 * (e1 div 10) + e1 mod 10" "e2 = 10 * (e2 div 10) + e2 mod 10" by simp_all
  have m: "e0 mod 10 < 10" "e1 mod 10 < 10" "e2 mod 10 < 10" by simp_all
  have E: "e0 = 6 * (d3 + d2 + d1) + n mod 16" "e1 = e0 div 10 + 9 * d3 + 5 * d2 + d1" "e2 = e1 div 10 + 2 * d2" "e3 = e2 div 10 + 4 * d3"
    by (simp_all only: e0_def e1_def e2_def e3_def)
  note sums = hex_dec_sums [OF n E(1) q(1) E(2) q(2) E(3) q(3) E(4)]
  have t1: "n div 10 = 10 * (40 * d3 + 2 * d2) + e1" using m(1) by (subst sums(1)) simp
  have t2: "n div 100 = 10 * (4 * d3) + e2" using top_digits(1) [OF sums(2) m(2,1)] by simp
  show "e0 mod 10 = n mod 10" by (subst sums(1)) (simp only: mod_mult_self4 mod_mod_trivial)
  show "e1 mod 10 = n div 10 mod 10" "e2 mod 10 = n div 100 mod 10" unfolding t1 t2 by (simp_all only: mod_mult_self4)
  show "e3 = n div 1000" using top_digits(2) [OF sums(3) m(3,2,1)] by simp
  show "e1 = 0 \<longleftrightarrow> n div 10 = 0" unfolding t1 using E(2) by auto
  show "e2 = 0 \<and> d3 = 0 \<longleftrightarrow> n div 100 = 0" unfolding t2 by auto
  show "e0 < 1000" "e1 < 1000" "e2 < 64" "e3 < 1000" using hex_dec_bounds [OF E(1) q(1) E(2) q(2) E(3) q(3) E(4) b] by simp_all
qed

lemma lsd_rec: "lsd 10 n = n mod 10 # (if n div 10 = 0 then [] else lsd 10 (n div 10))"
  by (subst lsd.simps) auto

lemma put_dec_words:
  assumes "unat q < 100000"
  defines "n \<equiv> unat q"
  shows "put_dec_full q = map decimal [n mod 10, n div 10 mod 10, n div 100 mod 10, n div 1000 mod 10, n div 10000]"
    "put_dec_trunc q = decimal (n mod 10) #
       (if n div 10 = 0 then []
        else decimal (n div 10 mod 10) #
          (if n div 100 = 0 then []
           else decimal (n div 100 mod 10) #
             (if n div 1000 = 0 then []
              else decimal (n div 1000 mod 10) # (if n div 10000 = 0 then [] else [decimal (n div 10000)]))))"
proof -
  have q: "q = of_nat n" "n < 100000" "n < 2 ^ 32" using assms by simp_all
  define d1 d2 d3 where d: "d1 = n div 16 mod 16" "d2 = n div 256 mod 16" "d3 = n div 4096"
  define e0 where e0: "e0 = 6 * (d3 + d2 + d1) + n mod 16"
  define e1 where e1: "e1 = e0 div 10 + 9 * d3 + 5 * d2 + d1"
  define e2 where e2: "e2 = e1 div 10 + 2 * d2"
  define e3 where e3: "e3 = e2 div 10 + 4 * d3"
  note digits = hex_dec_digits [OF q(2), folded d, folded e0, folded e1, folded e2, folded e3]
  have hex: "drop_bit 4 q AND 0xf = of_nat d1" "drop_bit 8 q AND 0xf = of_nat d2" "drop_bit 12 q = of_nat d3" "q AND 0xf = of_nat (n mod 16)"
    unfolding q(1) w_drop [OF q(3)] w_low d by simp_all
  have sums: "6 * (of_nat d3 + of_nat d2 + of_nat d1) + of_nat (n mod 16) = (of_nat e0 :: u32w)"
    "of_nat (e0 div 10) + 9 * of_nat d3 + 5 * of_nat d2 + of_nat d1 = (of_nat e1 :: u32w)"
    "of_nat (e1 div 10) + 2 * of_nat d2 = (of_nat e2 :: u32w)" "of_nat (e2 div 10) + 4 * of_nat d3 = (of_nat e3 :: u32w)"
    unfolding e0 e1 e2 e3 by simp_all
  note tenths = w_tenth(1) [OF digits(5)] w_tenth(1) [OF digits(6)] w_tenth(2) [OF digits(7)] w_tenth(1) [OF digits(8)] w_tenth(3)
  have top: "e3 div 10 < 10" "e3 div 10 = n div 10000" "e3 mod 10 = n div 1000 mod 10"
    using digits(4) q(2) by (simp_all flip: div_mult2_eq add: less_mult_imp_div_less)
  have zero: "(of_nat e1 :: u32w) = 0 \<longleftrightarrow> e1 = 0" "(of_nat e2 :: u32w) = 0 \<longleftrightarrow> e2 = 0" "(of_nat d3 :: u32w) = 0 \<longleftrightarrow> d3 = 0"
    "(of_nat e3 :: u32w) = 0 \<longleftrightarrow> e3 = 0" "(of_nat (e3 div 10) :: u32w) = 0 \<longleftrightarrow> e3 div 10 = 0"
    using digits(6-8) top(1) q(2) w_zero [of e1] w_zero [of e2] w_zero [of d3] w_zero [of e3] w_zero [of "e3 div 10"]
    by (simp_all add: d)
  have dec: "ucast (of_nat (e mod 10) + 48 :: u32w) = decimal (e mod 10)" "ucast (of_nat (e3 div 10) + 48 :: u32w) = decimal (e3 div 10)" for e
    using w_decimal [of "e mod 10"] w_decimal [OF top(1)] by simp_all
  show "put_dec_full q = map decimal [n mod 10, n div 10 mod 10, n div 100 mod 10, n div 1000 mod 10, n div 10000]"
    unfolding put_dec_full_def Let_def hex sums tenths dec using digits(1-3) top by simp
  show "put_dec_trunc q = decimal (n mod 10) #
       (if n div 10 = 0 then []
        else decimal (n div 10 mod 10) #
          (if n div 100 = 0 then []
           else decimal (n div 100 mod 10) #
             (if n div 1000 = 0 then []
              else decimal (n div 1000 mod 10) # (if n div 10000 = 0 then [] else [decimal (n div 10000)]))))"
    unfolding put_dec_trunc_def Let_def hex sums tenths dec zero using digits(1-4,9,10) top by auto
qed

lemma put_dec_trunc_digits:
  assumes "unat q < 100000"
  shows "put_dec_trunc q = map decimal (lsd 10 (unat q))"
proof -
  let ?n = "unat q"
  have "?n div 10000 < 10" using assms by (simp add: less_mult_imp_div_less)
  then have "?n div 10000 mod 10 = ?n div 10000" "?n div 10000 div 10 = 0" by simp_all
  then show ?thesis
    unfolding put_dec_words(2) [OF assms] lsd_rec [of ?n] lsd_rec [of "?n div 10"] lsd_rec [of "?n div 10 div 10"]
      lsd_rec [of "?n div 10 div 10 div 10"] lsd_rec [of "?n div 10 div 10 div 10 div 10"]
    by (simp flip: div_mult2_eq)
qed

lemma lsd_snoc: "0 < m \<Longrightarrow> d < 10 \<Longrightarrow> lsd 10 (m * 10 + d) = d # lsd 10 m"
  by (subst lsd.simps) simp

lemma lsd_five:
  assumes "0 < m" "d0 < 10" "d1 < 10" "d2 < 10" "d3 < 10" "d4 < 10"
    and "n = a * 10 + d0" "a = b * 10 + d1" "b = c * 10 + d2" "c = d4 * 10 + d3"
  shows "lsd 10 (m * 100000 + n) = [d0, d1, d2, d3, d4] @ lsd 10 m"
proof -
  have n: "m * 100000 + n = ((((m * 10 + d4) * 10 + d3) * 10 + d2) * 10 + d1) * 10 + d0" using assms(7-10) by simp
  have "lsd 10 ((((m * 10 + d4) * 10 + d3) * 10 + d2) * 10 + d1) = [d1, d2, d3, d4] @ lsd 10 m"
    using assms(1-6) lsd_snoc [of m d4] lsd_snoc [of "m * 10 + d4" d3] lsd_snoc [of "(m * 10 + d4) * 10 + d3" d2]
      lsd_snoc [of "((m * 10 + d4) * 10 + d3) * 10 + d2" d1] by simp
  then show ?thesis unfolding n using assms(1,2) lsd_snoc [of "(((m * 10 + d4) * 10 + d3) * 10 + d2) * 10 + d1" d0] by simp
qed

lemma put_dec_full_digits:
  assumes "unat q < 100000" "0 < m"
  shows "put_dec_full q @ map decimal (lsd 10 m) = map decimal (lsd 10 (m * 100000 + unat q))"
proof -
  let ?n = "unat q"
  have d: "?n div 100 = ?n div 10 div 10" "?n div 1000 = ?n div 100 div 10" "?n div 10000 = ?n div 1000 div 10"
    by (simp_all flip: div_mult2_eq)
  have "?n div 10000 < 10" using assms(1) by (simp add: less_mult_imp_div_less)
  then have "lsd 10 (m * 100000 + ?n) = [?n mod 10, ?n div 10 mod 10, ?n div 100 mod 10, ?n div 1000 mod 10, ?n div 10000] @ lsd 10 m"
    using assms(2) by (intro lsd_five [of _ _ _ _ _ _ _ "?n div 10" "?n div 100" "?n div 1000"]) (simp_all add: d)
  then show ?thesis unfolding put_dec_words(1) [OF assms(1)] by simp
qed

lemma put_dec_digits: "put_dec num = Some (map decimal (lsd 10 (unat num)))"
proof (induction num rule: put_dec.induct)
  case (1 num)
  show ?case
  proof (cases "num < 100000")
    case True
    then have "unat num < 100000" by (simp add: word_less_nat_alt)
    then have "unat (ucast num :: u32w) = unat num" by (simp add: unsigned_ucast_eq take_bit_nat_eq_self)
    then show ?thesis using True put_dec_trunc_digits [of "ucast num"] \<open>unat num < 100000\<close> by (subst put_dec.simps) simp
  next
    case False
    then have big: "100000 \<le> unat num" by (simp add: word_less_nat_alt)
    obtain q r where qr: "do_div num 100000 = Some (q, r)" "unat q = unat num div 100000" "unat r = unat num mod 100000"
      using do_div_value [of 100000 num] by auto
    have "0 < unat q" "unat r < 100000" using big qr(2,3) by (simp_all add: div_greater_zero_iff)
    then have "put_dec_full r @ map decimal (lsd 10 (unat q)) = map decimal (lsd 10 (unat num))"
      using put_dec_full_digits [of r "unat q"] qr(2,3) by simp
    then show ?thesis using False qr(1) 1 [OF False qr(1) refl] by (subst put_dec.simps) simp
  qed
qed

section \<open>Parsing numbers\<close>

definition u64 :: "int \<Rightarrow> int" where
  "u64 v = v mod 18446744073709551616"

definition isxdigit :: "u8 \<Rightarrow> bool" where
  "isxdigit c \<longleftrightarrow> 48 \<le> c \<and> c \<le> 57 \<or> 65 \<le> c \<and> c \<le> 70 \<or> 97 \<le> c \<and> c \<le> 102"

definition digit_value :: "u8 \<Rightarrow> int" where
  "digit_value c = (if 48 \<le> c \<and> c \<le> 57 then uint c - 48 else (if 97 \<le> c \<and> c \<le> 122 then uint c - 32 else uint c) - 65 + 10)"

text \<open>The loop over the digits; \<open>wrap\<close> is the wrap-around of the result type.\<close>

primrec strtoul_digits :: "(int \<Rightarrow> int) \<Rightarrow> int \<Rightarrow> int \<Rightarrow> cstr \<Rightarrow> int \<times> cstr" where
  "strtoul_digits wrap base result [] = (result, [])"
| "strtoul_digits wrap base result (c # cs) =
     (if isxdigit c \<and> digit_value c < base then strtoul_digits wrap base (wrap (wrap (result * base) + digit_value c)) cs
      else (result, c # cs))"

text \<open>The prefix of the number and its base: \<^verbatim>\<open>0x\<close> switches to base 16 whatever the base.\<close>

definition number_base :: "cstr \<Rightarrow> int \<Rightarrow> cstr \<times> int" where
  "number_base cp base =
     (let (cp, base) =
        (case cp of
           c # cs \<Rightarrow>
             if c = 48 then
               (let (cs, base) = (case cs of x # y # _ \<Rightarrow> if x = 120 \<and> isxdigit y then (tl cs, 16) else (cs, base) | _ \<Rightarrow> (cs, base))
                in (cs, if base = 0 then 8 else base))
             else (c # cs, base)
         | [] \<Rightarrow> ([], base))
      in (cp, if base = 0 then 10 else base))"

text \<open>The value and the rest of the string.\<close>

definition simple_strtoul :: "cstr \<Rightarrow> int \<Rightarrow> int \<times> cstr" where
  "simple_strtoul cp base = (let (cp, base) = number_base cp base in strtoul_digits u32 base 0 cp)"

definition simple_strtol :: "cstr \<Rightarrow> int \<Rightarrow> int \<times> cstr" where
  "simple_strtol cp base =
     (case cp of
        c # cs \<Rightarrow> if c = 45 then (let (v, e) = simple_strtoul cs base in (s32 (- v), e)) else (let (v, e) = simple_strtoul cp base in (s32 v, e))
      | [] \<Rightarrow> (let (v, e) = simple_strtoul cp base in (s32 v, e)))"

definition simple_strtoull :: "cstr \<Rightarrow> int \<Rightarrow> int \<times> cstr" where
  "simple_strtoull cp base = (let (cp, base) = number_base cp base in strtoul_digits u64 base 0 cp)"

text \<open>\<^verbatim>\<open>ustrtoul\<close>: a number with a binary unit.\<close>

definition ustrtoul :: "cstr \<Rightarrow> int \<Rightarrow> int \<times> cstr" where
  "ustrtoul cp base =
     (let (result, e) = simple_strtoul cp base
      in case e of
           c # cs \<Rightarrow>
             (let result = (if c = 71 then u32 (result * 1024) else result);
                result = (if c = 71 \<or> c = 77 then u32 (result * 1024) else result)
              in if c \<in> {71, 77, 75, 107} then
                   (s32 (u32 (result * 1024)), case cs of i # r \<Rightarrow> if i = 105 then (case r of b # r' \<Rightarrow> if b = 66 then r' else r | [] \<Rightarrow> r) else e | [] \<Rightarrow> e)
                 else (s32 result, e))
         | [] \<Rightarrow> (s32 result, e))"

lemma strtoul_append:
  assumes "\<forall>c\<in>set xs. isxdigit c \<and> digit_value c < base"
  shows "strtoul_digits wrap base r (xs @ ys) = strtoul_digits wrap base (fst (strtoul_digits wrap base r xs)) ys"
  using assms by (induction xs arbitrary: r) auto

text \<open>The digits of a number are read back.\<close>

lemma lsd_less: "2 \<le> base \<Longrightarrow> d \<in> set (lsd base n) \<Longrightarrow> d < base"
  by (induction base n rule: lsd.induct) (subst (asm) lsd.simps, auto split: if_splits)

lemma strtoul_lsd:
  assumes "2 \<le> base" "\<And>d. d < base \<Longrightarrow> isxdigit (ch d) \<and> digit_value (ch d) = int d" "\<And>v. 0 \<le> v \<Longrightarrow> v \<le> int n \<Longrightarrow> wrap v = v"
  shows "strtoul_digits wrap (int base) 0 (map ch (rev (lsd base n))) = (int n, [])"
  using assms
proof (induction base n rule: lsd.induct)
  case (1 base n)
  show ?case
  proof (cases "n < base")
    case True
    then have "lsd base n = [n]" by (subst lsd.simps) simp
    moreover have "wrap 0 = 0" "wrap (int n) = int n" using "1.prems"(3) by simp_all
    ultimately show ?thesis using True "1.prems"(2) [of n] by simp
  next
    case False
    then have step: "lsd base n = n mod base # lsd base (n div base)" using "1.prems"(1) by (subst lsd.simps) simp
    have n: "n div base * base + n mod base = n" by simp
    have div: "int (n div base) * int base \<le> int n" "int (n div base) \<le> int n"
      using n "1.prems"(1) by (simp_all flip: of_nat_mult)
    have "strtoul_digits wrap (int base) 0 (map ch (rev (lsd base (n div base)))) = (int (n div base), [])"
      using 1 False div(2) by simp
    moreover have "\<forall>c\<in>set (map ch (rev (lsd base (n div base)))). isxdigit c \<and> digit_value c < int base"
      using "1.prems"(1,2) lsd_less [of base _ "n div base"] by fastforce
    moreover have "wrap (int (n div base) * int base) = int (n div base) * int base" using "1.prems"(3) div(1) by simp
    moreover have "wrap (int (n div base) * int base + int (n mod base)) = int n"
      using "1.prems"(3) [of "int n"] n by (metis of_nat_0_le_iff of_nat_add of_nat_mult order_refl)
    ultimately show ?thesis
      using "1.prems"(1) "1.prems"(2) [of "n mod base"] by (simp add: step strtoul_append)
  qed
qed

section \<open>Properties\<close>

text \<open>C34: the shift-and-subtract division of a 64-bit number ends for every divisor but zero and gives the quotient, with
  no intermediate overflow that would show.\<close>

theorem lldiv_exact:
  assumes "divisor \<noteq> 0"
  shows "lldiv dividend divisor = Some (dividend div ucast divisor)"
proof -
  obtain q r where "do_div dividend divisor = Some (q, r)" "unat q = unat dividend div unat divisor"
    using do_div_value [OF assms, of dividend] by blast
  moreover have "unat (ucast divisor :: u64w) = unat divisor"
    using unsigned_less [of divisor, where ?'a = nat] by (simp add: unsigned_ucast_eq take_bit_nat_eq_self)
  ultimately show ?thesis by (simp add: lldiv_def word_unat_eq_iff unat_div)
qed

lemma lldiv_exact_witness: "lldiv 0x123456789abcdef0 1000 = Some (0x123456789abcdef0 div 1000)"
  using lldiv_exact [of 1000 "0x123456789abcdef0"] by simp

end
