(* ===== verification/Vsprintf.thy ===== *)
theory Vsprintf
  imports Numbers
begin

text \<open>
  Formatted output, \<^verbatim>\<open>lib/vsprintf.c\<close>.  What a function writes at its buffer pointer is the list it returns; the
  caller's buffer is taken to be long enough.  Widths and precisions are C integers, whose overflow is undefined.
  The arguments of \<^verbatim>\<open>va_arg\<close> are a list; reading one at another type is undefined.
\<close>

section \<open>Numbers\<close>

definition ZEROPAD :: u32w where "ZEROPAD = 1"
definition SIGN :: u32w where "SIGN = 2"
definition PLUS :: u32w where "PLUS = 4"
definition SPACE :: u32w where "SPACE = 8"
definition LEFT :: u32w where "LEFT = 16"
definition SMALL :: u32w where "SMALL = 32"
definition SPECIAL :: u32w where "SPECIAL = 64"

lemmas flag_defs = ZEROPAD_def SIGN_def PLUS_def SPACE_def LEFT_def SMALL_def SPECIAL_def

definition has :: "u32w \<Rightarrow> u32w \<Rightarrow> bool" where
  "has flags flag \<longleftrightarrow> flags AND flag \<noteq> 0"

definition digit_chars :: "u8 list" where
  "digit_chars = bytes ''0123456789ABCDEF''"

text \<open>The digits in base 8 or 16, the least significant one first; an index beyond the table is undefined.\<close>

function put_pow2 :: "int \<Rightarrow> u8 \<Rightarrow> u64w \<Rightarrow> u8 list option" where
  "put_pow2 base locase num =
     do {
       let i = unat ((ucast (ucast num :: u8) :: u32w) AND word_of_int (base - 1));
       if length digit_chars \<le> i then None
       else
         do {
           let c = digit_chars ! i OR locase;
           let num' = drop_bit (if base = 16 then 4 else 3) num;
           if num' = 0 then Some [c] else map_option ((#) c) (put_pow2 base locase num')
         }
     }"
  by pat_completeness auto
termination
proof (relation "measure (\<lambda>(base, locase, num). unat num)")
  fix base :: int and locase :: u8 and num :: u64w and i c num'
  assume a: "num' = drop_bit (if base = 16 then 4 else 3) num" "num' \<noteq> 0"
  then have "unat num \<noteq> 0" by (auto simp: unsigned_eq_0_iff)
  then show "((base, locase, num'), (base, locase, num)) \<in> measure (\<lambda>(base, locase, num). unat num)"
    using a(1) drop_unat [of 4 num] drop_unat [of 3 num] by simp
qed simp

declare put_pow2.simps [simp del]

text \<open>\<^verbatim>\<open>while (--size >= 0) *buf++ = c;\<close>\<close>

definition pad :: "u8 \<Rightarrow> int \<Rightarrow> (u8 list \<times> int) option" where
  "pad c size' =
     (let s = (if 0 < size' then -1 else size' - 1) in if in_s32 s then Some (replicate (nat size') c, s) else None)"

text \<open>The sign character, the magnitude and the width that is left.\<close>

definition split_sign :: "u32w \<Rightarrow> u64w \<Rightarrow> int \<Rightarrow> u8 list \<times> u64w \<times> int" where
  "split_sign type num size' =
     (if \<not> has type SIGN then ([], num, size')
      else if sint num < 0 then ([45], - num, size' - 1)
      else if has type PLUS then ([43], num, size' - 1)
      else if has type SPACE then ([32], num, size' - 1)
      else ([], num, size'))"

definition number :: "u64w \<Rightarrow> int \<Rightarrow> int \<Rightarrow> int \<Rightarrow> u32w \<Rightarrow> u8 list option" where
  "number num base size' precision type =
     do {
       let need_pfx = (has type SPECIAL \<and> base \<noteq> 10);
       let locase = (ucast (type AND SMALL) :: u8);
       let type = (if has type LEFT then type AND NOT ZEROPAD else type);
       let (sign, num, size') = split_sign type num size';
       let size' = (if need_pfx then size' - (if base = 16 then 2 else 1) else size');
       tmp \<leftarrow> (if num = 0 then Some [48] else if base \<noteq> 10 then put_pow2 base locase num else put_dec num);
       if 66 < length tmp \<or> \<not> in_s32 size' then None
       else
         do {
           let i = int (length tmp);
           let precision = (if precision < i then i else precision);
           let size' = size' - precision;
           if \<not> in_s32 size' then None
           else
             do {
               (lead, size') \<leftarrow> (if \<not> has type (ZEROPAD + LEFT) then pad 32 size' else Some ([], size'));
               (fill, size') \<leftarrow> (if \<not> has type LEFT then pad (if has type ZEROPAD then 48 else 32) size' else Some ([], size'));
               (trail, size') \<leftarrow> pad 32 size';
               Some (lead @ sign @ (if need_pfx then 48 # (if base = 16 then [88 OR locase] else []) else []) @ fill @
                 replicate (nat (precision - i)) 48 @ rev tmp @ trail)
             }
         }
     }"

section \<open>Strings and addresses\<close>

definition strnlen :: "cstr \<Rightarrow> int \<Rightarrow> int" where
  "strnlen s count = min (int (length s)) (u32 count)"

text \<open>Both loops decrement the width once more than they write.\<close>

definition string :: "cstr option \<Rightarrow> int \<Rightarrow> int \<Rightarrow> u32w \<Rightarrow> u8 list" where
  "string s field_width precision flags =
     (let s = (case s of None \<Rightarrow> bytes ''<NULL>'' | Some s \<Rightarrow> s);
        len = strnlen s precision;
        (lead, field_width) = (if has flags LEFT then ([], field_width)
          else (replicate (nat (field_width - len)) 32, min len field_width - 1));
        trail = replicate (nat (field_width - len)) 32
      in lead @ take (nat len) s @ trail)"

definition hex_asc :: "u8 list" where
  "hex_asc = bytes ''0123456789abcdef''"

definition pack_hex_byte :: "u8 \<Rightarrow> u8 list" where
  "pack_hex_byte b = [hex_asc ! unat (drop_bit 4 (b AND 0xf0)), hex_asc ! unat (b AND 0x0f)]"

text \<open>The loops over the bytes of an address; the last byte has no separator.\<close>

fun join_bytes :: "(u8 \<Rightarrow> u8 list) \<Rightarrow> u8 list \<Rightarrow> u8 list \<Rightarrow> u8 list" where
  "join_bytes f sep [] = []"
| "join_bytes f sep [b] = f b"
| "join_bytes f sep (b # bs) = f b @ sep @ join_bytes f sep bs"

definition mac_address_string :: "u8 list \<Rightarrow> int \<Rightarrow> int \<Rightarrow> u32w \<Rightarrow> u8 list option" where
  "mac_address_string addr field_width precision flags =
     (if length addr < 6 then None
      else Some (string (Some (join_bytes pack_hex_byte (if has flags SPECIAL then [] else [58]) (take 6 addr)))
        field_width precision (flags AND NOT SPECIAL)))"

fun byte_pairs :: "u8 list \<Rightarrow> (u8 \<times> u8) list" where
  "byte_pairs (a # b # bs) = (a, b) # byte_pairs bs"
| "byte_pairs bs = []"

fun join_pairs :: "u8 list \<Rightarrow> (u8 \<times> u8) list \<Rightarrow> u8 list" where
  "join_pairs sep [] = []"
| "join_pairs sep [(a, b)] = pack_hex_byte a @ pack_hex_byte b"
| "join_pairs sep ((a, b) # bs) = pack_hex_byte a @ pack_hex_byte b @ sep @ join_pairs sep bs"

definition ip6_addr_string :: "u8 list \<Rightarrow> int \<Rightarrow> int \<Rightarrow> u32w \<Rightarrow> u8 list option" where
  "ip6_addr_string addr field_width precision flags =
     (if length addr < 16 then None
      else Some (string (Some (join_pairs (if has flags SPECIAL then [] else [58]) (byte_pairs (take 16 addr))))
        field_width precision (flags AND NOT SPECIAL)))"

text \<open>The buffer of a number has room for three digits.\<close>

definition ip4_addr_string :: "u8 list \<Rightarrow> int \<Rightarrow> int \<Rightarrow> u32w \<Rightarrow> u8 list option" where
  "ip4_addr_string addr field_width precision flags =
     (if length addr < 4 \<or> (\<exists>b\<in>set (take 4 addr). 3 < length (put_dec_trunc (ucast b))) then None
      else Some (string (Some (join_bytes (\<lambda>b. rev (put_dec_trunc (ucast b))) [46] (take 4 addr)))
        field_width precision (flags AND NOT SPECIAL)))"

text \<open>A pointer is its value and the bytes it points to; \<open>fmt\<close> is the rest of the format.\<close>

definition pointer :: "cstr \<Rightarrow> u32w \<Rightarrow> u8 list \<Rightarrow> int \<Rightarrow> int \<Rightarrow> u32w \<Rightarrow> u8 list option" where
  "pointer fmt ptr target field_width precision flags =
     (let c = (case fmt of c # _ \<Rightarrow> c | [] \<Rightarrow> 0); d = (case fmt of _ # d # _ \<Rightarrow> d | _ \<Rightarrow> 0)
      in if ptr = 0 then Some (string (Some (bytes ''(null)'')) field_width precision flags)
         else if c = 109 then mac_address_string target field_width precision (flags OR SPECIAL)
         else if c = 77 then mac_address_string target field_width precision flags
         else
           (let flags = (if c = 105 then flags OR SPECIAL else flags)
            in if c \<in> {105, 73} \<and> d = 54 then ip6_addr_string target field_width precision flags
               else if c \<in> {105, 73} \<and> d = 52 then ip4_addr_string target field_width precision flags
               else
                 (let flags = (if c \<in> {105, 73} then flags AND NOT SPECIAL else flags);
                    flags = flags OR SMALL
                  in if field_width = -1 then number (ucast ptr) 16 8 precision (flags OR ZEROPAD)
                     else number (ucast ptr) 16 field_width precision flags)))"

section \<open>The format\<close>

text \<open>An argument: a 32-bit number (\<^verbatim>\<open>int\<close>, \<^verbatim>\<open>long\<close>, \<^verbatim>\<open>size_t\<close>, \<^verbatim>\<open>ptrdiff_t\<close>), a 64-bit number, a string, or a pointer with the
  bytes it points to.\<close>

datatype va = Va_int u32w | Va_long_long u64w | Va_string "cstr option" | Va_pointer u32w "u8 list"

definition is_digit :: "u8 \<Rightarrow> bool" where
  "is_digit c \<longleftrightarrow> 48 \<le> c \<and> c \<le> 57"

primrec skip_atoi :: "int \<Rightarrow> cstr \<Rightarrow> (int \<times> cstr) option" where
  "skip_atoi i [] = Some (i, [])"
| "skip_atoi i (c # cs) =
     (if is_digit c then
        (if in_s32 (i * 10 + uint c) then skip_atoi (i * 10 + uint c - 48) cs else None)
      else Some (i, c # cs))"

primrec format_flags :: "u32w \<Rightarrow> cstr \<Rightarrow> u32w \<times> cstr" where
  "format_flags flags [] = (flags, [])"
| "format_flags flags (c # cs) =
     (if c = 45 then format_flags (flags OR LEFT) cs
      else if c = 43 then format_flags (flags OR PLUS) cs
      else if c = 32 then format_flags (flags OR SPACE) cs
      else if c = 35 then format_flags (flags OR SPECIAL) cs
      else if c = 48 then format_flags (flags OR ZEROPAD) cs
      else (flags, c # cs))"

fun va_int :: "va list \<Rightarrow> (u32w \<times> va list) option" where
  "va_int (Va_int n # args) = Some (n, args)"
| "va_int _ = None"

definition format_width :: "u32w \<Rightarrow> cstr \<Rightarrow> va list \<Rightarrow> (int \<times> u32w \<times> cstr \<times> va list) option" where
  "format_width flags fmt args =
     (case fmt of
        c # cs \<Rightarrow>
          if is_digit c then do { (w, fmt) \<leftarrow> skip_atoi 0 fmt; Some (w, flags, fmt, args) }
          else if c = 42 then
            do {
              (n, args) \<leftarrow> va_int args;
              let w = sint n;
              if w < 0 then (if in_s32 (- w) then Some (- w, flags OR LEFT, cs, args) else None) else Some (w, flags, cs, args)
            }
          else Some (-1, flags, fmt, args)
      | [] \<Rightarrow> Some (-1, flags, fmt, args))"

definition format_precision :: "cstr \<Rightarrow> va list \<Rightarrow> (int \<times> cstr \<times> va list) option" where
  "format_precision fmt args =
     (case fmt of
        c # cs \<Rightarrow>
          if c = 46 then
            do {
              (p, fmt, args) \<leftarrow>
                (case cs of
                   d # ds \<Rightarrow>
                     if is_digit d then do { (p, fmt) \<leftarrow> skip_atoi 0 cs; Some (p, fmt, args) }
                     else if d = 42 then do { (n, args) \<leftarrow> va_int args; Some (sint n, ds, args) }
                     else Some (-1, cs, args)
                 | [] \<Rightarrow> Some (-1, cs, args));
              Some (if p < 0 then 0 else p, fmt, args)
            }
          else Some (-1, fmt, args)
      | [] \<Rightarrow> Some (-1, fmt, args))"

text \<open>The qualifier, 0 when there is none; \<^verbatim>\<open>ll\<close> is \<^verbatim>\<open>L\<close>.\<close>

definition format_qualifier :: "cstr \<Rightarrow> u8 \<times> cstr" where
  "format_qualifier fmt =
     (case fmt of
        c # cs \<Rightarrow>
          if c \<in> {104, 108, 76, 90, 122, 116} then
            (if c = 108 \<and> cs \<noteq> [] \<and> hd cs = 108 then (76, tl cs) else (c, cs))
          else (0, fmt)
      | [] \<Rightarrow> (0, fmt))"

text \<open>The number that is printed: sign extended or not, from the type of the qualifier.\<close>

fun va_number :: "u8 \<Rightarrow> u32w \<Rightarrow> va list \<Rightarrow> (u64w \<times> va list) option" where
  "va_number qualifier flags (Va_long_long n # args) = (if qualifier = 76 then Some (n, args) else None)"
| "va_number qualifier flags (Va_int n # args) =
     (if qualifier = 76 then None
      else if qualifier = 90 \<or> qualifier = 122 then Some (ucast n, args)
      else if qualifier = 116 then Some (scast n, args)
      else if qualifier = 104 then Some (if has flags SIGN then scast (ucast n :: u16) else ucast (ucast n :: u16), args)
      else Some (if has flags SIGN then scast n else ucast n, args))"
| "va_number qualifier flags _ = None"

definition isalnum :: "u8 \<Rightarrow> bool" where
  "isalnum c \<longleftrightarrow> 48 \<le> c \<and> c \<le> 57 \<or> 65 \<le> c \<and> c \<le> 90 \<or> 97 \<le> c \<and> c \<le> 122 \<or> 192 \<le> c \<and> c \<noteq> 215 \<and> c \<noteq> 247"

text \<open>A conversion at its letter, with the output so far: the new output, the rest of the format, the arguments left and
  the number stored by \<^verbatim>\<open>%n\<close>, with its address.\<close>

definition convert :: "u8 list \<Rightarrow> u32w \<Rightarrow> int \<Rightarrow> int \<Rightarrow> u8 \<Rightarrow> cstr \<Rightarrow> va list \<Rightarrow> (u8 list \<times> cstr \<times> va list \<times> (u32w \<times> nat) list) option" where
  "convert out flags field_width precision qualifier fmt args =
     (case fmt of
        [] \<Rightarrow> Some (out @ [37], [], args, [])
      | c # cs \<Rightarrow>
          if c = 99 then
            do {
              (n, args) \<leftarrow> va_int args;
              let (lead, trail) = (if has flags LEFT then (0, nat (field_width - 1)) else (nat (field_width - 1), 0));
              Some (out @ replicate lead 32 @ [ucast n] @ replicate trail 32, cs, args, [])
            }
          else if c = 115 then
            (case args of
               Va_string s # args \<Rightarrow> Some (out @ string s field_width precision flags, cs, args, [])
             | _ \<Rightarrow> None)
          else if c = 112 then
            (case args of
               Va_pointer p target # args \<Rightarrow>
                 do { s \<leftarrow> pointer cs p target field_width precision flags; Some (out @ s, dropWhile isalnum cs, args, []) }
             | _ \<Rightarrow> None)
          else if c = 110 then
            (case args of Va_pointer p _ # args \<Rightarrow> Some (out, cs, args, [(p, length out)]) | _ \<Rightarrow> None)
          else if c = 37 then Some (out @ [37], cs, args, [])
          else if c \<in> {111, 120, 88, 100, 105, 117} then
            do {
              let flags = (if c = 120 then flags OR SMALL else if c = 100 \<or> c = 105 then flags OR SIGN else flags);
              let base = (if c = 111 then 8 else if c = 120 \<or> c = 88 then 16 else 10);
              (num, args) \<leftarrow> va_number qualifier flags args;
              s \<leftarrow> number num base field_width precision flags;
              Some (out @ s, cs, args, [])
            }
          else Some (out @ [37, c], cs, args, []))"

definition conversion :: "u8 list \<Rightarrow> cstr \<Rightarrow> va list \<Rightarrow> (u8 list \<times> cstr \<times> va list \<times> (u32w \<times> nat) list) option" where
  "conversion out fmt args =
     do {
       let (flags, fmt) = format_flags 0 fmt;
       (field_width, flags, fmt, args) \<leftarrow> format_width flags fmt args;
       (precision, fmt, args) \<leftarrow> format_precision fmt args;
       let (qualifier, fmt) = format_qualifier fmt;
       convert out flags field_width precision qualifier fmt args
     }"

lemma format_flags_length: "length (snd (format_flags flags fmt)) \<le> length fmt"
  by (induction fmt arbitrary: flags) (auto simp: le_SucI)

lemma skip_atoi_length: "skip_atoi i fmt = Some (w, fmt') \<Longrightarrow> length fmt' \<le> length fmt"
  by (induction fmt arbitrary: i) (auto split: if_splits intro: le_SucI)

lemma conversion_length:
  assumes "conversion out fmt args = Some (out', fmt', args', ns)"
  shows "length fmt' \<le> length fmt"
proof -
  obtain flags f1 where f1: "format_flags 0 fmt = (flags, f1)" by fastforce
  then have l1: "length f1 \<le> length fmt" using format_flags_length [of 0 fmt] by simp
  obtain w flags' f2 args2 where f2: "format_width flags f1 args = Some (w, flags', f2, args2)"
    using assms f1 by (auto simp: conversion_def bind_eq_Some_conv)
  have l2: "length f2 \<le> length f1" using f2
    by (auto simp: format_width_def bind_eq_Some_conv Let_def split: list.splits if_splits dest!: skip_atoi_length)
  obtain p f3 args3 where f3: "format_precision f2 args2 = Some (p, f3, args3)"
    using assms f1 f2 by (auto simp: conversion_def bind_eq_Some_conv)
  have l3: "length f3 \<le> length f2" using f3
    by (auto simp: format_precision_def bind_eq_Some_conv split: list.splits if_splits dest!: skip_atoi_length)
  obtain ql f4 where f4: "format_qualifier f3 = (ql, f4)" by fastforce
  then have l4: "length f4 \<le> length f3" by (auto simp: format_qualifier_def split: list.splits if_splits)
  have "convert out flags' w p ql f4 args3 = Some (out', fmt', args', ns)"
    using assms f1 f2 f3 f4 by (simp add: conversion_def)
  then have "length fmt' \<le> length f4"
    by (auto simp: convert_def bind_eq_Some_conv Let_def split: list.splits if_splits va.splits intro: le_SucI order_trans [OF length_dropWhile_le])
  then show ?thesis using l1 l2 l3 l4 by simp
qed

text \<open>\<open>vsprintf_from\<close> also collects the stores of \<^verbatim>\<open>%n\<close>.\<close>

function vsprintf_from :: "u8 list \<Rightarrow> cstr \<Rightarrow> va list \<Rightarrow> (u8 list \<times> (u32w \<times> nat) list) option" where
  "vsprintf_from out [] args = Some (out, [])"
| "vsprintf_from out (c # fmt) args =
     (if c \<noteq> 37 then vsprintf_from (out @ [c]) fmt args
      else
        do {
          (out, fmt, args, ns) \<leftarrow> conversion out fmt args;
          (out, ns') \<leftarrow> vsprintf_from out fmt args;
          Some (out, ns @ ns')
        })"
  by pat_completeness auto
termination
  by (relation "measure (\<lambda>(out, fmt, args). length fmt)") (auto dest!: conversion_length)

definition vsprintf :: "cstr \<Rightarrow> va list \<Rightarrow> (u8 list \<times> (u32w \<times> nat) list) option" where
  "vsprintf fmt args = vsprintf_from [] fmt args"

text \<open>\<^verbatim>\<open>sprintf\<close>: the text that is placed in the buffer.\<close>

definition sprintf :: "cstr \<Rightarrow> va list \<Rightarrow> cstr option" where
  "sprintf fmt args = map_option fst (vsprintf fmt args)"

section \<open>The digits of a number\<close>

definition digit_char :: "u8 \<Rightarrow> nat \<Rightarrow> u8" where
  "digit_char locase d = digit_chars ! d OR locase"

definition case_of :: "u32w \<Rightarrow> u8" where
  "case_of flags = (if has flags SMALL then 32 else 0)"

lemma and_flag: "(x :: u32w) AND 2 ^ k = (if bit x k then 2 ^ k else 0)"
  by (rule bit_word_eqI) (auto simp: bit_simps)

lemma locase_of: "ucast (flags AND SMALL) = case_of flags"
  using and_flag [of flags 5] by (auto simp: case_of_def has_def SMALL_def)

lemma digit_table:
  "\<forall>locase\<in>{0, 32}. \<forall>d\<in>set [0..<16]. isxdigit (digit_char locase d) \<and> digit_value (digit_char locase d) = int d"
  "\<forall>locase\<in>{0, 32}. \<forall>d\<in>set [0..<10]. digit_char locase d = decimal d"
  by code_simp+

lemma digit_char_value: "d < 16 \<Longrightarrow> isxdigit (digit_char (case_of flags) d) \<and> digit_value (digit_char (case_of flags) d) = int d"
  using digit_table(1) by (auto simp: case_of_def)

lemma digit_char_decimal: "d < 10 \<Longrightarrow> digit_char (case_of flags) d = decimal d"
  using digit_table(2) by (auto simp: case_of_def)

lemma lsd_small: "n < base \<Longrightarrow> lsd base n = [n]"
  by (subst lsd.simps) simp

lemma lsd_bounded: "2 \<le> base \<Longrightarrow> n < base ^ Suc k \<Longrightarrow> length (lsd base n) \<le> Suc k"
proof (induction k arbitrary: n)
  case 0
  then show ?case by (subst lsd.simps) simp
next
  case (Suc k)
  have "n div base < base ^ Suc k" using Suc.prems by (simp add: less_mult_imp_div_less mult.commute)
  then show ?case using Suc.IH [of "n div base"] Suc.prems(1) by (subst lsd.simps) simp
qed

lemma low_index: "k \<le> 8 \<Longrightarrow> unat ((ucast (ucast (num :: u64w) :: u8) :: u32w) AND mask k) = unat num mod 2 ^ k"
  by (simp add: take_bit_eq_mask [symmetric] unsigned_take_bit_eq unsigned_ucast_eq take_bit_take_bit min_def flip: take_bit_eq_mod)

lemma put_pow2_digits:
  assumes "base = 8 \<or> base = 16"
  shows "put_pow2 base locase num = Some (map (digit_char locase) (lsd (nat base) (unat num)))"
proof (induction num rule: measure_induct_rule [of unat])
  case (less num)
  obtain k where k: "k = (if base = 16 then 4 else 3)" "nat base = 2 ^ k" "word_of_int (base - 1) = (mask k :: u32w)" "k \<le> 8" "0 < k"
    using assms by (auto simp: mask_eq_exp_minus_1)
  let ?i = "unat num mod 2 ^ k"
  have idx: "unat ((ucast (ucast num :: u8) :: u32w) AND (word_of_int base - 1)) = ?i" using low_index [OF k(4), of num] k(3) by simp
  have "?i < 16" using k(1) by (simp split: if_splits)
  moreover have "length digit_chars = 16" by (simp add: digit_chars_def bytes_def)
  ultimately have step: "put_pow2 base locase num = (let num' = drop_bit k num in
      if num' = 0 then Some [digit_char locase ?i] else map_option ((#) (digit_char locase ?i)) (put_pow2 base locase num'))"
    by (subst put_pow2.simps) (simp add: idx digit_char_def Let_def flip: k(1))
  have drop: "unat (drop_bit k num) = unat num div 2 ^ k" by (rule drop_unat)
  have two: "2 \<le> (2 :: nat) ^ k" using k(5) by (cases k) simp_all
  show ?case
  proof (cases "drop_bit k num = 0")
    case True
    then have "unat num < 2 ^ k" using drop by (simp add: div_eq_0_iff)
    then show ?thesis unfolding k(2) using True step by (subst lsd.simps) simp
  next
    case False
    then have big: "2 ^ k \<le> unat num" using drop by (metis div_less not_less unsigned_eq_0_iff)
    then have "unat num div 2 ^ k < unat num" using two by (intro div_less_dividend) linarith+
    then have "put_pow2 base locase (drop_bit k num) = Some (map (digit_char locase) (lsd (nat base) (unat num div 2 ^ k)))"
      using less [of "drop_bit k num"] drop by simp
    then show ?thesis unfolding k(2) using False step big two k(2) by (subst lsd.simps) simp
  qed
qed

text \<open>The digits that \<^verbatim>\<open>number\<close> prints, before they are reversed.\<close>

lemma number_digits:
  assumes "base \<in> {8, 10, 16}"
  shows "(if num = 0 then Some [48] else if base \<noteq> 10 then put_pow2 base (case_of flags) num else put_dec num) =
      Some (map (digit_char (case_of flags)) (lsd (nat base) (unat num)))"
    "length (lsd (nat base) (unat num)) \<le> 22"
proof -
  have zero: "lsd (nat base) 0 = [0]" "digit_char (case_of flags) 0 = 48"
    using assms digit_char_decimal [of 0 flags] by (auto simp: decimal_def lsd_small)
  have "map decimal (lsd 10 (unat num)) = map (digit_char (case_of flags)) (lsd 10 (unat num))"
    using lsd_less [of 10 _ "unat num"] digit_char_decimal by simp
  then show "(if num = 0 then Some [48] else if base \<noteq> 10 then put_pow2 base (case_of flags) num else put_dec num) =
      Some (map (digit_char (case_of flags)) (lsd (nat base) (unat num)))"
    using assms put_pow2_digits [of base "case_of flags" num] put_dec_digits [of num] zero by auto
  have n: "unat num < 2 ^ 64" using unsigned_less [of num, where ?'a = nat] by simp
  have "(8 :: nat) ^ Suc 21 \<le> nat base ^ Suc 21" using assms by (intro power_mono) auto
  then have "unat num < nat base ^ Suc 21" using n by simp
  then show "length (lsd (nat base) (unat num)) \<le> 22" using lsd_bounded [of "nat base" "unat num" 21] assms by auto
qed

section \<open>The layout of a number\<close>

definition sign_chars :: "u32w \<Rightarrow> u64w \<Rightarrow> u8 list" where
  "sign_chars flags num =
     (if \<not> has flags SIGN then []
      else if sint num < 0 then [45] else if has flags PLUS then [43] else if has flags SPACE then [32] else [])"

definition magnitude :: "u32w \<Rightarrow> u64w \<Rightarrow> nat" where
  "magnitude flags num = (if has flags SIGN then nat \<bar>sint num\<bar> else unat num)"

definition prefix_chars :: "int \<Rightarrow> u32w \<Rightarrow> u8 list" where
  "prefix_chars base flags =
     (if has flags SPECIAL \<and> base \<noteq> 10 then 48 # (if base = 16 then [88 OR case_of flags] else []) else [])"

definition digit_text :: "int \<Rightarrow> u32w \<Rightarrow> nat \<Rightarrow> u8 list" where
  "digit_text base flags n = map (digit_char (case_of flags)) (rev (lsd (nat base) n))"

definition layout :: "u32w \<Rightarrow> int \<Rightarrow> int \<Rightarrow> u8 list \<Rightarrow> u8 list \<Rightarrow> u8 list" where
  "layout flags w p front ds =
     (let body = replicate (nat p - length ds) 48 @ ds; k = nat (w - int (length front + length body))
      in if has flags LEFT then front @ body @ replicate k 32
         else if has flags ZEROPAD then front @ replicate k 48 @ body
         else replicate k 32 @ front @ body)"

lemma sint_u64: "sint (x :: u64w) = (if uint x < 2 ^ 63 then uint x else uint x - 2 ^ 64)"
proof -
  have t: "take_bit (Suc 63) (uint x) = uint x" by (rule take_bit_int_eq_self) (use unsigned_less [of x, where ?'a = int] in simp_all)
  have b: "bit (uint x) 63 \<longleftrightarrow> 2 ^ 63 \<le> uint x"
  proof (cases "bit (uint x) 63")
    case True
    then have "uint x = 2 ^ 63 + take_bit 63 (uint x)" using take_bit_Suc_from_most [of 63 "uint x"] t by simp
    then have "2 ^ 63 \<le> uint x" using take_bit_nonnegative [of 63 "uint x"] by linarith
    then show ?thesis using True by simp
  next
    case False
    then show ?thesis using take_bit_Suc_from_most [of 63 "uint x"] take_bit_int_less_exp [of 63 "uint x"] t by simp
  qed
  have "sint x = signed_take_bit 63 (uint x)" by (simp add: sint_uint)
  then show ?thesis using b t by (simp add: signed_take_bit_eq_take_bit_minus)
qed

lemma split_sign_value:
  assumes "\<And>f. f \<in> {SIGN, PLUS, SPACE} \<Longrightarrow> has type f = has flags f"
  shows "\<exists>num'. split_sign type num w = (sign_chars flags num, num', w - int (length (sign_chars flags num))) \<and>
    unat num' = magnitude flags num"
proof -
  have neg: "unat (- num) = nat \<bar>sint num\<bar>" if "sint num < 0"
  proof -
    have u: "2 ^ 63 \<le> uint num" "uint num < 2 ^ 64" "sint num = uint num - 2 ^ 64"
      using that sint_u64 [of num] unsigned_less [of num, where ?'a = int] by (auto split: if_splits)
    have "uint (- num) = (2 ^ 64 - uint num) mod 2 ^ 64" by (simp add: uint_word_ariths)
    also have "\<dots> = 2 ^ 64 - uint num" using u(1,2) by (intro mod_pos_pos_trivial) simp_all
    finally have "int (unat (- num)) = int (nat \<bar>sint num\<bar>)" using u by simp
    then show ?thesis by (simp only: of_nat_eq_iff)
  qed
  have pos: "unat num = nat \<bar>sint num\<bar>" if "\<not> sint num < 0"
  proof -
    have "sint num = uint num" using that sint_u64 [of num] unsigned_less [of num, where ?'a = int] by (auto split: if_splits)
    then have "int (unat num) = int (nat \<bar>sint num\<bar>)" by simp
    then show ?thesis by (simp only: of_nat_eq_iff)
  qed
  show ?thesis using assms neg pos by (auto simp: split_sign_def sign_chars_def magnitude_def)
qed

lemma has_bit: "has f ZEROPAD \<longleftrightarrow> bit f 0" "has f SIGN \<longleftrightarrow> bit f 1" "has f PLUS \<longleftrightarrow> bit f 2" "has f SPACE \<longleftrightarrow> bit f 3"
    "has f LEFT \<longleftrightarrow> bit f 4" "has f SMALL \<longleftrightarrow> bit f 5" "has f SPECIAL \<longleftrightarrow> bit f 6"
  using and_flag [of f 0] and_flag [of f 1] and_flag [of f 2] and_flag [of f 3] and_flag [of f 4] and_flag [of f 5] and_flag [of f 6]
  by (simp_all add: has_def flag_defs)

lemma pow_bit: "m < 32 \<Longrightarrow> bit (2 ^ m :: u32w) k \<longleftrightarrow> k = m"
  by (auto simp: bit_simps)

lemma flag_bit: "bit ZEROPAD k \<longleftrightarrow> k = 0" "bit SIGN k \<longleftrightarrow> k = 1" "bit PLUS k \<longleftrightarrow> k = 2" "bit SPACE k \<longleftrightarrow> k = 3"
    "bit LEFT k \<longleftrightarrow> k = 4" "bit SMALL k \<longleftrightarrow> k = 5" "bit SPECIAL k \<longleftrightarrow> k = 6"
  using pow_bit [of 0 k] pow_bit [of 1 k] pow_bit [of 2 k] pow_bit [of 3 k] pow_bit [of 4 k] pow_bit [of 5 k] pow_bit [of 6 k]
  by (simp_all add: flag_defs)

lemma has_both: "has f (ZEROPAD + LEFT) \<longleftrightarrow> has f ZEROPAD \<or> has f LEFT"
proof -
  have "ZEROPAD + LEFT = ZEROPAD OR LEFT" by (simp add: flag_defs)
  then show ?thesis by (simp add: has_def bit.conj_disj_distrib or_eq_0_iff)
qed

lemma pad_value: "- 2147483648 < w \<Longrightarrow> w \<le> 2147483647 \<Longrightarrow> pad c w = Some (replicate (nat w) c, if 0 < w then -1 else w - 1)"
  by (simp add: pad_def in_s32_def)

lemma number_layout:
  assumes "base \<in> {8, 10, 16}" "-1 \<le> w" "w \<le> 2 ^ 30" "-1 \<le> p" "p \<le> 2 ^ 30"
  shows "number num base w p flags =
    Some (layout flags w p (sign_chars flags num @ prefix_chars base flags) (digit_text base flags (magnitude flags num)))"
proof -
  define type where "type = (if has flags LEFT then flags AND NOT ZEROPAD else flags)"
  have type: "has type SIGN = has flags SIGN" "has type PLUS = has flags PLUS" "has type SPACE = has flags SPACE"
    "has type LEFT = has flags LEFT" "has type ZEROPAD \<longleftrightarrow> has flags ZEROPAD \<and> \<not> has flags LEFT"
    by (auto simp: type_def has_bit bit_simps flag_bit)
  let ?sign = "sign_chars flags num" and ?pfx = "prefix_chars base flags"
  obtain num' where num': "split_sign type num w = (?sign, num', w - int (length ?sign))" "unat num' = magnitude flags num"
    using split_sign_value [of type flags num w] type by auto
  define ds where "ds = map (digit_char (case_of flags)) (lsd (nat base) (unat num'))"
  have ds: "(if num' = 0 then Some [48] else if base \<noteq> 10 then put_pow2 base (case_of flags) num' else put_dec num') = Some ds" "length ds \<le> 22"
    using number_digits(1) [OF assms(1), of num' flags] number_digits(2) [OF assms(1), of num'] by (simp_all add: ds_def)
  have rev: "digit_text base flags (magnitude flags num) = rev ds" by (simp add: digit_text_def ds_def num'(2) rev_map)
  let ?i = "int (length ds)"
  let ?p = "if p < ?i then ?i else p"
  let ?w = "w - int (length ?sign) - int (length ?pfx)"
  have lens: "length ?sign \<le> 1" "length ?pfx \<le> 2" by (auto simp: sign_chars_def prefix_chars_def)
  have pfx: "(if has flags SPECIAL \<and> base \<noteq> 10 then w - int (length ?sign) - (if base = 16 then 2 else 1) else w - int (length ?sign)) = ?w"
    by (simp add: prefix_chars_def)
  have ok: "in_s32 ?w" "in_s32 (?w - ?p)" "- 2147483000 < ?w - ?p" "?w - ?p \<le> 2147483647"
    using lens ds(2) assms(2-5) by (auto simp: in_s32_def split: if_splits)
  let ?k = "?w - ?p"
  have lead: "(if \<not> has type (ZEROPAD + LEFT) then pad 32 ?k else Some ([], ?k)) =
      Some (if has flags ZEROPAD \<or> has flags LEFT then ([], ?k) else (replicate (nat ?k) 32, if 0 < ?k then -1 else ?k - 1))"
    using ok(3,4) by (auto simp: has_both type pad_value)
  have "number num base w p flags = do {
      (lead, k) \<leftarrow> (if \<not> has type (ZEROPAD + LEFT) then pad 32 ?k else Some ([], ?k));
      (fill, k) \<leftarrow> (if \<not> has type LEFT then pad (if has type ZEROPAD then 48 else 32) k else Some ([], k));
      (trail, k) \<leftarrow> pad 32 k;
      Some (lead @ ?sign @ ?pfx @ fill @ replicate (nat (?p - ?i)) 48 @ rev ds @ trail) }"
    unfolding number_def
    using ds(2) ok(1,2)
    by (simp add: locase_of ds(1) num'(1) pfx prefix_chars_def [symmetric] Let_def flip: type_def)
  then have step: "number num base w p flags = Some (
      if has flags LEFT then ?sign @ ?pfx @ replicate (nat (?p - ?i)) 48 @ rev ds @ replicate (nat ?k) 32
      else if has flags ZEROPAD then ?sign @ ?pfx @ replicate (nat ?k) 48 @ replicate (nat (?p - ?i)) 48 @ rev ds
      else replicate (nat ?k) 32 @ ?sign @ ?pfx @ replicate (nat (?p - ?i)) 48 @ rev ds)"
    unfolding lead using ok(3,4) by (auto simp: type pad_value)
  have "nat (?p - ?i) = nat p - length ds" "nat ?k = nat (w - int (length (?sign @ ?pfx) + length (replicate (nat p - length ds) (48 :: u8) @ rev ds)))"
    by auto
  then show ?thesis unfolding step layout_def rev by (simp add: Let_def)
qed

section \<open>Reading numbers back\<close>

lemma digit_char_zero: "d < 16 \<Longrightarrow> digit_char (case_of flags) d = 48 \<longleftrightarrow> d = 0" "d < 16 \<Longrightarrow> digit_char (case_of flags) d \<noteq> 120 \<and> digit_char (case_of flags) d \<noteq> 45"
proof -
  have "\<forall>locase\<in>{0, 32}. \<forall>d\<in>set [0..<16]. (digit_char locase d = 48 \<longleftrightarrow> d = 0) \<and> digit_char locase d \<noteq> 120 \<and> digit_char locase d \<noteq> 45"
    by code_simp
  then show "d < 16 \<Longrightarrow> digit_char (case_of flags) d = 48 \<longleftrightarrow> d = 0" "d < 16 \<Longrightarrow> digit_char (case_of flags) d \<noteq> 120 \<and> digit_char (case_of flags) d \<noteq> 45"
    by (auto simp: case_of_def)
qed

lemma lsd_nonempty: "lsd base n \<noteq> []"
  by (subst lsd.simps) simp

lemma lsd_last: "2 \<le> base \<Longrightarrow> 0 < n \<Longrightarrow> last (lsd base n) \<noteq> 0"
proof (induction base n rule: lsd.induct)
  case (1 base n)
  show ?case
  proof (cases "n < base")
    case False
    then have "lsd base n = n mod base # lsd base (n div base)" using 1(2) by (subst lsd.simps) simp
    then show ?thesis using 1 False by (simp add: lsd_nonempty div_greater_zero_iff)
  qed (use 1 in \<open>simp add: lsd_small\<close>)
qed

lemma digit_text_value:
  assumes "base \<in> {8, 10, 16}" "\<And>v. 0 \<le> v \<Longrightarrow> v \<le> int n \<Longrightarrow> wrap v = v"
  shows "strtoul_digits wrap base 0 (digit_text base flags n) = (int n, [])"
  using strtoul_lsd [of "nat base" "digit_char (case_of flags)" n wrap] digit_char_value assms
  by (auto simp: digit_text_def rev_map)

lemma digit_text_zero: "base \<in> {8, 10, 16} \<Longrightarrow> digit_text base flags 0 = [48]"
  using digit_char_zero(1) [of 0 flags] by (auto simp: digit_text_def lsd_small)

text \<open>The first character decides how the number is read.\<close>

lemma digit_text_first:
  assumes "base \<in> {8, 10, 16}"
  obtains c cs where "digit_text base flags n = c # cs" "isxdigit c" "c \<noteq> 120" "c \<noteq> 45" "c = 48 \<longleftrightarrow> n = 0"
proof -
  let ?d = "last (lsd (nat base) n)"
  have "?d < nat base" using lsd_less [of "nat base" ?d n] lsd_nonempty assms by auto
  then have d: "?d < 16" using assms by auto
  have "digit_text base flags n = digit_char (case_of flags) ?d # tl (digit_text base flags n)"
    using lsd_nonempty [of "nat base" n] by (cases "lsd (nat base) n" rule: rev_cases) (simp_all add: digit_text_def)
  moreover have "?d = 0 \<longleftrightarrow> n = 0" using lsd_last [of "nat base" n] assms by (cases "n = 0") (auto simp: lsd_small)
  ultimately show ?thesis using that digit_char_value [OF d] digit_char_zero [OF d] by metis
qed

lemma number_base_text:
  assumes "base \<in> {8, 10, 16}" "b \<noteq> 0"
  shows "number_base (digit_text base flags n) b = (if n = 0 then [] else digit_text base flags n, b)"
proof (cases "n = 0")
  case True
  then show ?thesis using assms by (simp add: digit_text_zero number_base_def)
next
  case False
  obtain c cs where "digit_text base flags n = c # cs" "c \<noteq> 48" using digit_text_first [OF assms(1), of flags n] False by metis
  then show ?thesis using assms(2) False by (simp add: number_base_def)
qed

lemma number_base_prefix:
  shows "has flags SPECIAL \<Longrightarrow> has flags SMALL \<Longrightarrow> number_base (prefix_chars 16 flags @ digit_text 16 flags n) 0 = (digit_text 16 flags n, 16)"
    "has flags SPECIAL \<Longrightarrow> number_base (prefix_chars 8 flags @ digit_text 8 flags n) 0 = (digit_text 8 flags n, 8)"
proof -
  obtain c cs where c: "digit_text 16 flags n = c # cs" "isxdigit c" by (rule digit_text_first [of 16 flags n]) auto
  show "number_base (prefix_chars 16 flags @ digit_text 16 flags n) 0 = (digit_text 16 flags n, 16)" if "has flags SPECIAL" "has flags SMALL"
    using that c by (simp add: prefix_chars_def number_base_def case_of_def)
  obtain d ds where d: "digit_text 8 flags n = d # ds" "d \<noteq> 120" by (rule digit_text_first [of 8 flags n]) auto
  show "number_base (prefix_chars 8 flags @ digit_text 8 flags n) 0 = (digit_text 8 flags n, 8)" if "has flags SPECIAL"
    using that d by (auto simp: prefix_chars_def number_base_def split: list.splits)
qed

text \<open>The conversions of plain numbers.\<close>

lemma sprintf_one: "conversion [] fmt args = Some (out, [], args', ns) \<Longrightarrow> sprintf (37 # fmt) args = Some out"
  by (simp add: sprintf_def vsprintf_def)

lemma layout_plain: "layout flags (-1) (-1) front ds = front @ ds"
  by (simp add: layout_def)

lemmas conversion_defs = conversion_def format_width_def format_precision_def format_qualifier_def convert_def is_digit_def Let_def

lemma has_simps [simp]: "\<not> has 0 f" "has (f OR g) h \<longleftrightarrow> has f h \<or> has g h"
  by (simp_all add: has_def bit.conj_disj_distrib2 or_eq_0_iff)

lemma flag_pairs [simp]: "has SIGN SIGN" "has SPECIAL SPECIAL" "has SMALL SMALL" "\<not> has SPECIAL SIGN" "\<not> has SMALL SIGN" "\<not> has SIGN SPECIAL"
    "\<not> has SIGN PLUS" "\<not> has SIGN SPACE" "\<not> has SIGN LEFT" "\<not> has SIGN ZEROPAD" "has LEFT LEFT" "\<not> has LEFT SIGN" "\<not> has LEFT PLUS"
    "\<not> has LEFT SPACE" "\<not> has LEFT SPECIAL" "\<not> has LEFT ZEROPAD" "\<not> has LEFT SMALL" "\<not> has SIGN SMALL"
  by code_simp+

lemma unsigned_chars [simp]: "\<not> has f SIGN \<Longrightarrow> sign_chars f n = []" "\<not> has f SIGN \<Longrightarrow> magnitude f n = unat n"
    "prefix_chars 10 f = []" "\<not> has f SPECIAL \<Longrightarrow> prefix_chars base f = []"
  by (simp_all add: sign_chars_def magnitude_def prefix_chars_def)

lemma widen [simp]: "unat (ucast (n :: u32w) :: u64w) = unat n" "sint (scast (n :: u32w) :: u64w) = sint n"
  using unsigned_less [of n, where ?'a = nat] signed_take_bit_int_eq_self [of 63 "sint n"] sint_greater_eq [of n] sint_less [of n]
  by (simp_all add: unsigned_ucast_eq take_bit_nat_eq_self signed_scast_eq)

lemma sprintf_numbers:
  "sprintf (bytes ''%lu'') [Va_int n] = Some (digit_text 10 0 (unat n))"
  "sprintf (bytes ''%lX'') [Va_int n] = Some (digit_text 16 0 (unat n))"
  "sprintf (bytes ''%ld'') [Va_int n] = Some (sign_chars SIGN (scast n) @ digit_text 10 SIGN (magnitude SIGN (scast n)))"
  "sprintf (bytes ''%#lx'') [Va_int n] = Some (prefix_chars 16 (SPECIAL OR SMALL) @ digit_text 16 (SPECIAL OR SMALL) (unat n))"
  "sprintf (bytes ''%#lo'') [Va_int n] = Some (prefix_chars 8 SPECIAL @ digit_text 8 SPECIAL (unat n))"
  "sprintf (bytes ''%llu'') [Va_long_long m] = Some (digit_text 10 0 (unat m))"
  "sprintf (bytes ''%#llx'') [Va_long_long m] = Some (prefix_chars 16 (SPECIAL OR SMALL) @ digit_text 16 (SPECIAL OR SMALL) (unat m))"
  by (simp_all add: bytes_def sprintf_one conversion_defs number_layout layout_plain)

lemma u32_unat: "0 \<le> v \<Longrightarrow> v \<le> int (unat (n :: u32w)) \<Longrightarrow> u32 v = v"
  using unsigned_less [of n, where ?'a = int] by (simp add: u32_id in_u32_def)

lemma u64_unat: "0 \<le> v \<Longrightarrow> v \<le> int (unat (n :: u64w)) \<Longrightarrow> u64 v = v"
  using unsigned_less [of n, where ?'a = int] by (simp add: u64_def)

lemma strtoul_text:
  assumes "base \<in> {8, 10, 16}" "b = base" "n < 2 ^ 32"
  shows "simple_strtoul (digit_text base flags n) b = (int n, [])"
proof -
  have "strtoul_digits u32 base 0 (digit_text base flags n) = (int n, [])"
    by (rule digit_text_value [OF assms(1)]) (use assms(3) in \<open>simp add: u32_id in_u32_def\<close>)
  then show ?thesis using assms(1,2) number_base_text [OF assms(1), of b flags n] by (auto simp: simple_strtoul_def)
qed

lemma strtol_text:
  fixes n :: u32w
  shows "simple_strtol (sign_chars SIGN (scast n) @ digit_text 10 SIGN (magnitude SIGN (scast n))) 10 = (sint n, [])"
proof -
  let ?m = "nat \<bar>sint n\<bar>"
  have r: "- (2 ^ 31) \<le> sint n" "sint n < 2 ^ 31" using sint_greater_eq [of n] sint_less [of n] by simp_all
  have val: "simple_strtoul (digit_text 10 SIGN ?m) 10 = (int ?m, [])"
    by (rule strtoul_text) (use r in simp_all)
  have s32: "s32 (sint n) = sint n" using r by (intro s32_id) (simp add: in_s32_def)
  obtain c cs where c: "digit_text 10 SIGN ?m = c # cs" "c \<noteq> 45" by (rule digit_text_first [of 10 SIGN ?m]) auto
  show ?thesis
  proof (cases "sint n < 0")
    case True
    then show ?thesis using val s32 by (simp add: simple_strtol_def sign_chars_def magnitude_def)
  next
    case False
    then show ?thesis using val s32 c by (simp add: simple_strtol_def sign_chars_def magnitude_def)
  qed
qed

section \<open>Properties\<close>

text \<open>C9: numbers printed by \<^verbatim>\<open>sprintf\<close> are read back by the parsers, with nothing left over: unsigned and signed decimal,
  hexadecimal, and the prefixed forms in the base that the parser finds out itself, for all 32-bit and 64-bit values.\<close>

theorem sprintf_strtoul:
  fixes n :: u32w and m :: u64w
  shows "map_option (\<lambda>s. simple_strtoul s 10) (sprintf (bytes ''%lu'') [Va_int n]) = Some (uint n, []) \<and>
    map_option (\<lambda>s. simple_strtoul s 16) (sprintf (bytes ''%lX'') [Va_int n]) = Some (uint n, []) \<and>
    map_option (\<lambda>s. simple_strtol s 10) (sprintf (bytes ''%ld'') [Va_int n]) = Some (sint n, []) \<and>
    map_option (\<lambda>s. simple_strtoul s 0) (sprintf (bytes ''%#lx'') [Va_int n]) = Some (uint n, []) \<and>
    map_option (\<lambda>s. simple_strtoul s 0) (sprintf (bytes ''%#lo'') [Va_int n]) = Some (uint n, []) \<and>
    map_option (\<lambda>s. simple_strtoull s 10) (sprintf (bytes ''%llu'') [Va_long_long m]) = Some (uint m, []) \<and>
    map_option (\<lambda>s. simple_strtoull s 0) (sprintf (bytes ''%#llx'') [Va_long_long m]) = Some (uint m, [])"
proof -
  have n: "unat n < 2 ^ 32" using unsigned_less [of n, where ?'a = nat] by simp
  have "simple_strtoul (prefix_chars 16 (SPECIAL OR SMALL) @ digit_text 16 (SPECIAL OR SMALL) (unat n)) 0 = (uint n, [])"
    "simple_strtoul (prefix_chars 8 SPECIAL @ digit_text 8 SPECIAL (unat n)) 0 = (uint n, [])"
    "simple_strtoull (prefix_chars 16 (SPECIAL OR SMALL) @ digit_text 16 (SPECIAL OR SMALL) (unat m)) 0 = (uint m, [])"
    using digit_text_value [of _ "unat n" u32] u32_unat [of _ n] digit_text_value [of _ "unat m" u64] u64_unat [of _ m]
    by (simp_all add: simple_strtoul_def simple_strtoull_def number_base_prefix)
  moreover have "simple_strtoull (digit_text 10 0 (unat m)) 10 = (uint m, [])"
    using digit_text_value [of 10 "unat m" u64 0] u64_unat [of _ m] number_base_text [of 10 10 0 "unat m"]
    by (auto simp: simple_strtoull_def unsigned_eq_0_iff)
  ultimately show ?thesis
    using n strtol_text [of n] by (simp add: sprintf_numbers strtoul_text)
qed



end
