(* ===== verification/EnvCmd.thy ===== *)
theory EnvCmd
  imports EnvStore Vsprintf
begin

text \<open>
  The commands on the environment, \<^verbatim>\<open>common/cmd_nvedit.c\<close>: looking up a variable before and after the import, and
  setting one.  The console is a state \<open>'c\<close> with
  \<^verbatim>\<open>console_assign\<close> and \<^verbatim>\<open>serial_assign\<close> as arguments; what is typed at it is a list of bytes.
\<close>

section \<open>Looking up a variable in the text\<close>

text \<open>The text is read byte by byte; \<open>env_get_char\<close> is \<^const>\<open>None\<close> outside of it.\<close>

definition env_get_char :: "u8 list \<Rightarrow> nat \<Rightarrow> u8 option" where
  "env_get_char env index = rd env index"

text \<open>The position behind \<open>=\<close>, if the name matches; a name without \<open>=\<close> in the text is read beyond its end.\<close>

fun envmatch :: "u8 list \<Rightarrow> cstr \<Rightarrow> nat \<Rightarrow> int option" where
  "envmatch env [] i2 =
     do { x \<leftarrow> env_get_char env i2; if x = 0 then None else Some (if x = 61 then int (Suc i2) else -1) }"
| "envmatch env (c # s1) i2 =
     do {
       x \<leftarrow> env_get_char env i2;
       if c = x then (if c = 61 then Some (int (Suc i2)) else envmatch env s1 (Suc i2)) else Some (-1)
     }"

text \<open>The end of an entry, or the end of the search.\<close>

function entry_end :: "u8 list \<Rightarrow> nat \<Rightarrow> nat option option" where
  "entry_end env nxt =
     do {
       c \<leftarrow> env_get_char env nxt;
       if c = 0 then Some (Some nxt)
       else if CONFIG_ENV_SIZE \<le> nxt then Some None
       else entry_end env (Suc nxt)
     }"
  by pat_completeness auto
termination
  by (relation "measure (\<lambda>(env, nxt). CONFIG_ENV_SIZE - nxt)") auto

declare entry_end.simps [simp del]

text \<open>The bytes that are copied out, and the value that is returned.\<close>

primrec copy_out :: "u8 list \<Rightarrow> nat \<Rightarrow> nat \<Rightarrow> nat \<Rightarrow> (int \<times> u8 list) option" where
  "copy_out env val n 0 = Some (int n, [])"
| "copy_out env val n (Suc len) =
     do {
       c \<leftarrow> env_get_char env val;
       if c = 0 then Some (int n, [0])
       else map_option (\<lambda>(r, bs). (r, c # bs)) (copy_out env (Suc val) (Suc n) len)
     }"

text \<open>A value that does not fit is cut, and its last byte is overwritten by the final zero.\<close>

definition env_value :: "u8 list \<Rightarrow> nat \<Rightarrow> nat \<Rightarrow> (int \<times> u8 list) option" where
  "env_value env val len =
     do {
       (n, bs) \<leftarrow> copy_out env val 0 len;
       Some (n, if bs \<noteq> [] \<and> last bs \<noteq> 0 then butlast bs @ [0] else bs)
     }"

lemma entry_end_ge: "entry_end env i = Some (Some nxt) \<Longrightarrow> i \<le> nxt"
proof (induction env i rule: entry_end.induct)
  case (1 env i)
  obtain c where c: "env_get_char env i = Some c" using 1(2) by (subst (asm) entry_end.simps) (auto simp: bind_eq_Some_conv)
  show ?case
  proof (cases "c = 0 \<or> CONFIG_ENV_SIZE \<le> i")
    case True
    then show ?thesis using 1(2) c by (subst (asm) entry_end.simps) (auto split: if_splits)
  next
    case False
    then have "entry_end env (Suc i) = Some (Some nxt)" using 1(2) c by (subst (asm) entry_end.simps) simp
    then show ?thesis using 1(1) [OF c] False by simp
  qed
qed

lemma entry_end_less:
  assumes "env_get_char env i = Some c" "c \<noteq> 0" "entry_end env i = Some (Some nxt)"
  shows "i < CONFIG_ENV_SIZE" "i < nxt"
proof -
  show i: "i < CONFIG_ENV_SIZE" using assms by (subst (asm) entry_end.simps) (auto split: if_splits)
  have "entry_end env (Suc i) = Some (Some nxt)" using assms i by (subst (asm) entry_end.simps) simp
  from entry_end_ge [OF this] show "i < nxt" by simp
qed

lemma entry_end_measure:
  "env_get_char env i = Some c \<Longrightarrow> c \<noteq> 0 \<Longrightarrow> entry_end env i = Some (Some nxt) \<Longrightarrow> CONFIG_ENV_SIZE - Suc nxt < CONFIG_ENV_SIZE - i"
  using entry_end_less [of env i c nxt] by linarith

function getenv_f_from :: "u8 list \<Rightarrow> cstr \<Rightarrow> nat \<Rightarrow> nat \<Rightarrow> (int \<times> u8 list) option" where
  "getenv_f_from env name i len =
     do {
       c \<leftarrow> env_get_char env i;
       if c = 0 then Some (-1, [])
       else
         do {
           e \<leftarrow> entry_end env i;
           (case e of
              None \<Rightarrow> Some (-1, [])
            | Some nxt \<Rightarrow>
                do {
                  val \<leftarrow> envmatch env name i;
                  if val < 0 then getenv_f_from env name (Suc nxt) len else env_value env (nat val) len
                })
         }
     }"
  by pat_completeness auto
termination
  by (relation "measure (\<lambda>(env, name, i, len). CONFIG_ENV_SIZE - i)") (auto dest: entry_end_measure)

declare getenv_f_from.simps [simp del]

definition getenv_f :: "u8 list \<Rightarrow> cstr \<Rightarrow> nat \<Rightarrow> (int \<times> u8 list) option" where
  "getenv_f env name len = getenv_f_from env name 0 len"

text \<open>\<^verbatim>\<open>getenv\<close>: in the table once it is filled, in the text before, where the buffer has 32 bytes.\<close>

definition getenv :: "'h heap_ops \<Rightarrow> ('h, 'z) env_state_scheme \<Rightarrow> u8 list \<Rightarrow> cstr \<Rightarrow> cstr option option" where
  "getenv H s env name =
     (if env_ready s then find_var (h_strdup H) (h_free H) (e_htab s, e_heap s) name
      else
        do {
          (n, buf) \<leftarrow> getenv_f env name 32;
          Some (if 0 < n then Some (takeWhile (\<lambda>c. c \<noteq> 0) buf) else None)
        })"

section \<open>Setting a variable\<close>

record ('h, 'c) cmd_state = "'h env_state" +
  env_id :: int
  baudrate :: int
  bi_ip_addr :: int
  load_addr :: int
  boot_file :: cstr
  typed :: "u8 list"
  con :: 'c

record 'c con_ops =
  console_assign :: "'c \<Rightarrow> int \<Rightarrow> cstr \<Rightarrow> int \<times> 'c"
  serial_assign :: "'c \<Rightarrow> cstr \<Rightarrow> int \<times> 'c"

text \<open>An argument; \<^verbatim>\<open>argv\<close> may be longer than \<^verbatim>\<open>argc\<close>, and following a null pointer is undefined.\<close>

definition arg :: "cstr option list \<Rightarrow> nat \<Rightarrow> cstr option" where
  "arg argv i = (if i < length argv then argv ! i else None)"

definition console_of :: "cstr \<Rightarrow> int" where
  "console_of name =
     (if name = bytes ''stdin'' then 0 else if name = bytes ''stdout'' then 1 else if name = bytes ''stderr'' then 2 else -1)"

text \<open>Redirecting the console; \<^const>\<open>False\<close> ends the command with an error.\<close>

definition redirect :: "'c con_ops \<Rightarrow> ('h, 'c) cmd_state \<Rightarrow> cstr \<Rightarrow> nat \<Rightarrow> cstr option list \<Rightarrow> (bool \<times> ('h, 'c) cmd_state) option" where
  "redirect C s name argc argv =
     (if console_of name = -1 then Some (True, s)
      else if argc < 3 then Some (False, s)
      else
        do {
          dev \<leftarrow> arg argv 2;
          let (r, c) = console_assign C (con s) (console_of name) dev;
          if r < 0 then Some (False, s\<lparr>con := c\<rparr>)
          else (let (r, c) = serial_assign C c dev in Some (0 \<le> r, s\<lparr>con := c\<rparr>))
        })"

definition baudrate_table :: "int list" where
  "baudrate_table = [9600, 19200, 38400, 57600, 115200]"

text \<open>A new baud rate for an existing variable takes effect at once, and the user must press return.\<close>

definition switch_baudrate :: "('h, 'c) cmd_state \<Rightarrow> bool \<Rightarrow> cstr \<Rightarrow> cstr option list \<Rightarrow> (bool \<times> ('h, 'c) cmd_state) option" where
  "switch_baudrate s exists name argv =
     (if exists \<and> name = bytes ''baudrate'' then
        do {
          rate \<leftarrow> arg argv 2;
          let rate = fst (simple_strtoul rate 10);
          if rate \<notin> set baudrate_table then Some (False, s)
          else if 13 \<in> set (typed s)
          then Some (True, s\<lparr>baudrate := rate, typed := tl (dropWhile (\<lambda>c. c \<noteq> 13) (typed s))\<rparr>)
          else None
        }
      else Some (True, s))"

text \<open>The arguments from the third on, joined by blanks.\<close>

fun join_args :: "cstr option list \<Rightarrow> cstr option" where
  "join_args [] = Some []"
| "join_args [a] = a"
| "join_args (a # as) = do { v \<leftarrow> a; w \<leftarrow> join_args as; Some (v @ 32 # w) }"

primrec ip_bytes :: "nat \<Rightarrow> int \<Rightarrow> cstr \<Rightarrow> int" where
  "ip_bytes 0 addr s = addr"
| "ip_bytes (Suc n) addr s =
     (let (val, e) = simple_strtoul s 10
      in ip_bytes n (u32 (addr * 256) + val mod 256) (if e = [] then [] else tl e))"

definition htonl :: "int \<Rightarrow> int" where
  "htonl x = x mod 256 * 0x1000000 + x div 0x100 mod 256 * 0x10000 + x div 0x10000 mod 256 * 0x100 + x div 0x1000000 mod 256"

text \<open>\<^verbatim>\<open>copy_filename\<close> of \<^verbatim>\<open>net/net.c\<close>: the name without quotes, cut to the size.\<close>

definition copy_filename :: "cstr \<Rightarrow> nat \<Rightarrow> cstr" where
  "copy_filename src size' =
     (let (src, size') = (case src of c # cs \<Rightarrow> if c = 34 then (cs, size' - 1) else (src, size') | [] \<Rightarrow> (src, size'))
      in take (size' - 1) (takeWhile (\<lambda>c. c \<noteq> 34) src))"

definition special_vars :: "('h, 'c) cmd_state \<Rightarrow> cstr \<Rightarrow> cstr \<Rightarrow> ('h, 'c) cmd_state" where
  "special_vars s name v =
     (if name = bytes ''ipaddr'' then s\<lparr>bi_ip_addr := htonl (ip_bytes 4 0 v)\<rparr>
      else if name = bytes ''loadaddr'' then s\<lparr>load_addr := fst (simple_strtoul v 16)\<rparr>
      else if name = bytes ''bootfile'' then s\<lparr>boot_file := copy_filename v 128\<rparr>
      else s)"

definition do_env_set :: "'h heap_ops \<Rightarrow> 'c con_ops \<Rightarrow> ('h, 'c) cmd_state \<Rightarrow> nat \<Rightarrow> cstr option list \<Rightarrow>
    (int \<times> ('h, 'c) cmd_state) option" where
  "do_env_set H C s argc argv =
     do {
       name \<leftarrow> arg argv 1;
       if 61 \<in> set name then Some (1, s)
       else
         do {
           let s = s\<lparr>env_id := s32 (env_id s + 1)\<rparr>;
           (r, h, hp) \<leftarrow> hsearch_r (h_strdup H) (h_free H) (e_heap s) \<lparr>e_key = name, e_data = None\<rparr> FIND (e_htab s);
           let s = s\<lparr>e_htab := h, e_heap := hp\<rparr>;
           let exists = (retval r \<noteq> None);
           (ok, s) \<leftarrow> redirect C s name argc argv;
           if \<not> ok then Some (1, s)
           else
             do {
               (ok, s) \<leftarrow> switch_baudrate s exists name argv;
               if \<not> ok then Some (1, s)
               else if argc < 3 \<or> arg argv 2 = None then
                 do {
                   (rc, _, h, hp) \<leftarrow> hdelete_r (h_strdup H) (h_free H) (e_heap s) name (e_htab s);
                   Some (if rc = 0 then 1 else 0, s\<lparr>e_htab := h, e_heap := hp\<rparr>)
                 }
               else
                 do {
                   value \<leftarrow> join_args (take (argc - 2) (drop 2 argv));
                   let (ok, hp) = h_malloc H (e_heap s) (Suc (length value));
                   if \<not> ok then Some (1, s\<lparr>e_heap := hp\<rparr>)
                   else
                     do {
                       (r, h, hp) \<leftarrow> hsearch_r (h_strdup H) (h_free H) hp \<lparr>e_key = name, e_data = Some value\<rparr> ENTER (e_htab s);
                       let s = s\<lparr>e_htab := h, e_heap := h_release H hp (Suc (length value))\<rparr>;
                       if retval r = None then Some (1, s)
                       else do { v \<leftarrow> arg argv 2; Some (0, special_vars s name v) }
                     }
                 }
             }
         }
     }"

definition setenv :: "'h heap_ops \<Rightarrow> 'c con_ops \<Rightarrow> ('h, 'c) cmd_state \<Rightarrow> cstr \<Rightarrow> cstr option \<Rightarrow> (int \<times> ('h, 'c) cmd_state) option" where
  "setenv H C s varname varvalue =
     do_env_set H C s (if varvalue = None \<or> varvalue = Some [] then 2 else 3) [Some (bytes ''setenv''), Some varname, varvalue, None]"

section \<open>The text before the import\<close>

definition text_at :: "u8 list \<Rightarrow> nat \<Rightarrow> u8 list \<Rightarrow> bool" where
  "text_at env i xs \<longleftrightarrow> (\<exists>ys. drop i env = xs @ ys)"

lemma text_at_Cons: "text_at env i (x # xs) \<longleftrightarrow> env_get_char env i = Some x \<and> text_at env (Suc i) xs"
proof (cases "i < length env")
  case True
  then show ?thesis by (auto simp: text_at_def env_get_char_def rd_def simp flip: Cons_nth_drop_Suc)
qed (auto simp: text_at_def env_get_char_def rd_def)

lemma text_at_Nil [simp]: "text_at env i []"
  by (simp add: text_at_def)

lemma text_at_append: "text_at env i (xs @ ys) \<longleftrightarrow> text_at env i xs \<and> text_at env (i + length xs) ys"
  by (induction xs arbitrary: i) (auto simp: text_at_Cons)

lemma entry_end_at:
  assumes "text_at env i (xs @ [0])" "plain xs" "i + length xs \<le> CONFIG_ENV_SIZE"
  shows "entry_end env i = Some (Some (i + length xs))"
  using assms
proof (induction xs arbitrary: i)
  case Nil
  then show ?case by (subst entry_end.simps) (simp add: text_at_Cons)
next
  case (Cons x xs)
  then have "entry_end env (Suc i) = Some (Some (Suc i + length xs))" by (simp add: text_at_Cons)
  then show ?case using Cons.prems by (subst entry_end.simps) (simp add: text_at_Cons)
qed

lemma envmatch_at:
  assumes "text_at env i (k @ [61])" "plain name" "plain k" "61 \<notin> set name" "61 \<notin> set k"
  shows "envmatch env name i = Some (if name = k then int (i + length k + 1) else -1)"
  using assms
proof (induction name arbitrary: i k)
  case Nil
  then show ?case by (cases k) (auto simp: text_at_Cons)
next
  case (Cons c cs)
  then show ?case by (cases k) (auto simp: text_at_Cons)
qed

lemma copy_out_at:
  assumes "text_at env i (d @ [0])" "plain d" "length d < len"
  shows "copy_out env i n len = Some (int (n + length d), d @ [0])"
  using assms
proof (induction d arbitrary: i n len)
  case Nil
  then show ?case by (cases len) (auto simp: text_at_Cons)
next
  case (Cons c cs)
  then show ?case by (cases len) (auto simp: text_at_Cons)
qed

lemma esc_plain: "92 \<notin> set d \<Longrightarrow> plain d \<Longrightarrow> esc 0 d = d"
  by (induction d) (auto simp: escaped_def)

lemma getenv_f_text:
  assumes "text_at env i (text_of 0 es @ [0])" "\<forall>e\<in>set es. good_entry 0 e \<and> 92 \<notin> set (snd e) \<and> length (snd e) < len"
    and "i + length (text_of 0 es) \<le> CONFIG_ENV_SIZE" "plain name" "61 \<notin> set name"
  shows "getenv_f_from env name i len =
    Some (case map_of es name of None \<Rightarrow> (-1, []) | Some d \<Rightarrow> (int (length d), d @ [0]))"
  using assms(1-3)
proof (induction es arbitrary: i)
  case Nil
  then show ?case by (subst getenv_f_from.simps) (simp add: text_at_Cons)
next
  case (Cons e es)
  obtain k d where e: "e = (k, d)" by (cases e)
  have g: "plain k" "61 \<notin> set k" "plain d" "92 \<notin> set d" "length d < len"
    using Cons.prems(2) by (auto simp: e good_entry_def good_name_def)
  let ?x = "k @ 61 # d"
  have t: "entry_text 0 e = ?x @ [0]" using esc_plain [OF g(4,3)] by (simp add: e entry_text_def)
  have at: "text_at env i (?x @ [0])" "text_at env (i + length ?x + 1) (text_of 0 es @ [0])"
    using Cons.prems(1) by (auto simp: t text_at_append text_at_Cons ac_simps)
  have fits: "i + length ?x \<le> CONFIG_ENV_SIZE" "i + length ?x + 1 + length (text_of 0 es) \<le> CONFIG_ENV_SIZE"
    using Cons.prems(3) by (simp_all add: t)
  have "plain ?x" using g by simp
  then have en: "entry_end env i = Some (Some (i + length ?x))" using entry_end_at [OF at(1)] fits(1) by simp
  have "text_at env i (k @ [61])" using at(1) by (simp add: text_at_append text_at_Cons)
  from envmatch_at [OF this assms(4) g(1) assms(5) g(2)]
  have m: "envmatch env name i = Some (if name = k then int (i + length k + 1) else -1)" .
  obtain c cs where "?x @ [0] = c # cs" "c \<noteq> 0" using \<open>plain ?x\<close> by (cases k) auto
  then have c: "env_get_char env i = Some c" "c \<noteq> 0" using at(1) by (simp_all add: text_at_Cons)
  show ?case
  proof (cases "name = k")
    case True
    have "text_at env (i + length k + 1) (d @ [0])" using at(1) by (simp add: text_at_append text_at_Cons ac_simps)
    from copy_out_at [OF this g(3,5), of 0]
    have "env_value env (i + length k + 1) len = Some (int (length d), d @ [0])" by (simp add: env_value_def)
    then show ?thesis using True en m c by (subst getenv_f_from.simps) (simp add: e nat_add_distrib)
  next
    case False
    have "getenv_f_from env name (i + length ?x + 1) len = Some (case map_of es name of None \<Rightarrow> (-1, []) | Some d \<Rightarrow> (int (length d), d @ [0]))"
      using Cons.IH [OF at(2)] Cons.prems(2) fits(2) by simp
    then show ?thesis using False en m c by (subst getenv_f_from.simps) (simp add: e)
  qed
qed

lemma takeWhile_plain: "plain d \<Longrightarrow> takeWhile (\<lambda>c. c \<noteq> 0) (d @ [0]) = d"
  by (induction d) auto

lemma sorted_lookup: "saveable h \<Longrightarrow> map_of (sorted_entries h) = lookup h"
  using sorted_entries(2) [of h] distinct_used_entries [of h] set_sorted_entries [of h]
    map_of_inject_set [of "sorted_entries h" "used_entries h"] mset_eq_imp_distinct_iff [of "map fst (sorted_entries h)" "map fst (used_entries h)"]
  by (simp add: saveable_def lookup_def)

section \<open>Ordinary variables\<close>

text \<open>Names that are neither a console, nor the baud rate, nor illegal.\<close>

lemma special_vars_ip: "bi_ip_addr (special_vars s (bytes ''ipaddr'') v) = htonl (ip_bytes 4 0 v)"
  by (simp add: special_vars_def)

definition ordinary :: "cstr \<Rightarrow> bool" where
  "ordinary name \<longleftrightarrow> 61 \<notin> set name \<and> console_of name = -1 \<and> name \<noteq> bytes ''baudrate''"

lemma special_vars_env [simp]:
  "e_htab (special_vars s name v) = e_htab s" "env_ready (special_vars s name v) = env_ready s"
  by (simp_all add: special_vars_def)

lemma find_always:
  assumes "ht_inv h"
  obtains r where "hsearch_r strdup free hp \<lparr>e_key = name, e_data = None\<rparr> FIND h = Some (r, h, hp)"
  using hsearch_find(1) [OF assms, of strdup free hp name None] by blast

lemma set_value:
  assumes "ht_inv (e_htab s)" "ordinary name" "sure_heap H"
  shows "\<exists>rc s'. do_env_set H C s 3 [x, Some name, Some v, None] = Some (rc, if rc = 0 then special_vars s' name v else s') \<and>
    ht_inv (e_htab s') \<and> env_ready s' = env_ready s \<and>
    (if lookup (e_htab s) name = None \<and> filled (e_htab s) = h_size (e_htab s) then rc = 1 \<and> e_htab s' = e_htab s
     else rc = 0 \<and> lookup (e_htab s') = (lookup (e_htab s))(name \<mapsto> v))"
proof -
  obtain r0 where f: "hsearch_r (h_strdup H) (h_free H) (e_heap s) \<lparr>e_key = name, e_data = None\<rparr> FIND (e_htab s) = Some (r0, e_htab s, e_heap s)"
    by (rule find_always [OF assms(1)])
  obtain hp where m: "h_malloc H (e_heap s) (Suc (length v)) = (True, hp)" using assms(3) by (metis prod.collapse sure_heap_def)
  have "reliable (h_strdup H)" using assms(3) by (simp add: sure_heap_def)
  then obtain r h' hp' where e: "hsearch_r (h_strdup H) (h_free H) hp \<lparr>e_key = name, e_data = Some v\<rparr> ENTER (e_htab s) = Some (r, h', hp')"
    "ht_inv h'" "same_or_added (e_htab s) name v r h'"
    using hsearch_enter [OF assms(1), where strdup = "h_strdup H" and free = "h_free H" and hp = hp and k = name and v = v] by metis
  show ?thesis using assms(2) f m e
    by (auto simp: do_env_set_def arg_def ordinary_def redirect_def switch_baudrate_def Let_def same_or_added_def split: if_splits)
qed

lemma setenv_value:
  assumes "ht_inv (e_htab s)" "ordinary name" "v \<noteq> []" "sure_heap H"
  obtains (full) s' where "setenv H C s name (Some v) = Some (1, s')" "e_htab s' = e_htab s" "env_ready s' = env_ready s"
      "lookup (e_htab s) name = None" "filled (e_htab s) = h_size (e_htab s)"
    | (changed) s' where "setenv H C s name (Some v) = Some (0, special_vars s' name v)" "ht_inv (e_htab s')" "env_ready s' = env_ready s"
      "lookup (e_htab s') = (lookup (e_htab s))(name \<mapsto> v)" "lookup (e_htab s) name \<noteq> None \<or> filled (e_htab s) \<noteq> h_size (e_htab s)"
proof -
  obtain rc s' where s': "setenv H C s name (Some v) = Some (rc, if rc = 0 then special_vars s' name v else s')" "ht_inv (e_htab s')"
    "env_ready s' = env_ready s"
    "if lookup (e_htab s) name = None \<and> filled (e_htab s) = h_size (e_htab s) then rc = 1 \<and> e_htab s' = e_htab s
     else rc = 0 \<and> lookup (e_htab s') = (lookup (e_htab s))(name \<mapsto> v)"
    using set_value [OF assms(1,2,4), of C "Some (bytes ''setenv'')" v] assms(3) by (simp add: setenv_def) metis
  show ?thesis
  proof (cases "lookup (e_htab s) name = None \<and> filled (e_htab s) = h_size (e_htab s)")
    case True
    then show ?thesis using full [of s'] s' by simp
  next
    case False
    then show ?thesis using changed [of s'] s' by auto
  qed
qed

lemma setenv_room:
  assumes "ht_inv (e_htab s)" "ordinary name" "v \<noteq> []" "sure_heap H"
    and room: "lookup (e_htab s) name \<noteq> None \<or> filled (e_htab s) \<noteq> h_size (e_htab s)"
  obtains s' where "setenv H C s name (Some v) = Some (0, special_vars s' name v)" "ht_inv (e_htab s')" "env_ready s' = env_ready s"
    "lookup (e_htab s') = (lookup (e_htab s))(name \<mapsto> v)"
  using assms(1-4)
proof (cases rule: setenv_value [where C = C])
  case (full s')
  then show ?thesis using room by simp
next
  case (changed s')
  show ?thesis using changed(1-4) by (rule that)
qed

lemma unset_value:
  assumes "ht_inv (e_htab s)" "ordinary name"
  shows "\<exists>rc s'. do_env_set H C s 2 [x, Some name, v, None] = Some (rc, s') \<and> env_ready s' = env_ready s \<and>
    (case lookup (e_htab s) name of
       None \<Rightarrow> rc = 1 \<and> e_htab s' = e_htab s
     | Some d \<Rightarrow> rc = 0 \<and> set (used_entries (e_htab s')) = set (used_entries (e_htab s)) - {(name, d)})"
proof -
  obtain r0 where f: "hsearch_r (h_strdup H) (h_free H) (e_heap s) \<lparr>e_key = name, e_data = None\<rparr> FIND (e_htab s) = Some (r0, e_htab s, e_heap s)"
    by (rule find_always [OF assms(1)])
  obtain r e h' hp' where d: "hdelete_r (h_strdup H) (h_free H) (e_heap s) name (e_htab s) = Some (r, e, h', hp')"
    "case lookup (e_htab s) name of
       None \<Rightarrow> r = 0 \<and> e = Some ESRCH \<and> h' = e_htab s \<and> hp' = e_heap s
     | Some d \<Rightarrow> r = 1 \<and> e = None \<and> set (used_entries h') = set (used_entries (e_htab s)) - {(name, d)} \<and> filled h' = filled (e_htab s) - 1"
    using hdelete_value [OF assms(1), where strdup = "h_strdup H" and free = "h_free H" and hp = "e_heap s" and k = name] by metis
  show ?thesis using assms(2) f d
    by (auto simp: do_env_set_def arg_def ordinary_def redirect_def switch_baudrate_def Let_def split: option.splits)
qed

definition shell_state :: "hsearch_data \<Rightarrow> (unit, unit) cmd_state" where
  "shell_state h =
     \<lparr>e_mem = \<lambda>_. 0, e_heap = (), e_htab = h, env_ready = True, env_valid = 1, env_id = 1, baudrate = 115200,
      bi_ip_addr = 0, load_addr = 0, boot_file = [], typed = [], con = ()\<rparr>"

definition unit_con :: "unit con_ops" where
  "unit_con = \<lparr>console_assign = \<lambda>c f d. (0, c), serial_assign = \<lambda>c d. (0, c)\<rparr>"

lemma two_vars_lookup: "lookup two_vars = [[102] \<mapsto> [50], [97] \<mapsto> [49]]"
  by (auto simp: lookup_def small_entries fun_eq_iff)

lemma ordinary_letter: "ordinary [102]"
  by code_simp

section \<open>Properties\<close>

text \<open>C5: setting an ordinary variable to a value updates exactly this variable, and \<^verbatim>\<open>getenv\<close> then finds the value for this
  name and the old value for every other one; when the table is full and the name is new the command reports an error and
  changes nothing.\<close>

theorem setenv_getenv:
  assumes "ht_inv (e_htab s)" "env_ready s" "ordinary name" "v \<noteq> []" "sure_heap H"
  shows "\<exists>rc s'. setenv H C s name (Some v) = Some (rc, s') \<and> ht_inv (e_htab s') \<and>
    (\<forall>n. getenv H s' env n =
       Some ((if rc = 0 then (lookup (e_htab s))(name \<mapsto> v) else lookup (e_htab s)) n)) \<and>
    (rc \<noteq> 0 \<longleftrightarrow> lookup (e_htab s) name = None \<and> filled (e_htab s) = h_size (e_htab s))"
proof -
  have get: "getenv H t env n = Some (lookup (e_htab t) n)" if "ht_inv (e_htab t)" "env_ready t" for t :: "('a, 'b) cmd_state" and n
    using find_var_lookup [of "(e_htab t, e_heap t)"] that by (simp add: getenv_def)
  show ?thesis
    using assms(1,3,4,5)
  proof (cases rule: setenv_value [where C = C])
    case (full s')
    then show ?thesis using assms(1,2) get [of s'] by simp
  next
    case (changed s')
    then show ?thesis using assms(2) get [of "special_vars s' name v"] by simp
  qed
qed

lemma setenv_getenv_witness:
  "\<exists>rc s'. setenv unit_heap unit_con (shell_state two_vars) [102] (Some [55]) = Some (rc, s') \<and> rc = 0 \<and>
    getenv unit_heap s' [] [102] = Some (Some [55]) \<and> getenv unit_heap s' [] [97] = Some (Some [49])"
  using setenv_getenv [of "shell_state two_vars" "[102]" "[55]" unit_heap unit_con "[]"] two_vars_inv ordinary_letter unit_heap_sure
  by (auto simp: shell_state_def two_vars_lookup)

text \<open>C32: setting an ordinary variable to the empty string, or to nothing, deletes it: an unknown name is an error and changes
  nothing, and of a known name exactly its entry leaves the table.\<close>

theorem setenv_delete:
  assumes "ht_inv (e_htab s)" "ordinary name" "v = None \<or> v = Some []"
  shows "\<exists>rc s'. setenv H C s name v = Some (rc, s') \<and>
    (case lookup (e_htab s) name of
       None \<Rightarrow> rc = 1 \<and> e_htab s' = e_htab s
     | Some d \<Rightarrow> rc = 0 \<and> set (used_entries (e_htab s')) = set (used_entries (e_htab s)) - {(name, d)})"
  using unset_value [OF assms(1,2), of H C "Some (bytes ''setenv'')" v] assms(3) by (auto simp: setenv_def)

lemma setenv_delete_witness:
  "\<exists>rc s'. setenv unit_heap unit_con (shell_state two_vars) [102] (Some []) = Some (rc, s') \<and> rc = 0 \<and>
    set (used_entries (e_htab s')) = {([97], [49])}"
  using setenv_delete [of "shell_state two_vars" "[102]" "Some []" unit_heap unit_con] two_vars_inv ordinary_letter
  by (auto simp: shell_state_def two_vars_lookup small_entries)



end
