(* ===== verification/Enet.thy ===== *)
theory Enet
  imports EnvCmd
begin

text \<open>
  Addresses in the environment: the Ethernet address of \<^verbatim>\<open>net/eth.c\<close>, printed by \<^verbatim>\<open>sprintf\<close> into a variable and parsed
  out of it, with the address tests of \<^verbatim>\<open>include/net.h\<close>, and the IP address of the \<^verbatim>\<open>setenv\<close> command.
\<close>

section \<open>Ethernet addresses\<close>

primrec parse_bytes :: "nat \<Rightarrow> cstr \<Rightarrow> u8 list" where
  "parse_bytes 0 addr = []"
| "parse_bytes (Suc n) addr =
     (let (v, e) = simple_strtoul addr 16 in word_of_int v # parse_bytes n (if e = [] then [] else tl e))"

definition eth_parse_enetaddr :: "cstr option \<Rightarrow> u8 list" where
  "eth_parse_enetaddr addr = (case addr of None \<Rightarrow> replicate 6 0 | Some a \<Rightarrow> parse_bytes 6 a)"

definition is_zero_ether_addr :: "u8 list \<Rightarrow> bool" where
  "is_zero_ether_addr addr \<longleftrightarrow> addr ! 0 OR addr ! 1 OR addr ! 2 OR addr ! 3 OR addr ! 4 OR addr ! 5 = 0"

definition is_multicast_ether_addr :: "u8 list \<Rightarrow> bool" where
  "is_multicast_ether_addr addr \<longleftrightarrow> 1 AND addr ! 0 \<noteq> 0"

definition is_valid_ether_addr :: "u8 list \<Rightarrow> bool" where
  "is_valid_ether_addr addr \<longleftrightarrow> \<not> is_multicast_ether_addr addr \<and> \<not> is_zero_ether_addr addr"

definition eth_getenv_enetaddr :: "'h heap_ops \<Rightarrow> ('h, 'c) cmd_state \<Rightarrow> u8 list \<Rightarrow> cstr \<Rightarrow> (bool \<times> u8 list) option" where
  "eth_getenv_enetaddr H s env name =
     do {
       v \<leftarrow> getenv H s env name;
       let addr = eth_parse_enetaddr v;
       Some (is_valid_ether_addr addr, addr)
     }"

text \<open>The text and its final zero must fit in the buffers of 20 and 32 bytes.\<close>

definition eth_setenv_enetaddr :: "'h heap_ops \<Rightarrow> 'c con_ops \<Rightarrow> ('h, 'c) cmd_state \<Rightarrow> cstr \<Rightarrow> u32w \<Rightarrow> u8 list \<Rightarrow>
    (int \<times> ('h, 'c) cmd_state) option" where
  "eth_setenv_enetaddr H C s name p enetaddr =
     do {
       buf \<leftarrow> sprintf (bytes ''%pM'') [Va_pointer p enetaddr];
       if 20 < Suc (length buf) then None else setenv H C s name (Some buf)
     }"

definition eth_getenv_enetaddr_by_index :: "'h heap_ops \<Rightarrow> ('h, 'c) cmd_state \<Rightarrow> u8 list \<Rightarrow> u32w \<Rightarrow> (bool \<times> u8 list) option" where
  "eth_getenv_enetaddr_by_index H s env index =
     do {
       enetvar \<leftarrow> sprintf (if index \<noteq> 0 then bytes ''eth%daddr'' else bytes ''ethaddr'') [Va_int index];
       if 32 < Suc (length enetvar) then None else eth_getenv_enetaddr H s env enetvar
     }"

section \<open>Printing and parsing bytes\<close>

lemma hex_asc_chars: "d < 16 \<Longrightarrow> hex_asc ! d = digit_char 32 d"
proof -
  have "\<forall>d\<in>set [0..<16]. hex_asc ! d = digit_char 32 d" by code_simp
  then show "d < 16 \<Longrightarrow> hex_asc ! d = digit_char 32 d" by simp
qed

lemma pack_hex_byte_chars: "pack_hex_byte b = [digit_char 32 (unat b div 16), digit_char 32 (unat b mod 16)]"
proof -
  have "unat b < 256" using unsigned_less [of b, where ?'a = nat] by simp
  then have hi: "unat b div 16 < 16" by (simp add: less_mult_imp_div_less)
  have lo: "unat (b AND 0x0f) = unat b mod 16"
  proof -
    have "b AND 0x0f = take_bit 4 b" by (simp add: take_bit_eq_mask mask_eq_exp_minus_1)
    then show ?thesis using unsigned_take_bit_eq [of 4 b, where ?'a = nat] take_bit_eq_mod [of 4 "unat b"] by simp
  qed
  have f0: "push_bit 4 (mask 4) = (0xf0 :: u8)" by (simp add: mask_eq_exp_minus_1 push_bit_eq_mult)
  have "drop_bit 4 (b AND push_bit 4 (mask 4)) = drop_bit 4 b"
    by (rule bit_word_eqI) (use bit_imp_le_length [of b] in \<open>fastforce simp: bit_simps simp del: push_bit_of_1\<close>)
  then have "drop_bit 4 (b AND 0xf0) = drop_bit 4 b" by (simp only: f0)
  then have "unat (drop_bit 4 (b AND 0xf0)) = unat b div 16" using drop_unat [of 4 b] by simp
  then show ?thesis using hi lo by (simp add: pack_hex_byte_def hex_asc_chars)
qed

lemma strtoul_byte:
  assumes "rest = [] \<or> hd rest = 58"
  shows "simple_strtoul (pack_hex_byte b @ rest) 16 = (uint b, rest)"
proof -
  let ?hi = "unat b div 16" and ?lo = "unat b mod 16"
  have b: "unat b < 256" using unsigned_less [of b, where ?'a = nat] by simp
  then have hi: "?hi < 16" by (simp add: less_mult_imp_div_less)
  have small: "case_of SMALL = 32" by (simp add: case_of_def)
  note v = digit_char_value [OF hi, of SMALL, unfolded small] digit_char_value [of ?lo SMALL, unfolded small, simplified]
    digit_char_zero(2) [of ?lo SMALL, unfolded small, simplified]
  have base: "number_base (pack_hex_byte b @ rest) 16 =
      (if digit_char 32 ?hi = 48 then digit_char 32 ?lo # rest else pack_hex_byte b @ rest, 16)"
    using v by (auto simp: number_base_def pack_hex_byte_chars split: list.splits)
  have stop: "strtoul_digits u32 16 r rest = (r, rest)" for r
    using assms by (cases rest) (auto simp: isxdigit_def)
  have wrap: "u32 (int k) = int k" if "k < 256" for k using that by (simp add: u32_id in_u32_def)
  have sum: "int ?hi * 16 + int ?lo = uint b" using mult_div_mod_eq [of 16 "unat b"] by (metis of_nat_add of_nat_mult of_nat_numeral mult.commute of_nat_unat)
  have step: "strtoul_digits u32 16 0 (pack_hex_byte b @ rest) = (uint b, rest)"
    using v stop [of "uint b"] wrap [of ?hi] wrap [of "?hi * 16"] wrap [of "unat b"] hi b sum wrap [of 0]
    by (simp add: pack_hex_byte_chars)
  show ?thesis
  proof (cases "digit_char 32 ?hi = 48")
    case True
    then have "?hi = 0" using digit_char_zero(1) [OF hi, of SMALL] small by simp
    then have "int ?lo = uint b" using sum by simp
    then have "strtoul_digits u32 16 0 (digit_char 32 ?lo # rest) = (uint b, rest)"
      using v stop [of "uint b"] wrap [of 0] wrap [of "unat b"] b by simp
    then show ?thesis using base True by (simp add: simple_strtoul_def)
  next
    case False
    then show ?thesis using base step by (simp add: simple_strtoul_def)
  qed
qed

lemma parse_join:
  "bs \<noteq> [] \<Longrightarrow> parse_bytes (length bs) (join_bytes pack_hex_byte [58] bs) = bs"
proof (induction pack_hex_byte "[58 :: u8]" bs rule: join_bytes.induct)
  case (2 b)
  then show ?case using strtoul_byte [of "[]" b] by simp
next
  case (3 b b' bs)
  then show ?case using strtoul_byte [of "58 # join_bytes pack_hex_byte [58] (b' # bs)" b] by simp
qed simp

lemma join_length: "bs \<noteq> [] \<Longrightarrow> length (join_bytes pack_hex_byte [58] bs) = 3 * length bs - 1"
  by (induction pack_hex_byte "[58 :: u8]" bs rule: join_bytes.induct) (auto simp: pack_hex_byte_def)

lemma string_plain: "length s < 2 ^ 32 - 1 \<Longrightarrow> string (Some s) (-1) (-1) flags = s"
  by (simp add: string_def strnlen_def u32_def Let_def)

lemma sprintf_mac:
  assumes "length addr = 6" "p \<noteq> 0"
  shows "sprintf (bytes ''%pM'') [Va_pointer p addr] = Some (join_bytes pack_hex_byte [58] addr)"
proof -
  have "length (join_bytes pack_hex_byte [58] addr) = 17" using join_length [of addr] assms(1) by fastforce
  then show ?thesis
    using assms string_plain [of "join_bytes pack_hex_byte [58] addr"]
    by (simp add: bytes_def sprintf_one conversion_defs pointer_def mac_address_string_def isalnum_def)
qed

text \<open>The name of the variable of an interface.\<close>

definition enet_name :: "u32w \<Rightarrow> cstr" where
  "enet_name index =
     (if index = 0 then bytes ''ethaddr''
      else bytes ''eth'' @ (if sint index < 0 then [45] else []) @ digit_text 10 0 (nat \<bar>sint index\<bar>) @ bytes ''addr'')"

lemma sprintf_enet_name:
  "sprintf (if index \<noteq> 0 then bytes ''eth%daddr'' else bytes ''ethaddr'') [Va_int index] = Some (enet_name index)"
  "length (enet_name index) < 32" "ordinary (enet_name index)"
proof -
  let ?ds = "digit_text 10 0 (nat \<bar>sint index\<bar>)"
  have k: "nat \<bar>sint index\<bar> < 10 ^ Suc 9" using sint_greater_eq [of index] sint_less [of index] by simp
  then have "length ?ds \<le> 10" using lsd_bounded [of 10 "nat \<bar>sint index\<bar>" 9] by (simp add: digit_text_def)
  then show "length (enet_name index) < 32" by (auto simp: enet_name_def bytes_def abs_if split: if_splits)
  have chars: "sign_chars SIGN (scast index) = (if sint index < 0 then [45] else [])" "digit_text 10 SIGN (magnitude SIGN (scast index)) = ?ds"
    by (simp_all add: sign_chars_def magnitude_def digit_text_def case_of_def)
  show "sprintf (if index \<noteq> 0 then bytes ''eth%daddr'' else bytes ''ethaddr'') [Va_int index] = Some (enet_name index)"
    by (simp add: enet_name_def sprintf_def vsprintf_def bytes_def conversion_defs number_layout layout_plain chars)
  have "61 \<notin> set ?ds"
  proof
    assume "61 \<in> set ?ds"
    then obtain d where d: "d \<in> set (lsd 10 (nat \<bar>sint index\<bar>))" "digit_char (case_of 0) d = 61" by (auto simp: digit_text_def)
    then have "isxdigit 61" using lsd_less [of 10 d] digit_char_value [of d 0] by fastforce
    then show False by (simp add: isxdigit_def)
  qed
  then show "ordinary (enet_name index)" by (simp add: ordinary_def enet_name_def bytes_def console_of_def)
qed

section \<open>IP addresses\<close>

definition dotted :: "u8 list \<Rightarrow> cstr" where
  "dotted addr = join_bytes (\<lambda>b. digit_text 10 0 (unat b)) [46] addr"

lemma byte_digits: "rev (put_dec_trunc (ucast (b :: u8))) = digit_text 10 0 (unat b)" "length (digit_text 10 0 (unat (b :: u8))) \<le> 3"
proof -
  have b: "unat b < 256" using unsigned_less [of b, where ?'a = nat] by simp
  then have u: "unat (ucast b :: u32w) = unat b" by (simp add: unsigned_ucast_eq take_bit_nat_eq_self)
  have "map decimal (lsd 10 (unat b)) = map (digit_char (case_of 0)) (lsd 10 (unat b))"
    using lsd_less [of 10 _ "unat b"] digit_char_decimal [of _ 0] by simp
  then show "rev (put_dec_trunc (ucast b)) = digit_text 10 0 (unat b)"
    using put_dec_trunc_digits [of "ucast b"] u b by (simp add: digit_text_def rev_map)
  show "length (digit_text 10 0 (unat b)) \<le> 3" using lsd_bounded [of 10 "unat b" 2] b by (simp add: digit_text_def)
qed

lemma sprintf_ip4:
  assumes "length addr = 4" "p \<noteq> 0"
  shows "sprintf (bytes ''%pI4'') [Va_pointer p addr] = Some (dotted addr)"
proof -
  obtain a b c d where addr: "addr = [a, b, c, d]" using assms(1) by (auto simp: numeral_eq_Suc length_Suc_conv)
  have "length (put_dec_trunc (ucast x)) \<le> 3" for x :: u8 using byte_digits [of x] by (metis length_rev)
  moreover have "length (dotted addr) < 2 ^ 32 - 1"
    using byte_digits(2) [of a] byte_digits(2) [of b] byte_digits(2) [of c] byte_digits(2) [of d] by (simp add: dotted_def addr)
  ultimately show ?thesis
    using assms string_plain [of "dotted addr"]
    by (simp add: bytes_def sprintf_one conversion_defs pointer_def ip4_addr_string_def byte_digits(1) dotted_def isalnum_def not_less)
qed

lemma strtoul_decimal:
  assumes "rest = [] \<or> hd rest = 46" "n < 2 ^ 32"
  shows "simple_strtoul (digit_text 10 0 n @ rest) 10 = (int n, rest)"
proof -
  have stop: "strtoul_digits u32 10 r rest = (r, rest)" for r
    using assms(1) by (cases rest) (auto simp: isxdigit_def)
  have val: "strtoul_digits u32 10 0 (digit_text 10 0 n) = (int n, [])"
    by (rule digit_text_value) (use assms(2) in \<open>simp_all add: u32_id in_u32_def\<close>)
  show ?thesis
  proof (cases "n = 0")
    case True
    then have "number_base (digit_text 10 0 n @ rest) 10 = (rest, 10)"
      using assms(1) digit_text_zero [of 10 0] by (auto simp: number_base_def split: list.splits)
    then show ?thesis using stop True by (simp add: simple_strtoul_def)
  next
    case False
    obtain c cs where "digit_text 10 0 n = c # cs" "c \<noteq> 48" using False by (metis digit_text_first insertCI)
    then have "number_base (digit_text 10 0 n @ rest) 10 = (digit_text 10 0 n @ rest, 10)" by (simp add: number_base_def)
    moreover have "\<forall>c\<in>set (digit_text 10 0 n). isxdigit c \<and> digit_value c < 10"
      using lsd_less [of 10 _ n] digit_char_value [of _ 0] by (fastforce simp: digit_text_def)
    ultimately show ?thesis using stop val by (simp add: simple_strtoul_def strtoul_append)
  qed
qed

lemma htonl_bytes:
  assumes "0 \<le> w" "w < 256" "0 \<le> x" "x < 256" "0 \<le> y" "y < 256" "0 \<le> z" "z < 256"
  shows "htonl (w * 16777216 + x * 65536 + y * 256 + z) = w + 256 * x + 65536 * y + 16777216 * z"
proof -
  let ?n = "w * 16777216 + x * 65536 + y * 256 + z"
  have low: "(k * 256 + v) mod 256 = v" if "0 \<le> v" "v < 256" for k v :: int using that by simp
  have "?n mod 256 = z" using low [of z "w * 65536 + x * 256 + y"] assms by (simp add: algebra_simps)
  moreover have "?n div 256 = w * 65536 + x * 256 + y" "?n div 65536 = w * 256 + x" using assms by simp_all
  moreover have "(w * 65536 + x * 256 + y) mod 256 = y" "(w * 256 + x) mod 256 = x"
    using low [of y "w * 256 + x"] low [of x w] assms by (simp_all add: algebra_simps)
  moreover have "?n div 16777216 mod 256 = w" using assms by simp
  ultimately have "htonl ?n = z * 16777216 + y * 65536 + x * 256 + w" unfolding htonl_def by (simp only:)
  then show ?thesis by linarith
qed

lemma ip_bytes_dotted:
  fixes a b c d :: u8
  shows "htonl (ip_bytes 4 0 (dotted [a, b, c, d])) = uint a + 256 * uint b + 65536 * uint c + 16777216 * uint d"
proof -
  have s: "simple_strtoul (digit_text 10 0 (unat x)) 10 = (uint x, [])" "simple_strtoul (digit_text 10 0 (unat x) @ 46 # r) 10 = (uint x, 46 # r)" for x :: u8 and r
    using strtoul_decimal [of "[]" "unat x"] strtoul_decimal [of "46 # r" "unat x"] unsigned_less [of x, where ?'a = nat] by simp_all
  have r: "0 \<le> uint x" "uint x < 256" for x :: u8 using unsigned_less [of x, where ?'a = int] by simp_all
  have "ip_bytes 4 0 (dotted [a, b, c, d]) = uint a * 16777216 + uint b * 65536 + uint c * 256 + uint d"
    using r [of a] r [of b] r [of c] r [of d]
    by (simp add: dotted_def s numeral_eq_Suc u32_def)
  then show ?thesis using htonl_bytes [of "uint a" "uint b" "uint c" "uint d"] r by (simp only:)
qed

section \<open>Properties\<close>

text \<open>C19: an Ethernet address stored for an interface is the address that is found for the interface with this index, and
  it is reported as valid exactly when it is neither zero nor a multicast address.\<close>

theorem enetaddr_roundtrip:
  assumes "ht_inv (e_htab s)" "env_ready s" "sure_heap H" "length mac = 6" "p \<noteq> 0"
    and "lookup (e_htab s) (enet_name index) \<noteq> None \<or> filled (e_htab s) \<noteq> h_size (e_htab s)"
  shows "\<exists>s'. eth_setenv_enetaddr H C s (enet_name index) p mac = Some (0, s') \<and>
    eth_getenv_enetaddr_by_index H s' env index = Some (is_valid_ether_addr mac, mac)"
proof -
  let ?v = "join_bytes pack_hex_byte [58] mac"
  have mac: "mac \<noteq> []" "length ?v = 17" "parse_bytes 6 ?v = mac"
    using assms(4) join_length [of mac] parse_join [of mac] by fastforce+
  have "?v \<noteq> []" using mac(2) by auto
  then obtain t where "setenv H C s (enet_name index) (Some ?v) = Some (0, special_vars t (enet_name index) ?v)" "ht_inv (e_htab t)"
    "env_ready t = env_ready s" "lookup (e_htab t) = (lookup (e_htab s))(enet_name index \<mapsto> ?v)"
    by (rule setenv_room [OF assms(1) sprintf_enet_name(3) [of index] _ assms(3,6)])
  then obtain s' where s': "setenv H C s (enet_name index) (Some ?v) = Some (0, s')" "ht_inv (e_htab s')" "env_ready s'"
    "lookup (e_htab s') (enet_name index) = Some ?v"
    using assms(2) by simp
  have "getenv H s' env (enet_name index) = Some (Some ?v)"
    using find_var_lookup [of "(e_htab s', e_heap s')"] s' by (simp add: getenv_def)
  then have "eth_getenv_enetaddr_by_index H s' env index = Some (is_valid_ether_addr mac, mac)"
    using sprintf_enet_name [of index] mac(3)
    by (simp add: eth_getenv_enetaddr_by_index_def eth_getenv_enetaddr_def eth_parse_enetaddr_def)
  then show ?thesis using s'(1) sprintf_mac [OF assms(4,5)] mac(2) by (simp add: eth_setenv_enetaddr_def)
qed

lemma enetaddr_roundtrip_witness:
  "\<exists>s'. eth_setenv_enetaddr unit_heap unit_con (shell_state two_vars) (enet_name 1) 0x1000 [0, 0x40, 0x5c, 0x26, 0x0a, 0x5b] = Some (0, s') \<and>
    eth_getenv_enetaddr_by_index unit_heap s' [] 1 = Some (is_valid_ether_addr [0, 0x40, 0x5c, 0x26, 0x0a, 0x5b], [0, 0x40, 0x5c, 0x26, 0x0a, 0x5b])"
  using enetaddr_roundtrip [of "shell_state two_vars" unit_heap "[0, 0x40, 0x5c, 0x26, 0x0a, 0x5b]" "0x1000" 1 unit_con "[]"] two_vars_inv unit_heap_sure
  by (simp add: shell_state_def two_vars_def)

text \<open>Setting \<^verbatim>\<open>ipaddr\<close> to a printed IP address makes the bytes of this address, in network order, the IP address of the board.\<close>

theorem ipaddr_roundtrip:
  assumes "ht_inv (e_htab s)" "sure_heap H" "p \<noteq> 0"
    and "lookup (e_htab s) (bytes ''ipaddr'') \<noteq> None \<or> filled (e_htab s) \<noteq> h_size (e_htab s)"
  shows "\<exists>v s'. sprintf (bytes ''%pI4'') [Va_pointer p [a, b, c, d]] = Some v \<and>
    setenv H C s (bytes ''ipaddr'') (Some v) = Some (0, s') \<and>
    bi_ip_addr s' = uint a + 256 * uint b + 65536 * uint c + 16777216 * uint d"
proof -
  let ?v = "dotted [a, b, c, d]"
  have ord: "ordinary (bytes ''ipaddr'')" by code_simp
  have "?v \<noteq> []" by (auto simp: dotted_def)
  then obtain s' where "setenv H C s (bytes ''ipaddr'') (Some ?v) = Some (0, special_vars s' (bytes ''ipaddr'') ?v)"
    by (rule setenv_room [OF assms(1) ord _ assms(2,4)])
  then show ?thesis using sprintf_ip4 [of "[a, b, c, d]" p] assms(3) ip_bytes_dotted [of a b c d] by (simp add: special_vars_ip)
qed

lemma ipaddr_roundtrip_witness:
  "\<exists>v s'. sprintf (bytes ''%pI4'') [Va_pointer 0x1000 [192, 168, 0, 20]] = Some v \<and>
    setenv unit_heap unit_con (shell_state two_vars) (bytes ''ipaddr'') (Some v) = Some (0, s') \<and> bi_ip_addr s' = 0x1400a8c0"
  using ipaddr_roundtrip [of "shell_state two_vars" unit_heap "0x1000" 192 168 0 20 unit_con] two_vars_inv unit_heap_sure
  by (simp add: shell_state_def two_vars_def)

end
