(* ===== verification/Spec2Isabelle.thy ===== *)
theory Spec2Isabelle
  imports Transform Malloc Lmb Enet
begin

text \<open>
  \<^bold>\<open>A verification of the boot loader of the x4412 board\<close>

  The repository holds a Linux kernel (\<^verbatim>\<open>src/kernel\<close>) and the boot loader U-Boot (\<^verbatim>\<open>src/uboot\<close>) for a board with the Exynos
  4412 processor, and the scripts that put them on a card (\<^verbatim>\<open>src/mk\<close>).  This development models the parts of the boot
  loader that compute: what the board's own directory \<^verbatim>\<open>board/samsung/x4412\<close> draws on the boot screen, the map of the
  memory, and the environment variables with all they rest on, from the characters of a number to the block on the card.

  \<^bold>\<open>The parts and how they interact\<close>

  \<^item> The boot screen.  A surface (\<^verbatim>\<open>surface.c\<close>) is a block of memory in one of ten pixel formats (\<^verbatim>\<open>pixel.c\<close>) with a clip rectangle
    (\<^verbatim>\<open>rect.c\<close>) and a table of drawing routines (\<^verbatim>\<open>maps.c\<close>): points, lines and fills (\<^verbatim>\<open>sw_point.c\<close>, \<^verbatim>\<open>sw_hline.c\<close>, \<^verbatim>\<open>sw_vline.c\<close>,
    \<^verbatim>\<open>sw_fill.c\<close>), copies with conversion of the format (\<^verbatim>\<open>sw_blit*.c\<close>), rotation and scaling (\<^verbatim>\<open>sw_rotate.c\<close>, \<^verbatim>\<open>sw_scale.c\<close>).  Its
    memory comes from the allocator \<^verbatim>\<open>malloc.c\<close> and its lines are moved by \<^verbatim>\<open>lib/string.c\<close>.
  \<^item> The memory map.  \<^verbatim>\<open>lib/lmb.c\<close> keeps the memory banks and the reserved ranges and places the kernel and the ramdisk.
  \<^item> The environment.  The variables live in a hash table (\<^verbatim>\<open>lib/hashtable.c\<close>); the commands (\<^verbatim>\<open>common/cmd_nvedit.c\<close>) read and set
    them; the table is exported as text sorted by name (\<^verbatim>\<open>lib/qsort.c\<close>, \<^verbatim>\<open>strcmp\<close>), protected by a CRC (\<^verbatim>\<open>lib/crc32.c\<close>) and kept on the
    boot device (\<^verbatim>\<open>common/env_auto.c\<close>, \<^verbatim>\<open>common/env_common.c\<close>).  Numbers in variables are printed and parsed by \<^verbatim>\<open>lib/vsprintf.c\<close>, which
    divides with \<^verbatim>\<open>lib/div64.c\<close>; \<^verbatim>\<open>net/eth.c\<close> keeps the Ethernet addresses of the board in variables.

  \<^bold>\<open>The theories\<close>

  \<^item> \<^verbatim>\<open>Boot_Prelude\<close>: the integers of the 32-bit target and the lemmas all others share.  A signed C integer is an \<^typ>\<open>int\<close> with the
    wrap-around \<^const>\<open>s32\<close> written out, or a word where the bits matter.
  \<^item> \<^verbatim>\<open>Rect\<close>, \<^verbatim>\<open>Pixel\<close>, \<^verbatim>\<open>Memory\<close>, \<^verbatim>\<open>Surface\<close>, \<^verbatim>\<open>Blit\<close>, \<^verbatim>\<open>Transform\<close>, \<^verbatim>\<open>Malloc\<close>: the boot screen, one theory per group of source files.  The
    definitions carry the names of the C functions.  A C structure is a record, the memory a function from addresses to bytes; the
    allocator of the drawing routines is an argument.  The heap of \<^verbatim>\<open>Malloc\<close> is a record with one function per field of the block headers.
  \<^item> \<^verbatim>\<open>Lmb\<close>: the two tables of the memory map as lists of eight entries and a spare one.
  \<^item> \<^verbatim>\<open>Cstring\<close>, \<^verbatim>\<open>Crc\<close>, \<^verbatim>\<open>Qsort\<close>, \<^verbatim>\<open>Hashtable\<close>, \<^verbatim>\<open>EnvText\<close>, \<^verbatim>\<open>EnvStore\<close>, \<^verbatim>\<open>EnvCmd\<close>: the environment, from strings to commands.  A buffer is
    the list of its bytes, and an access outside of it is undefined; allocator, console and boot device are arguments.
  \<^item> \<^verbatim>\<open>Numbers\<close>, \<^verbatim>\<open>Vsprintf\<close>, \<^verbatim>\<open>Enet\<close>: division, digits and parsers; formatted output; addresses in variables.
  \<^item> This theory: the screen on the board's allocator.

  In all of them the value \<open>None\<close> stands for undefined behaviour of C (an access outside of a buffer, a signed overflow the compiler may
  exploit) and for a loop that does not end; a theorem that a function gives \<open>Some\<close> says that none of it happens.

  \<^bold>\<open>What the lemmas show\<close>

  \<^item> Rectangles: intersections are exact, line clipping ends for a rectangle at the origin and may not end elsewhere.  Formats: encoding and decoding
    are inverse up to the bits of a channel (locale \<open>pixel_codec\<close>).
  \<^item> Surfaces: a pixel that is set is read back and no other changes (locale \<open>pixel_store\<close>), fills, copies, conversions, rotation and
    scaling are exact pixel by pixel (locale \<open>pixel_copier\<close> for the four sizes of pixels).
  \<^item> The allocator: both lists stay well formed under every sequence of requests and releases, the data of the callers is apart from
    all headers, requests return, and a request takes exactly one block (locale \<open>allocator\<close>, interpreted on the reachable heaps).
  \<^item> The memory map: allocation finds the highest free place and never one in use; the tables stay sorted and apart (locale \<open>block_table\<close>).
  \<^item> Checksums: the table driven CRC is the bitwise division (locale \<open>xor_linear\<close>) and finds bursts.  Sorting: the result is sorted and a
    permutation (locale \<open>comparison\<close>).  The hash table behaves as a finite map until a deletion breaks a probe chain (locale \<open>var_store\<close>).
  \<^item> The environment: export and import are inverse, the variables survive a reboot, damage of the block is detected and replaced by the
    defaults, a variable that is set is found.  Numbers: printing and parsing are inverse; fields have the width asked for.

  Each theorem that carries a number \<open>C\<^sub>n\<close> in the text before it is a property of the program; one with hypotheses is followed by a
  witness that applies it to a concrete input.

  \<^bold>\<open>Bounds\<close>

  Loops over buffers are \<^theory_text>\<open>function\<close>s with a termination proof, by the bytes that are left or by the distance to
  the end; the probe sequence of the hash table is a \<open>while_option\<close> loop that is proved to end because the size of the table is prime; the searches of the
  allocator's lists are partial functions that are proved to end on every well-formed heap.  Only the line clipping of \<^verbatim>\<open>rect.c\<close>, which may run forever,
  takes fuel, one unit per round: more than the sum of the horizontal and the vertical length of the line is enough at the origin, and elsewhere
  there are lines for which no amount is.  Requests to the allocator are bounded by 240 megabytes, fifteen times
  the heap: from there on the sums in \<^verbatim>\<open>sbrk\<close> may wrap.  The sides of a surface are below \<open>2 ^ 29\<close>, so that the pitch does not wrap.

  \<^bold>\<open>Not modelled\<close>

  \<^item> The kernel: third-party code of twelve million lines that runs after the boot loader and shares no function with it.
  \<^item> \<^verbatim>\<open>font.c\<close>: a table of glyph bitmaps without code.  \<^verbatim>\<open>exynos4412-fb.c\<close>, \<^verbatim>\<open>exynos4412-clk.c\<close>, \<^verbatim>\<open>x4412.c\<close>, \<^verbatim>\<open>pmic.c\<close>, \<^verbatim>\<open>smc.c\<close> and the assembler files: they
    read and write registers of the processor, whose behaviour is not part of the sources.
  \<^item> Drivers, network protocols, file systems, partitions and the processor support of U-Boot: they depend on devices in the same way.
  \<^item> The allocator of U-Boot itself (\<^verbatim>\<open>common/dlmalloc.c\<close>): an argument wherever the modelled code calls it.
  \<^item> \<^verbatim>\<open>common/cmd_nvedit.c\<close>: the commands that print, ask, edit, export and import, which are dialogues on the console around the operations modelled
    here.  \<^verbatim>\<open>env_auto.c\<close>: the variants for boot devices this configuration leaves out.  \<^verbatim>\<open>eth.c\<close>: the list of the network devices.
  \<^item> Tools and scripts that run on the host: they are not part of the boot loader.
\<close>

section \<open>Surfaces on the board's allocator\<close>

text \<open>The two requests of \<^verbatim>\<open>surface_alloc\<close>.\<close>

lemma surface_alloc_calls:
  assumes "surface_alloc alloc free fresh hp m 0 w h f = (Some s, hp', m')" "w \<noteq> 0"
  shows "\<exists>sp hp1. alloc hp sizeof_surface = (sp, hp1) \<and> sp \<noteq> 0 \<and> s_pixels s \<noteq> 0 \<and>
    alloc hp1 (unat (h * s_pitch s)) = (s_pixels s, hp') \<and> s_pitch s = line_pitch (set_pixel_info (s_info fresh) f) w \<and>
    m' = memset m (s_pixels s) 0xff (unat (h * s_pitch s))"
  using assms by (auto simp: surface_alloc_def surface_set_clip_rect_def Let_def split: prod.splits if_splits)

lemma surface_alloc_guard:
  assumes "surface_alloc alloc free fresh hp m 0 w h f = (Some s, hp', m')" "w \<noteq> 0"
    and "alloc hp sizeof_surface = (sp, hp1)" "alloc' hp sizeof_surface = (sp, hp1)"
    and "alloc' hp1 (unat (h * s_pitch s)) = alloc hp1 (unat (h * s_pitch s))"
  shows "surface_alloc alloc' free fresh hp m 0 w h f = (Some s, hp', m')"
  using assms by (auto simp: surface_alloc_def surface_set_clip_rect_def Let_def split: prod.splits if_splits)

text \<open>On every allocator that keeps the contract a new surface is well formed and white, and the bytes of all other blocks stay.\<close>

context allocator
begin

lemma surface_on_heap:
  assumes held: "held s t" and alloc: "surface_alloc alloc free fresh s m 0 w h f = (Some sf, s', m')"
    and dims: "f \<noteq> PIXEL_FORMAT_GENERIC" "w \<noteq> 0" "uint w \<le> 536870911" "uint h \<le> 536870911"
    and small: "uint h * ((uint w * int (bytes_per_pixel (set_pixel_info (s_info fresh) f)) + 3) div 4 * 4) \<le> 0xf000000"
  shows "surface_ok sf" "clip_ok sf" "inside sf x y \<Longrightarrow> surface_sw_get_pixel sf m' x y = fit sf 0xffffffff"
    "\<exists>sp. sp \<noteq> s_pixels sf \<and> t sp = None \<and> t (s_pixels sf) = None \<and> held s' (t(sp \<mapsto> of_nat sizeof_surface, s_pixels sf \<mapsto> h * s_pitch sf))"
    "t q = Some l \<Longrightarrow> read_bytes m' q (unat l) = read_bytes m q (unat l)"
proof -
  let ?n = "unat (h * s_pitch sf)" and ?px = "s_pixels sf"
  obtain sp s1 where c: "alloc s sizeof_surface = (sp, s1)" "sp \<noteq> 0" "?px \<noteq> 0" "alloc s1 ?n = (?px, s')"
      "s_pitch sf = line_pitch (set_pixel_info (s_info fresh) f) w" "m' = memset m ?px 0xff ?n"
    using surface_alloc_calls [OF alloc dims(2)] by blast
  have "uint (h * s_pitch sf) \<le> uint h * uint (s_pitch sf)" by (simp add: uint_word_ariths zmod_le_nonneg_dividend)
  then have "h * s_pitch sf \<le> 0xf000000"
    using small line_pitch_value [OF dims(1) refl dims(3), of "s_info fresh"] c(5) by (simp add: word_le_def)
  then have n: "?n \<le> 0xf000000" by (simp add: word_le_nat_alt)
  let ?t = "t(sp \<mapsto> of_nat sizeof_surface, ?px \<mapsto> h * s_pitch sf)"
  have r1: "held s1 (t(sp \<mapsto> of_nat sizeof_surface))" "t sp = None"
    using held_new [OF held _ c(1,2)] by (auto simp: sizeof_surface_def)
  have r2: "held s' ?t" "(t(sp \<mapsto> of_nat sizeof_surface)) ?px = None"
    using held_new [OF r1(1) n c(4,3)] by auto
  then have fresh: "?px \<noteq> sp" "t ?px = None" by (auto split: if_splits)
  define guard where "guard hp n = (let r = alloc hp n in if uint (fst r) + int n \<le> 4294967296 then r else (0, hp))" for hp n
  have g: "guard s sizeof_surface = (sp, s1)" "guard s1 ?n = alloc s1 ?n"
    using held_top [OF r2(1), of sp "of_nat sizeof_surface"] held_top [OF r2(1), of ?px "h * s_pitch sf"] fresh c(1,4)
    by (simp_all add: guard_def sizeof_surface_def)
  have galloc: "surface_alloc guard free fresh s m 0 w h f = (Some sf, s', m')"
    by (rule surface_alloc_guard [OF alloc dims(2) c(1) g])
  have blocks: "uint p + int n \<le> 4294967296" if "guard hp n = (p, hp')" "p \<noteq> 0" for hp n p hp'
    using that by (auto simp: guard_def Let_def split: if_splits)
  have "uint h * ((uint w * int (bytes_per_pixel (set_pixel_info (s_info fresh) f)) + 3) div 4 * 4) < 4294967296" using small by linarith
  note new = surface_alloc_new [where xmalloc = guard, OF galloc dims this, OF blocks]
  show "surface_ok sf" "clip_ok sf" "inside sf x y \<Longrightarrow> surface_sw_get_pixel sf m' x y = fit sf 0xffffffff" using new(1,2,4) by auto
  show "\<exists>sp. sp \<noteq> ?px \<and> t sp = None \<and> t ?px = None \<and> held s' (t(sp \<mapsto> of_nat sizeof_surface, ?px \<mapsto> h * s_pitch sf))"
    using r1(2) r2(1) fresh by (intro exI [of _ sp] conjI) auto
  show "read_bytes m' q (unat l) = read_bytes m q (unat l)" if q: "t q = Some l"
  proof -
    have "?t ?px = Some (h * s_pitch sf)" "?t q = Some l" "q \<noteq> ?px" using q r1(2) fresh by auto
    then show ?thesis unfolding c(6) using fill_frame [OF r2(1)] by blast
  qed
qed

end

text \<open>C13: a surface whose memory comes from the board's allocator is well formed and white, and it takes its memory from no one: the bytes
  behind every pointer the caller held before are what they were, and all of them are still held.\<close>

theorem board_surface:
  assumes run: "arena_run hp hd' s t" "place_ok (arena_init hp hd')"
    and alloc: "surface_alloc board_malloc free fresh s m 0 w h f = (Some sf, s', m')"
    and dims: "f \<noteq> PIXEL_FORMAT_GENERIC" "w \<noteq> 0" "uint w \<le> 536870911" "uint h \<le> 536870911"
    and small: "uint h * ((uint w * int (bytes_per_pixel (set_pixel_info (s_info fresh) f)) + 3) div 4 * 4) \<le> 0xf000000"
  shows "surface_ok sf \<and> clip_ok sf \<and> (\<forall>x y. inside sf x y \<longrightarrow> surface_sw_get_pixel sf m' x y = fit sf 0xffffffff) \<and>
    (\<exists>sp. sp \<noteq> s_pixels sf \<and> t sp = None \<and> t (s_pixels sf) = None \<and>
       arena_run hp hd' s' (t(sp \<mapsto> of_nat sizeof_surface, s_pixels sf \<mapsto> h * s_pitch sf))) \<and>
    (\<forall>q l. t q = Some l \<longrightarrow> read_bytes m' q (unat l) = read_bytes m q (unat l))"
proof -
  have held: "arena_run hp hd' s t \<and> place_ok (arena_init hp hd')" using run by simp
  note new = board.surface_on_heap [OF held alloc dims small]
  show ?thesis using new(1,2,4) by (auto intro: new(3,5))
qed

lemma board_two_requests:
  "\<exists>sp s1 px s2. board_malloc (arena_init 0xc4000000 0xc3f00000) 84 = (sp, s1) \<and> sp \<noteq> 0 \<and> board_malloc s1 16 = (px, s2) \<and> px \<noteq> 0"
proof -
  let ?i = "arena_init 0xc4000000 0xc3f00000"
  obtain sp s1 where m1: "xmalloc ?i 84 = Some (sp, s1)" "sp \<noteq> 0"
    using arena_run_room [OF arena_run.init board_place, of 84] by (auto simp: arena_init_def)
  have brk: "uint (current_brk s1) \<le> 0xc4000000 + 84 + 0x10040" using xmalloc_brk [OF m1(1) board_place] by (simp add: arena_init_def)
  have "arena_run 0xc4000000 0xc3f00000 s1 [sp \<mapsto> 84]" using arena_run.malloc [OF arena_run.init _ m1(1)] m1(2) by simp
  then obtain px s2 where "xmalloc s1 16 = Some (px, s2)" "px \<noteq> 0"
    using arena_run_room [OF _ board_place, of s1 "[sp \<mapsto> 84]" 16] brk by auto
  then show ?thesis using m1 by (simp add: board_malloc_def)
qed

lemma board_surface_witness:
  "\<exists>sf s' m'. surface_alloc board_malloc (\<lambda>s _. s) small_logo (arena_init 0xc4000000 0xc3f00000) (\<lambda>_. 0) 0 2 2 PIXEL_FORMAT_BGR_888 = (Some sf, s', m') \<and>
     surface_ok sf \<and> surface_sw_get_pixel sf m' 1 1 = fit sf 0xffffffff"
proof -
  obtain sp s1 px s2 where m: "board_malloc (arena_init 0xc4000000 0xc3f00000) 84 = (sp, s1)" "sp \<noteq> 0" "board_malloc s1 16 = (px, s2)" "px \<noteq> 0"
    using board_two_requests by blast
  have "line_pitch (set_pixel_info some_info PIXEL_FORMAT_BGR_888) 2 = 8" by code_simp
  moreover have "set_pixel_info (s_info small_logo) PIXEL_FORMAT_BGR_888 = set_pixel_info some_info PIXEL_FORMAT_BGR_888"
    by (simp add: small_logo_def set_pixel_info_def put_layout_def some_info_def)
  ultimately obtain sf m' where a: "surface_alloc board_malloc (\<lambda>s _. s) small_logo (arena_init 0xc4000000 0xc3f00000) (\<lambda>_. 0) 0 2 2 PIXEL_FORMAT_BGR_888 = (Some sf, s2, m')"
      "s_w sf = 2" "s_h sf = 2"
    using m by (auto simp: surface_alloc_def sizeof_surface_def surface_set_clip_rect_def Let_def)
  have all: "surface_ok sf \<and> clip_ok sf \<and> (\<forall>x y. inside sf x y \<longrightarrow> surface_sw_get_pixel sf m' x y = fit sf 0xffffffff)"
    using board_surface [OF arena_run.init board_place a(1)] by (simp add: set_pixel_info_def put_layout_def)
  moreover have "inside sf 1 1" using a(2,3) all by (simp add: inside_def)
  ultimately show ?thesis using a(1) by blast
qed

end
